(* ===== verification/Prelude.thy ===== *)
theory Prelude
  imports Main "HOL-Library.Multiset" "HOL-Library.Char_ord" "HOL-Library.List_Lexorder"
begin

text \<open>
  The vocabulary every component shares: the ways the C++ code can go wrong as values
  (\<open>fault\<close>, with the result type \<open>fault + 'a\<close> and its sequencing \<open>rbind\<close>),
  arithmetic on \<open>size_t\<close> with its wrap-around, the standard algorithms the sources
  call on character ranges (\<open>std::find\<close>, \<open>std::search\<close>), \<open>std::map\<close> from
  strings to strings, and generic lemmas on lists.
\<close>

named_theorems result_simps \<open>evaluation of sequenced results\<close>
named_theorems model_defs \<open>definitions of small accessors of the model\<close>

section \<open>Faults and results\<close>

text \<open>
  A failed \<open>assert\<close> aborts the process (the Makefile does not define \<open>NDEBUG\<close>); an
  access outside an allocated object, a use of a freed object or of a null pointer and a
  signed overflow are undefined behaviour, as is the use of a value that was never set and
  reaching the end of a function that should return a value; a stack has room for so many calls;
  \<open>std::length_error\<close> and
  \<open>std::out_of_range\<close> and \<open>std::bad_function_call\<close> are thrown and nothing in the library catches them.
\<close>

datatype fault =
    AssertFail
  | OutOfBounds
  | UseAfterFree
  | NullDeref
  | SignedOverflow
  | LengthError
  | StdOutOfRange
  | Uninitialised
  | BadFunctionCall
  | StackOverflow
  | MissingReturn

type_synonym 'a result = "fault + 'a"

fun rbind :: "'a result \<Rightarrow> ('a \<Rightarrow> 'b result) \<Rightarrow> 'b result" where
  "rbind (Inl e) f = Inl e"
| "rbind (Inr x) f = f x"

definition require :: "fault \<Rightarrow> bool \<Rightarrow> unit result" where
  "require e P = (if P then Inr () else Inl e)"

abbreviation assert_ok :: "bool \<Rightarrow> unit result" where
  "assert_ok \<equiv> require AssertFail"

lemma require_eq_Inr [simp]: "require e P = Inr u \<longleftrightarrow> P"
  by (simp add: require_def)

lemma require_True [simp, result_simps]: "P \<Longrightarrow> require e P = Inr ()"
  by (simp add: require_def)

lemma require_False [simp, result_simps]: "\<not> P \<Longrightarrow> require e P = Inl e"
  by (simp add: require_def)

lemma rbind_eq_Inr: "rbind m f = Inr y \<longleftrightarrow> (\<exists>x. m = Inr x \<and> f x = Inr y)"
  by (cases m) auto

lemma rbind_eq_Inl: "rbind m f = Inl e \<longleftrightarrow> m = Inl e \<or> (\<exists>x. m = Inr x \<and> f x = Inl e)"
  by (cases m) auto

lemma rbind_assoc: "rbind (rbind m f) g = rbind m (\<lambda>x. rbind (f x) g)"
  by (cases m) auto

lemma rbind_require: "rbind (require e P) f = (if P then f () else Inl e)"
  by simp

lemma rbind_cong [fundef_cong]:
  assumes "m = m'" and "\<And>x. m' = Inr x \<Longrightarrow> f x = f' x"
  shows "rbind m f = rbind m' f'"
  using assms by (cases m') auto

declare rbind.simps [result_simps]

section \<open>size_t\<close>

text \<open>
  \<open>size_t\<close> has 64 bits. Sizes are natural numbers below \<open>2 ^ 64\<close>; a subtraction
  that would go below zero wraps around, as the code's expressions do. The size of a
  \<open>std::vector\<close> of bytes is at most \<open>PTRDIFF_MAX\<close>.
\<close>

definition size_t_mod :: nat where
  "size_t_mod = 2 ^ 64"

definition vec_max_size :: nat where
  "vec_max_size = 2 ^ 63 - 1"

definition sz_sub :: "nat \<Rightarrow> nat \<Rightarrow> nat" where
  "sz_sub a b = (if b \<le> a then a - b else a + size_t_mod - b)"

definition sz_add :: "nat \<Rightarrow> nat \<Rightarrow> nat" where
  "sz_add a b = (a + b) mod size_t_mod"

lemma vec_max_size_less [simp]: "vec_max_size < size_t_mod"
  by (simp add: vec_max_size_def size_t_mod_def)

lemma sz_sub_le [simp]: "b \<le> a \<Longrightarrow> sz_sub a b = a - b"
  by (simp add: sz_sub_def)

lemma sz_add_small [simp]: "a + b < size_t_mod \<Longrightarrow> sz_add a b = a + b"
  by (simp add: sz_add_def)

lemma sz_add_wrap: "a < size_t_mod \<Longrightarrow> 0 < a \<Longrightarrow> sz_add a (size_t_mod - 1) = a - 1"
proof -
  assume a: "a < size_t_mod" "0 < a"
  then have "a + (size_t_mod - 1) = (a - 1) + size_t_mod" by simp
  then show ?thesis using a by (simp only: sz_add_def mod_add_self2) simp
qed

section \<open>Ranges of characters\<close>

text \<open>
  \<open>find_char c xs\<close> is the offset \<open>std::find\<close> returns in the range \<open>xs\<close> (the length
  of the range when \<open>c\<close> does not occur); \<open>find_sub2 a b xs\<close> the offset
  \<open>std::search\<close> returns for the two-character pattern \<open>a b\<close>.
\<close>

fun find_char :: "char \<Rightarrow> string \<Rightarrow> nat" where
  "find_char c [] = 0"
| "find_char c (x # xs) = (if x = c then 0 else Suc (find_char c xs))"

fun find_sub2 :: "char \<Rightarrow> char \<Rightarrow> string \<Rightarrow> nat" where
  "find_sub2 a b [] = 0"
| "find_sub2 a b [x] = 1"
| "find_sub2 a b (x # y # xs) = (if x = a \<and> y = b then 0 else Suc (find_sub2 a b (y # xs)))"

lemma find_char_le: "find_char c xs \<le> length xs"
  by (induction xs) auto

lemma find_char_eq_length [simp]: "find_char c xs = length xs \<longleftrightarrow> c \<notin> set xs"
  by (induction xs) auto

lemma find_char_less: "find_char c xs < length xs \<longleftrightarrow> c \<in> set xs"
  using find_char_le [of c xs] find_char_eq_length [of c xs] by linarith

lemma find_char_append [simp]: "c \<notin> set xs \<Longrightarrow> find_char c (xs @ c # ys) = length xs"
  by (induction xs) auto

lemma find_char_append_in: "c \<in> set xs \<Longrightarrow> find_char c (xs @ ys) = find_char c xs"
  by (induction xs) auto

lemma find_char_append_notin: "c \<notin> set xs \<Longrightarrow> find_char c (xs @ ys) = length xs + find_char c ys"
  by (induction xs) auto

lemma find_sub2_le: "find_sub2 a b xs \<le> length xs"
  by (induction a b xs rule: find_sub2.induct) auto

lemma find_sub2_found:
  "find_sub2 a b xs \<noteq> length xs \<Longrightarrow> find_sub2 a b xs + 2 \<le> length xs"
proof (induction a b xs rule: find_sub2.induct)
  case (3 a b x y xs)
  then show ?case by (cases "x = a \<and> y = b") auto
qed auto

lemma find_sub2_spec:
  "(\<forall>i < find_sub2 a b xs. Suc i < length xs \<longrightarrow> \<not> (xs ! i = a \<and> xs ! Suc i = b)) \<and>
   (find_sub2 a b xs \<noteq> length xs \<longrightarrow>
      xs ! find_sub2 a b xs = a \<and> xs ! Suc (find_sub2 a b xs) = b)"
proof (induction a b xs rule: find_sub2.induct)
  case (3 a b x y xs)
  show ?case
  proof (cases "x = a \<and> y = b")
    case False
    have "\<not> ((x # y # xs) ! i = a \<and> (x # y # xs) ! Suc i = b)"
      if "i < Suc (find_sub2 a b (y # xs))" "i < Suc (length xs)" for i
      using that 3 [OF False] False by (cases i) auto
    with 3 [OF False] False show ?thesis by auto
  qed simp
qed auto

lemma find_sub2_append:
  "find_sub2 a b xs \<noteq> length xs \<Longrightarrow> find_sub2 a b (xs @ ys) = find_sub2 a b xs"
proof (induction a b xs rule: find_sub2.induct)
  case (3 a b x y xs)
  then show ?case by (cases "x = a \<and> y = b") auto
qed auto

lemma find_sub2_at:
  assumes "a \<notin> set xs"
  shows "find_sub2 a b (xs @ a # b # ys) = length xs"
  using assms
proof (induction xs)
  case Nil
  then show ?case by simp
next
  case (Cons x xs)
  then show ?case by (cases "xs @ a # b # ys") auto
qed

text \<open>The C library's \<open>tolower\<close> in the "C" locale.\<close>

definition tolower :: "char \<Rightarrow> char" where
  "tolower c = (if CHR ''A'' \<le> c \<and> c \<le> CHR ''Z'' then char_of (of_char c + 32 :: nat) else c)"

end
