(* ===== verification/Timestamp.thy ===== *)
theory Timestamp
  imports Decimal "HOL-Library.Signed_Division"
begin

text \<open>
  \<open>muduo/base/Timestamp.h\<close>, \<open>Timestamp.cc\<close>: points in time as microseconds since the epoch in
  an \<open>int64_t\<close>. C++ division truncates towards zero (\<open>sdiv\<close>, \<open>smod\<close>); a signed sum that
  leaves the 64 bits is undefined behaviour (\<open>SignedOverflow\<close>). A \<open>double\<close> is an opaque
  value of type \<open>'d\<close>: the code only compares it with zero and casts its product with a
  million to \<open>int64_t\<close>, and these two operations are the record \<open>'d double_ops\<close>.
  \<open>gmtime_r\<close> and \<open>gettimeofday\<close> are the C library's: their results are arguments.
\<close>

type_synonym timestamp = int

record 'd double_ops =
  dbl_positive :: "'d \<Rightarrow> bool"
  dbl_usec :: "'d \<Rightarrow> int"

definition kMicroSecondsPerSecond :: int where "kMicroSecondsPerSecond = 1000 * 1000"

definition in_int64 :: "int \<Rightarrow> bool" where
  "in_int64 i \<longleftrightarrow> - (2 ^ 63) \<le> i \<and> i < 2 ^ 63"

definition int64_checked :: "int \<Rightarrow> int result" where
  "int64_checked i = (if in_int64 i then Inr i else Inl SignedOverflow)"

definition Timestamp_invalid :: timestamp where "Timestamp_invalid = 0"

definition Timestamp_valid :: "timestamp \<Rightarrow> bool" where "Timestamp_valid t \<longleftrightarrow> 0 < t"

definition secondsSinceEpoch :: "timestamp \<Rightarrow> int" where
  "secondsSinceEpoch t = t sdiv kMicroSecondsPerSecond"

definition fromUnixTime_us :: "int \<Rightarrow> int \<Rightarrow> timestamp result" where
  "fromUnixTime_us t microseconds =
     rbind (int64_checked (t * kMicroSecondsPerSecond)) (\<lambda>us. int64_checked (us + microseconds))"

definition fromUnixTime :: "int \<Rightarrow> timestamp result" where
  "fromUnixTime t = fromUnixTime_us t 0"

text \<open>\<open>now()\<close> from the \<open>tv_sec\<close> and \<open>tv_usec\<close> of \<open>gettimeofday\<close>.\<close>

definition Timestamp_now :: "int \<Rightarrow> int \<Rightarrow> timestamp result" where
  "Timestamp_now tv_sec tv_usec =
     rbind (int64_checked (tv_sec * kMicroSecondsPerSecond)) (\<lambda>us. int64_checked (us + tv_usec))"

definition addTime :: "'d double_ops \<Rightarrow> timestamp \<Rightarrow> 'd \<Rightarrow> timestamp result" where
  "addTime ops t seconds = (let delta = dbl_usec ops seconds in int64_checked (t + delta))"

text \<open>\<open>timeDifference\<close> up to the final conversion of the difference to \<open>double\<close> seconds.\<close>

definition timeDifference_us :: "timestamp \<Rightarrow> timestamp \<Rightarrow> int result" where
  "timeDifference_us high low = int64_checked (high - low)"

definition Timestamp_toString :: "timestamp \<Rightarrow> string" where
  "Timestamp_toString t =
     (let seconds = t sdiv kMicroSecondsPerSecond; microseconds = t smod kMicroSecondsPerSecond
      in snprintf_trunc 32 (show_int seconds @ ''.'' @ show_int_zero 6 microseconds))"

record tm =
  tm_year :: int
  tm_mon :: int
  tm_mday :: int
  tm_hour :: int
  tm_min :: int
  tm_sec :: int

definition toFormattedString :: "(int \<Rightarrow> tm) \<Rightarrow> timestamp \<Rightarrow> bool \<Rightarrow> string" where
  "toFormattedString gmtime t showMicroSeconds =
     (let seconds = t sdiv kMicroSecondsPerSecond; d = gmtime seconds in
      if showMicroSeconds
      then let microseconds = t smod kMicroSecondsPerSecond in
        snprintf_trunc 64
         (show_int_blank 4 (tm_year d + 1900) @ ''-'' @ show_int_zero 2 (tm_mon d + 1) @ ''-'' @
          show_int_zero 2 (tm_mday d) @ '' '' @ show_int_zero 2 (tm_hour d) @ '':'' @
          show_int_zero 2 (tm_min d) @ '':'' @ show_int_zero 2 (tm_sec d) @ ''.'' @
          show_int_zero 6 microseconds)
      else snprintf_trunc 64
         (show_int_blank 4 (tm_year d + 1900) @ show_int_zero 2 (tm_mon d + 1) @
          show_int_zero 2 (tm_mday d) @ '' '' @ show_int_zero 2 (tm_hour d) @ '':'' @
          show_int_zero 2 (tm_min d) @ '':'' @ show_int_zero 2 (tm_sec d)))"

section \<open>Facts\<close>

lemma sdiv_nonneg [simp]: "0 \<le> t \<Longrightarrow> t sdiv kMicroSecondsPerSecond = t div kMicroSecondsPerSecond"
  and smod_nonneg [simp]: "0 \<le> t \<Longrightarrow> t smod kMicroSecondsPerSecond = t mod kMicroSecondsPerSecond"
  by (simp_all add: signed_divide_int_def signed_modulo_int_def kMicroSecondsPerSecond_def
      sgn_if minus_div_mult_eq_mod)

definition parse_usecs :: "string \<Rightarrow> int" where
  "parse_usecs s =
     (let k = find_char (CHR ''.'') s in
      int (nat_of_digits (take k s)) * kMicroSecondsPerSecond + int (nat_of_digits (drop (Suc k) s)))"

text \<open>The printed form of every valid or zero timestamp is not cut off by its 32-byte
  array, ends in a point and exactly six digits, and reading it back gives the timestamp.\<close>

theorem toString_roundtrip:
  assumes "0 \<le> t" and "in_int64 t"
  shows "parse_usecs (Timestamp_toString t) = t \<and>
    (\<exists>s u. Timestamp_toString t = s @ ''.'' @ u \<and> length u = 6 \<and> (\<forall>c \<in> set (s @ u). is_digit c))"
proof -
  let ?M = kMicroSecondsPerSecond
  let ?s = "show_nat (nat (t div ?M))"
  let ?u = "pad_left 6 (CHR ''0'') (show_nat (nat (t mod ?M)))"
  have M: "?M = 1000000" by (simp add: kMicroSecondsPerSecond_def)
  have nn: "\<not> t div ?M < 0" "\<not> t mod ?M < 0" using assms(1) by (simp_all add: M pos_imp_zdiv_neg_iff not_less)
  have "nat (t mod ?M) < 10 ^ Suc 5" by (simp add: M)
  from length_show_nat [OF this] have lu: "length ?u = 6" by (simp add: length_pad_left)
  have "t div ?M < 10 ^ 13" using assms by (simp add: M in_int64_def)
  then have "nat (t div ?M) < 10 ^ Suc 12" by simp
  from length_show_nat [OF this] have ls: "length ?s \<le> 13" by simp
  have eq: "Timestamp_toString t = ?s @ ''.'' @ ?u"
    using assms(1) nn lu ls by (simp add: Timestamp_toString_def Let_def show_int_def show_int_zero_def)
  have nodot: "CHR ''.'' \<notin> set ?s" using show_nat_digits not_digit(1) by blast
  have "parse_usecs (?s @ ''.'' @ ?u) = (t div ?M) * ?M + t mod ?M"
    using nodot nn by (simp add: parse_usecs_def Let_def)
  then have "parse_usecs (Timestamp_toString t) = t" by (simp only: eq div_mult_mod_eq)
  moreover have "\<forall>c \<in> set (?s @ ?u). is_digit c" using show_nat_digits pad_left_digits by fastforce
  ultimately show ?thesis using eq lu by blast
qed

lemma toString_roundtrip_witness: "parse_usecs (Timestamp_toString 1700000000000042) = 1700000000000042"
  using toString_roundtrip [of 1700000000000042] by (simp add: in_int64_def)

end
