(* ===== verification/Atomic.thy ===== *)
theory Atomic
  imports Prelude "HOL-Library.Word"
begin

text \<open>
  \<open>muduo/base/Atomic.h\<close>: \<open>AtomicIntegerT<T>\<close> for an integer type of a given width. The state is
  the \<open>value_\<close>; every operation returns what the C++ method returns and the new state. The
  \<open>__sync\<close> builtins are atomic and wrap around, so the operations of several threads happen
  one after the other, in some order.
\<close>

type_synonym 'w atomic = "'w word"

definition atomic_init :: "'w::len atomic" where "atomic_init = 0"

definition atomic_get :: "'w::len atomic \<Rightarrow> 'w word \<times> 'w atomic" where
  "atomic_get v = (v, if v = 0 then 0 else v)"

definition getAndAdd :: "'w::len word \<Rightarrow> 'w atomic \<Rightarrow> 'w word \<times> 'w atomic" where
  "getAndAdd x v = (v, v + x)"

definition addAndGet :: "'w::len word \<Rightarrow> 'w atomic \<Rightarrow> 'w word \<times> 'w atomic" where
  "addAndGet x v = (let (old, v') = getAndAdd x v in (old + x, v'))"

definition incrementAndGet :: "'w::len atomic \<Rightarrow> 'w word \<times> 'w atomic" where
  "incrementAndGet v = (let (old, v') = getAndAdd 1 v in (old + 1, v'))"

definition decrementAndGet :: "'w::len atomic \<Rightarrow> 'w word \<times> 'w atomic" where
  "decrementAndGet v = (let (old, v') = getAndAdd (- 1) v in (old - 1, v'))"

definition atomic_add :: "'w::len word \<Rightarrow> 'w atomic \<Rightarrow> 'w atomic" where
  "atomic_add x v = snd (getAndAdd x v)"

definition atomic_increment :: "'w::len atomic \<Rightarrow> 'w atomic" where
  "atomic_increment v = atomic_add 1 v"

definition atomic_decrement :: "'w::len atomic \<Rightarrow> 'w atomic" where
  "atomic_decrement v = atomic_add (- 1) v"

definition getAndSet :: "'w::len word \<Rightarrow> 'w atomic \<Rightarrow> 'w word \<times> 'w atomic" where
  "getAndSet new v = (v, new)"

lemma incrementAndGet_eq [simp]: "incrementAndGet v = (v + 1, v + 1)"
  by (simp add: incrementAndGet_def getAndAdd_def)

lemma decrementAndGet_eq [simp]: "decrementAndGet v = (v - 1, v - 1)"
  by (simp add: decrementAndGet_def getAndAdd_def)

lemma addAndGet_eq [simp]: "addAndGet x v = (v + x, v + x)"
  by (simp add: addAndGet_def getAndAdd_def)

text \<open>The tickets that \<open>n\<close> calls of \<open>incrementAndGet\<close> hand out, whoever makes them.\<close>

fun tickets :: "nat \<Rightarrow> 'w::len atomic \<Rightarrow> 'w word list" where
  "tickets 0 v = []"
| "tickets (Suc n) v = (let (t, v') = incrementAndGet v in t # tickets n v')"

lemma length_tickets [simp]: "length (tickets n v) = n"
  by (induction n arbitrary: v) (auto simp: Let_def)

lemma tickets_nth: "k < n \<Longrightarrow> tickets n v ! k = v + 1 + of_nat k"
proof (induction n arbitrary: v k)
  case (Suc n)
  then show ?case by (cases k) (auto simp: algebra_simps)
qed simp

text \<open>Up to \<open>2 ^ w\<close> calls of \<open>incrementAndGet\<close> on a \<open>w\<close>-bit atomic, starting from any
  value, in any order and from any threads, return pairwise different numbers: timer and
  thread indices drawn from a counter are unique.\<close>

theorem tickets_distinct:
  fixes v :: "'w::len atomic"
  assumes "n \<le> 2 ^ LENGTH('w)"
  shows "distinct (tickets n v)"
proof (rule distinct_conv_nth [THEN iffD2], intro allI impI)
  fix i j assume ij: "i < length (tickets n v)" "j < length (tickets n v)" "i \<noteq> j"
  then have lt: "i < 2 ^ LENGTH('w)" "j < 2 ^ LENGTH('w)" using assms by simp_all
  show "tickets n v ! i \<noteq> tickets n v ! j"
  proof
    assume "tickets n v ! i = tickets n v ! j"
    then have "(of_nat i :: 'w word) = of_nat j" using ij by (simp add: tickets_nth)
    then show False using lt ij(3) by (metis of_nat_inverse)
  qed
qed

lemma tickets_distinct_witness: "distinct (tickets 3 (255 :: 8 word))"
  using tickets_distinct [of 3 "255 :: 8 word"] by simp

end
