(* ===== verification/Timer.thy ===== *)
theory Timer
  imports Timestamp Atomic
begin

text \<open>
  \<open>muduo/net/Timer.h\<close>, \<open>Timer.cc\<close>, \<open>TimerId.h\<close>: one timer. A callback is an opaque value of
  type \<open>'c\<close>, the interval a \<open>double\<close> (see \<open>Timestamp\<close>). \<open>s_numCreated_\<close> is an atomic
  64-bit counter shared by all timers, passed through the constructor.
\<close>

record ('c, 'd) timer =
  timerCallback :: 'c
  timer_expiration :: timestamp
  timer_interval :: 'd
  timer_repeat :: bool
  timer_canceled :: bool
  timer_index :: "64 word"
  heapIndex :: int

definition Timer_init ::
  "'d double_ops \<Rightarrow> 64 atomic \<Rightarrow> 'c \<Rightarrow> timestamp \<Rightarrow> 'd \<Rightarrow> ('c, 'd) timer \<times> 64 atomic" where
  "Timer_init ops created cb expiration interval =
     (let (idx, created') = incrementAndGet created in
      (\<lparr>timerCallback = cb, timer_expiration = expiration, timer_interval = interval,
        timer_repeat = dbl_positive ops interval, timer_canceled = False,
        timer_index = idx, heapIndex = -1\<rparr>, created'))"

definition setHeapIndex :: "('c, 'd) timer \<Rightarrow> int \<Rightarrow> ('c, 'd) timer" where
  "setHeapIndex t idx = t\<lparr>heapIndex := idx\<rparr>"

definition timer_cancel :: "('c, 'd) timer \<Rightarrow> ('c, 'd) timer" where
  "timer_cancel t = t\<lparr>timer_canceled := True, timer_repeat := False\<rparr>"

definition timer_restart :: "'d double_ops \<Rightarrow> ('c, 'd) timer \<Rightarrow> timestamp \<Rightarrow> ('c, 'd) timer result" where
  "timer_restart ops t now =
     (if timer_repeat t
      then rbind (addTime ops now (timer_interval t)) (\<lambda>e. Inr (t\<lparr>timer_expiration := e\<rparr>))
      else Inr (t\<lparr>timer_expiration := Timestamp_invalid\<rparr>))"

text \<open>A \<open>TimerId\<close> holds the timer's address and index; the default one a null pointer.\<close>

type_synonym addr = "64 word"

record timer_id =
  id_timer :: addr
  id_index :: "64 word"

definition TimerId_default :: timer_id where
  "TimerId_default = \<lparr>id_timer = 0, id_index = 0\<rparr>"

definition TimerId_init :: "addr \<Rightarrow> 64 word \<Rightarrow> timer_id" where
  "TimerId_init p i = \<lparr>id_timer = p, id_index = i\<rparr>"

lemma timer_cancel_simps [simp]:
  "timer_expiration (timer_cancel t) = timer_expiration t"
  "timerCallback (timer_cancel t) = timerCallback t"
  "timer_interval (timer_cancel t) = timer_interval t"
  "timer_canceled (timer_cancel t)" "\<not> timer_repeat (timer_cancel t)"
  by (simp_all add: timer_cancel_def)

lemma Timer_init_simps [simp]:
  "timer_expiration (fst (Timer_init ops n cb e i)) = e"
  "timerCallback (fst (Timer_init ops n cb e i)) = cb"
  "timer_repeat (fst (Timer_init ops n cb e i)) = dbl_positive ops i"
  "\<not> timer_canceled (fst (Timer_init ops n cb e i))"
  by (simp_all add: Timer_init_def)

end
