(* ===== verification/MinHeap.thy ===== *)
theory MinHeap
  imports Prelude
begin

text \<open>
  \<open>muduo/base/MinHeap.h\<close>: the array heap the timer queue keeps its entries in. The
  \<open>std::vector\<close> \<open>data_\<close> is modelled with the storage it has allocated (\<open>hdata\<close>, as long
  as \<open>data_.capacity()\<close>) and its own size (\<open>dsize\<close>, \<open>data_.size()\<close>); \<open>hsize\<close> is \<open>size_\<close>
  and \<open>hcap\<close> is \<open>capacity_\<close>. \<open>data_[i]\<close> is not checked by the library: it reaches the
  allocated storage also at and behind \<open>data_.size()\<close>, and is out of bounds behind the
  storage. \<open>T()\<close>, the value \<open>resize\<close> gives to new elements, is the argument \<open>dflt\<close>.
  Contents: the operations; the heap order and its repair by sifting up and down; the
  interface \<open>min_queue\<close> and its interpretation; what a reallocation after \<open>shrink\<close> does.
\<close>

section \<open>State and operations\<close>

record 'a minheap =
  hdata :: "'a list"
  dsize :: nat
  hsize :: nat
  hcap :: nat

definition heap_parent :: "nat \<Rightarrow> nat" where "heap_parent i = (i - 1) div 2"
definition heap_left :: "nat \<Rightarrow> nat" where "heap_left i = 2 * i + 1"
definition heap_right :: "nat \<Rightarrow> nat" where "heap_right i = 2 * i + 2"

definition heap_kInitSize :: nat where "heap_kInitSize = 16"

definition MinHeap_init :: "'a \<Rightarrow> nat \<Rightarrow> 'a minheap" where
  "MinHeap_init dflt n = \<lparr>hdata = replicate n dflt, dsize = n, hsize = 0, hcap = n\<rparr>"

text \<open>
  \<open>data_.resize(n)\<close>. Only the first \<open>data_.size()\<close> elements are elements of the vector: a
  reallocation moves them alone to the new storage, of at least \<open>n\<close> and at least twice the
  old size (the growth policy of libstdc++); the other new elements are \<open>T()\<close>.
\<close>

definition data_resize :: "'a \<Rightarrow> nat \<Rightarrow> 'a minheap \<Rightarrow> 'a minheap" where
  "data_resize dflt n h =
     (let d = hdata h; s = dsize h in
      if n \<le> s then h\<lparr>dsize := n\<rparr>
      else if n \<le> length d
      then h\<lparr>hdata := take s d @ replicate (n - s) dflt @ drop n d, dsize := n\<rparr>
      else h\<lparr>hdata := take s d @ replicate (max n (2 * s) - s) dflt, dsize := n\<rparr>)"

definition shrink :: "'a \<Rightarrow> 'a minheap \<Rightarrow> 'a minheap" where
  "shrink dflt h =
     (if hsize h \<le> hcap h div 2
      then (data_resize dflt (hsize h) h)\<lparr>hcap := hsize h\<rparr>
      else h)"

definition expand :: "'a \<Rightarrow> 'a minheap \<Rightarrow> 'a minheap" where
  "expand dflt h =
     (if hsize h = length (hdata h) then data_resize dflt (2 * hsize h) h else h)"

text \<open>The loop of \<open>push\<close>: the hole at \<open>i\<close> moves towards the root while \<open>x\<close> is smaller
  than the hole's parent. The result is the array and the final place of the hole.\<close>

function sift_up :: "'a::linorder \<Rightarrow> 'a list \<Rightarrow> nat \<Rightarrow> 'a list \<times> nat" where
  "sift_up x d i =
     (if 0 < i \<and> x < d ! heap_parent i
      then sift_up x (d[i := d ! heap_parent i]) (heap_parent i)
      else (d, i))"
  by pat_completeness auto
termination
  by (relation "measure (\<lambda>(x, d, i). i)") (auto simp: heap_parent_def)

declare sift_up.simps [simp del]

text \<open>\<open>data_[size_]\<close> is written in every run of \<open>push\<close>, so the storage must reach it.\<close>

definition heap_push :: "'a::linorder \<Rightarrow> 'a minheap \<Rightarrow> 'a \<Rightarrow> ('a minheap \<times> nat) result" where
  "heap_push dflt h x =
     (if length (hdata h) \<le> hsize h then Inl OutOfBounds
      else let (d, i) = sift_up x (hdata h) (hsize h) in
           Inr (expand dflt (h\<lparr>hdata := d[i := x], hsize := Suc (hsize h)\<rparr>), i))"

definition heap_top :: "'a minheap \<Rightarrow> 'a result" where
  "heap_top h = (if hdata h = [] then Inl OutOfBounds else Inr (hdata h ! 0))"

text \<open>The child of \<open>i\<close> that has to move up, if any (\<open>minIdx\<close>, \<open>None\<close> for -1).\<close>

definition min_child :: "nat \<Rightarrow> 'a::linorder \<Rightarrow> 'a list \<Rightarrow> nat \<Rightarrow> nat option" where
  "min_child n x d i =
     (let m = (if heap_left i < n \<and> d ! heap_left i < x then Some (heap_left i) else None) in
      if heap_right i < n \<and> d ! heap_right i < x
      then (if \<not> (m \<noteq> None \<and> d ! heap_left i < d ! heap_right i) then Some (heap_right i) else m)
      else m)"

lemma min_child_bounds: "min_child n x d i = Some m \<Longrightarrow> i < m \<and> m < n"
  by (auto simp: min_child_def heap_left_def heap_right_def Let_def split: if_splits)

function sift_down :: "nat \<Rightarrow> 'a::linorder \<Rightarrow> 'a list \<Rightarrow> nat \<Rightarrow> 'a list \<times> nat" where
  "sift_down n x d i =
     (case min_child n x d i of
        None \<Rightarrow> (d, i)
      | Some m \<Rightarrow> sift_down n x (d[i := d ! m]) m)"
  by pat_completeness auto
termination
  by (relation "measure (\<lambda>(n, x, d, i). n - i)") (auto dest: min_child_bounds)

declare sift_down.simps [simp del]

definition heap_pop :: "'a::linorder \<Rightarrow> 'a minheap \<Rightarrow> 'a minheap result" where
  "heap_pop dflt h =
     (if hsize h = 0 \<or> length (hdata h) < hsize h then Inl OutOfBounds
      else let n = hsize h - 1; x = hdata h ! n; (d, i) = sift_down n x (hdata h) 0 in
           Inr (shrink dflt (h\<lparr>hdata := d[i := x], hsize := n\<rparr>)))"

text \<open>
  The upward loop of \<open>remove\<close> tests \<open>parent(i) >= 0\<close>, which holds at the root too
  (\<open>parent(0)\<close> is 0): it does not return (\<open>None\<close>) once the hole is at the root and \<open>x\<close> is
  smaller than what the root holds.
\<close>

partial_function (option) remove_up :: "'a::linorder \<Rightarrow> 'a list \<Rightarrow> nat \<Rightarrow> ('a list \<times> nat) option" where
  "remove_up x d i =
     (if x < d ! heap_parent i
      then remove_up x (d[i := d ! heap_parent i]) (heap_parent i)
      else Some (d, i))"

definition heap_remove :: "'a::linorder \<Rightarrow> 'a minheap \<Rightarrow> nat \<Rightarrow> 'a minheap result option" where
  "heap_remove dflt h i =
     (if hsize h = 0 \<or> length (hdata h) < hsize h \<or> hsize h \<le> i then Some (Inl OutOfBounds)
      else if i = hsize h - 1 then Some (Inr (h\<lparr>hsize := hsize h - 1\<rparr>))
      else let n = hsize h - 1; x = hdata h ! n in
           map_option (\<lambda>(d, j). Inr (shrink dflt (h\<lparr>hdata := d[j := x], hsize := n\<rparr>)))
             (if x < hdata h ! heap_parent i then remove_up x (hdata h) i
              else Some (sift_down n x (hdata h) i)))"

definition heap_size :: "'a minheap \<Rightarrow> nat" where "heap_size h = hsize h"
definition heap_empty :: "'a minheap \<Rightarrow> bool" where "heap_empty h \<longleftrightarrow> hsize h = 0"

text \<open>\<open>assertOrder\<close> aborts unless every element is strictly smaller than its children.\<close>

definition assertOrder :: "'a::linorder minheap \<Rightarrow> unit result" where
  "assertOrder h =
     assert_ok (\<forall>i \<in> set [0..<hsize h].
       (heap_left i < hsize h \<longrightarrow> hdata h ! i < hdata h ! heap_left i) \<and>
       (heap_right i < hsize h \<longrightarrow> hdata h ! i < hdata h ! heap_right i))"

section \<open>Heap order with a hole\<close>

text \<open>
  \<open>heap_upto n d\<close>: the first \<open>n\<close> cells are heap ordered. While a loop runs, the cell \<open>i\<close> is a
  hole that \<open>x\<close> will fill; \<open>hole_up\<close> and \<open>hole_down\<close> say what holds of the array with \<open>x\<close>
  written there: only the order between the hole and its parent, or its children, may fail.
\<close>

definition heap_upto :: "nat \<Rightarrow> 'a::linorder list \<Rightarrow> bool" where
  "heap_upto n d \<longleftrightarrow> (\<forall>k. 0 < k \<and> k < n \<longrightarrow> d ! heap_parent k \<le> d ! k)"

lemma heap_upto_code [code]:
  "heap_upto n d \<longleftrightarrow> list_all (\<lambda>k. d ! heap_parent k \<le> d ! k) [1..<n]"
  by (auto simp: heap_upto_def list_all_iff)

definition hole_near :: "nat \<Rightarrow> 'a::linorder list \<Rightarrow> nat \<Rightarrow> bool" where
  "hole_near n d i \<longleftrightarrow>
     (\<forall>k. 0 < k \<and> k < n \<and> heap_parent k = i \<and> 0 < i \<longrightarrow> d ! heap_parent i \<le> d ! k)"

definition hole_up :: "nat \<Rightarrow> 'a::linorder list \<Rightarrow> nat \<Rightarrow> bool" where
  "hole_up n d i \<longleftrightarrow> hole_near n d i \<and>
     (\<forall>k. 0 < k \<and> k < n \<and> k \<noteq> i \<longrightarrow> d ! heap_parent k \<le> d ! k)"

definition hole_down :: "nat \<Rightarrow> 'a::linorder list \<Rightarrow> nat \<Rightarrow> bool" where
  "hole_down n d i \<longleftrightarrow> hole_near n d i \<and>
     (\<forall>k. 0 < k \<and> k < n \<and> heap_parent k \<noteq> i \<longrightarrow> d ! heap_parent k \<le> d ! k)"

lemma heap_parent_less [simp]: "0 < i \<Longrightarrow> heap_parent i < i"
  by (simp add: heap_parent_def)

lemma heap_parent_0 [simp]: "heap_parent 0 = 0"
  by (simp add: heap_parent_def)

lemma parent_left [simp]: "heap_parent (heap_left i) = i"
  and parent_right [simp]: "heap_parent (heap_right i) = i"
  by (simp_all add: heap_parent_def heap_left_def heap_right_def)

lemma child_cases:
  assumes "0 < k" and "heap_parent k = i"
  shows "k = heap_left i \<or> k = heap_right i"
proof -
  obtain m where m: "k = Suc m" using assms(1) by (cases k) auto
  with assms(2) have "m div 2 = i" by (simp add: heap_parent_def)
  with m show ?thesis unfolding heap_left_def heap_right_def by presburger
qed

lemma heap_root_le:
  assumes "heap_upto n d" and "k < n"
  shows "d ! 0 \<le> d ! k"
  using assms(2)
proof (induction k rule: less_induct)
  case (less k)
  show ?case
  proof (cases "k = 0")
    case False
    then have "d ! heap_parent k \<le> d ! k" using assms(1) less.prems by (simp add: heap_upto_def)
    moreover have "d ! 0 \<le> d ! heap_parent k"
      using less False by (meson heap_parent_less less_trans neq0_conv)
    ultimately show ?thesis by simp
  qed simp
qed

text \<open>Moving the hole by one step is an exchange of two cells of the filled array.\<close>

lemma fill_moved_hole:
  assumes "i < length d" "j < length d" "i \<noteq> j"
  shows "mset ((d[i := d ! j])[j := x]) = mset (d[i := x])"
proof -
  have "(d[i := d ! j])[j := x] = (let e = d[i := x] in e[i := e ! j, j := e ! i])"
    using assms by (simp add: Let_def)
  also have "mset \<dots> = mset (d[i := x])"
    unfolding Let_def using assms by (intro mset_swap) simp_all
  finally show ?thesis .
qed

lemma sift_up_frame:
  assumes "i < length d" and "i < n"
  shows "let (d', j) = sift_up x d i in
     j \<le> i \<and> length d' = length d \<and> mset (d'[j := x]) = mset (d[i := x]) \<and> drop n d' = drop n d"
  using assms
proof (induction x d i rule: sift_up.induct)
  case (1 x d i)
  show ?case
  proof (cases "0 < i \<and> x < d ! heap_parent i")
    case True
    let ?p = "heap_parent i"
    have p: "?p < i" using True by simp
    with "1.prems" have "?p < length (d[i := d ! ?p])" "?p < n" by simp_all
    note IH = "1.IH" [OF True this]
    obtain d' j where r: "sift_up x (d[i := d ! ?p]) ?p = (d', j)" by fastforce
    with IH have "j \<le> ?p" by simp
    then have "j \<le> i" using p by linarith
    then show ?thesis using IH r p "1.prems" True
      by (subst sift_up.simps) (simp add: fill_moved_hole)
  next
    case False
    then show ?thesis by (subst sift_up.simps) auto
  qed
qed

lemma hole_up_step:
  assumes up: "hole_up n (d[i := x]) i" and i: "0 < i" "i < n" "n \<le> length d"
    and less: "x < d ! heap_parent i"
  shows "hole_up n ((d[i := d ! heap_parent i])[heap_parent i := x]) (heap_parent i)"
proof -
  let ?p = "heap_parent i"
  let ?e = "(d[i := d ! ?p])[?p := x]"
  have p: "?p < i" using i by simp
  have ord: "d[i := x] ! heap_parent k \<le> d[i := x] ! k" if "0 < k" "k < n" "k \<noteq> i" for k
    using up that by (simp add: hole_up_def)
  have near: "d ! ?p \<le> d ! k" if "0 < k" "k < n" "heap_parent k = i" for k
  proof -
    have "k \<noteq> i" using heap_parent_less [of k] that by auto
    moreover have "d[i := x] ! ?p \<le> d[i := x] ! k"
      using up that i(1) unfolding hole_up_def hole_near_def by blast
    ultimately show ?thesis using p by simp
  qed
  have e: "?e ! k = (if k = ?p then x else if k = i then d ! ?p else d ! k)" if "k < n" for k
    using that i p by (simp add: nth_list_update)
  have par: "heap_parent k < n" if "k < n" for k
    using that by (cases "k = 0") (auto intro: less_trans heap_parent_less)
  have up_p: "d ! heap_parent ?p \<le> d ! ?p" if "0 < ?p"
  proof -
    have "heap_parent ?p < i" using heap_parent_less [OF that] p by (rule less_trans)
    then show ?thesis using ord [of ?p] that p i by (simp add: nth_list_update)
  qed
  show ?thesis unfolding hole_up_def hole_near_def
  proof (intro conjI allI impI)
    fix k assume k: "0 < k \<and> k < n \<and> heap_parent k = ?p \<and> 0 < ?p"
    have pp: "heap_parent ?p < ?p" using k by simp
    have kp: "k \<noteq> ?p" using heap_parent_less [of k] k by auto
    have "d ! heap_parent ?p \<le> ?e ! k"
    proof (cases "k = i")
      case True
      then show ?thesis using less_imp_neq [OF p] up_p k i by (simp add: nth_list_update)
    next
      case False
      then have "d ! ?p \<le> d ! k" using ord [of k] k p by (simp add: nth_list_update)
      moreover have "?e ! k = d ! k" using e [of k] k kp False by simp
      ultimately show ?thesis using up_p k order_trans by metis
    qed
    moreover have "?e ! heap_parent ?p = d ! heap_parent ?p"
      using less_imp_neq [OF less_trans [OF pp p]] pp by simp
    ultimately show "?e ! heap_parent ?p \<le> ?e ! k" by simp
  next
    fix k assume k: "0 < k \<and> k < n \<and> k \<noteq> ?p"
    show "?e ! heap_parent k \<le> ?e ! k"
    proof (cases "k = i")
      case True
      then show ?thesis using e [of i] e [of ?p] i p less by simp
    next
      case False
      from k False have "d[i := x] ! heap_parent k \<le> d[i := x] ! k" using ord by blast
      then show ?thesis
        using k False e [of k] e [of "heap_parent k"] par [of k] near [of k] less i p
        by (auto simp: nth_list_update split: if_splits)
    qed
  qed
qed

lemma sift_up_heap:
  assumes "hole_up n (d[i := x]) i" and "i < n" and "n \<le> length d"
  shows "let (d', j) = sift_up x d i in heap_upto n (d'[j := x])"
  using assms
proof (induction x d i rule: sift_up.induct)
  case (1 x d i)
  show ?case
  proof (cases "0 < i \<and> x < d ! heap_parent i")
    case True
    then have "hole_up n ((d[i := d ! heap_parent i])[heap_parent i := x]) (heap_parent i)"
      using "1.prems" by (intro hole_up_step) auto
    moreover have "heap_parent i < n" using True "1.prems"(2) by (meson heap_parent_less less_trans)
    ultimately show ?thesis using "1.IH" [OF True] True "1.prems"(3)
      by (subst sift_up.simps) simp
  next
    case False
    have "d[i := x] ! heap_parent k \<le> d[i := x] ! k" if "0 < k" "k < n" for k
      using "1.prems" that False
      by (cases "k = i") (auto simp: hole_up_def nth_list_update dest: heap_parent_less)
    then show ?thesis using False by (subst sift_up.simps) (auto simp: heap_upto_def)
  qed
qed

lemma heap_hole_up:
  assumes "heap_upto n d" and "n < length d"
  shows "hole_up (Suc n) (d[n := x]) n"
  unfolding hole_up_def hole_near_def
proof (intro conjI allI impI)
  fix k assume k: "0 < k \<and> k < Suc n \<and> heap_parent k = n \<and> 0 < n"
  then have "n < n" using heap_parent_less [of k] by simp
  then show "d[n := x] ! heap_parent n \<le> d[n := x] ! k" by simp
next
  fix k assume k: "0 < k \<and> k < Suc n \<and> k \<noteq> n"
  then have "heap_parent k < n" "k < n" using heap_parent_less [of k] by linarith+
  then show "d[n := x] ! heap_parent k \<le> d[n := x] ! k"
    using assms k by (simp add: heap_upto_def)
qed

text \<open>Sifting down: \<open>min_child\<close> finds the smaller of the children that are below \<open>x\<close>.\<close>

lemma min_child_None:
  assumes "min_child n x d i = None" and "0 < k" and "k < n" and "heap_parent k = i"
  shows "x \<le> d ! k"
  using child_cases [OF assms(2,4)] assms(1,3)
  by (auto simp: min_child_def Let_def not_less split: if_splits)

lemma min_child_Some:
  assumes "min_child n x d i = Some m"
  shows "0 < m" "heap_parent m = i" "d ! m < x" "i < m" "m < n"
  using assms min_child_bounds [OF assms]
  by (auto simp: min_child_def Let_def split: if_splits)

lemma min_child_least:
  assumes "min_child n x d i = Some m" and "0 < k" and "k < n" and "heap_parent k = i"
  shows "d ! m \<le> d ! k"
  using child_cases [OF assms(2,4)] assms(1,3)
  by (auto simp: min_child_def Let_def not_less split: if_splits)

lemma sift_down_frame:
  assumes "i < length d" and "i < n" and "n \<le> length d"
  shows "let (d', j) = sift_down n x d i in
     j < n \<and> length d' = length d \<and> mset (d'[j := x]) = mset (d[i := x]) \<and> drop n d' = drop n d"
  using assms
proof (induction n x d i rule: sift_down.induct)
  case (1 n x d i)
  show ?case
  proof (cases "min_child n x d i")
    case None
    then show ?thesis using "1.prems" by (subst sift_down.simps) simp
  next
    case (Some m)
    note m = min_child_Some [OF Some]
    have "m < length (d[i := d ! m])" "n \<le> length (d[i := d ! m])"
      using m "1.prems" by simp_all
    from "1.IH" [OF Some this(1) m(5) this(2)] show ?thesis
      using Some m "1.prems" by (subst sift_down.simps) (simp add: fill_moved_hole)
  qed
qed

lemma hole_down_step:
  assumes down: "hole_down n (d[i := x]) i" and i: "i < n" "n \<le> length d"
    and Some: "min_child n x d i = Some m"
  shows "hole_down n ((d[i := d ! m])[m := x]) m"
proof -
  note m = min_child_Some [OF Some]
  let ?e = "(d[i := d ! m])[m := x]"
  have e: "?e ! k = (if k = m then x else if k = i then d ! m else d ! k)" if "k < n" for k
    using that i m by (auto simp: nth_list_update)
  have ord: "d[i := x] ! heap_parent k \<le> d[i := x] ! k"
    if "0 < k" "k < n" "heap_parent k \<noteq> i" for k
    using down that by (simp add: hole_down_def)
  have near: "d[i := x] ! heap_parent i \<le> d[i := x] ! k"
    if "0 < k" "k < n" "heap_parent k = i" "0 < i" for k
    using down that unfolding hole_down_def hole_near_def by blast
  show ?thesis unfolding hole_down_def hole_near_def
  proof (intro conjI allI impI)
    fix k assume k: "0 < k \<and> k < n \<and> heap_parent k = m \<and> 0 < m"
    then have "m < k" using heap_parent_less [of k] by auto
    then have "k \<noteq> m" "k \<noteq> i" using m by auto
    moreover have "d ! m \<le> d ! k" using ord [of k] k m(4) calculation by (simp add: nth_list_update)
    ultimately show "?e ! heap_parent m \<le> ?e ! k" using e [of k] e [OF i(1)] k m by simp
  next
    fix k assume k: "0 < k \<and> k < n \<and> heap_parent k \<noteq> m"
    have pk: "heap_parent k < k" using k by simp
    then have pn: "heap_parent k < n" using k by linarith
    consider "k = i" | "heap_parent k = i" "k \<noteq> m" | "k = m" | "k \<noteq> i" "heap_parent k \<noteq> i" "k \<noteq> m"
      by blast
    then show "?e ! heap_parent k \<le> ?e ! k"
    proof cases
      case 1
      have "d[i := x] ! heap_parent i \<le> d[i := x] ! m" using near [of m] m k 1 by simp
      then show ?thesis using 1 k pk pn i m by (simp add: nth_list_update)
    next
      case 2
      have "d ! m \<le> d ! k" using min_child_least [OF Some] 2 k by simp
      then show ?thesis using 2 k pk i m by (simp add: nth_list_update)
    next
      case 3
      then show ?thesis using k pk i m by (simp add: nth_list_update)
    next
      case 4
      then have "d ! heap_parent k \<le> d ! k" using ord [of k] k by (simp add: nth_list_update)
      then show ?thesis using 4 k pk i m by (simp add: nth_list_update)
    qed
  qed
qed

lemma sift_down_heap:
  assumes "hole_down n (d[i := x]) i" and "i < n" and "n \<le> length d"
  shows "let (d', j) = sift_down n x d i in heap_upto n (d'[j := x])"
  using assms
proof (induction n x d i rule: sift_down.induct)
  case (1 n x d i)
  show ?case
  proof (cases "min_child n x d i")
    case None
    have "d[i := x] ! heap_parent k \<le> d[i := x] ! k" if k: "0 < k" "k < n" for k
    proof (cases "heap_parent k = i")
      case True
      then have "x \<le> d ! k" "k \<noteq> i"
        using min_child_None [OF None k] heap_parent_less [OF k(1)] by auto
      then show ?thesis using True "1.prems" by simp
    next
      case False
      then show ?thesis using "1.prems"(1) k by (simp add: hole_down_def)
    qed
    then show ?thesis using None by (subst sift_down.simps) (simp add: heap_upto_def)
  next
    case (Some m)
    note m = min_child_Some [OF Some]
    have "hole_down n ((d[i := d ! m])[m := x]) m"
      using "1.prems" Some by (intro hole_down_step) auto
    moreover have "n \<le> length (d[i := d ! m])" using "1.prems" by simp
    ultimately show ?thesis using "1.IH" [OF Some _ m(5)] Some
      by (subst sift_down.simps) simp
  qed
qed

text \<open>The hole of \<open>pop\<close> (the root) and of \<open>remove\<close> (any cell), filled by a larger or a
  smaller element.\<close>

lemma heap_hole_down:
  assumes heap: "heap_upto n d" and i: "i < n" "n \<le> length d"
    and ge: "0 < i \<Longrightarrow> d ! heap_parent i \<le> x"
  shows "hole_down n (d[i := x]) i"
  unfolding hole_down_def hole_near_def
proof (intro conjI allI impI)
  fix k assume k: "0 < k \<and> k < n \<and> heap_parent k = i \<and> 0 < i"
  then have "i < k" using heap_parent_less [of k] by auto
  moreover have "d ! heap_parent i \<le> d ! i" "d ! i \<le> d ! k"
    using heap k i by (auto simp: heap_upto_def)
  moreover have "heap_parent i < i" using k by simp
  ultimately show "d[i := x] ! heap_parent i \<le> d[i := x] ! k" by simp
next
  fix k assume k: "0 < k \<and> k < n \<and> heap_parent k \<noteq> i"
  then show "d[i := x] ! heap_parent k \<le> d[i := x] ! k"
    using heap i ge by (cases "k = i") (auto simp: heap_upto_def nth_list_update)
qed

lemma heap_hole_up_at:
  assumes heap: "heap_upto n d" and i: "i < n" "n \<le> length d" "0 < i"
    and less: "x < d ! heap_parent i"
  shows "hole_up n (d[i := x]) i"
  unfolding hole_up_def hole_near_def
proof (intro conjI allI impI)
  fix k assume k: "0 < k \<and> k < n \<and> heap_parent k = i \<and> 0 < i"
  then have "i < k" using heap_parent_less [of k] by auto
  moreover have "d ! heap_parent i \<le> d ! i" "d ! i \<le> d ! k"
    using heap k i by (auto simp: heap_upto_def)
  moreover have "heap_parent i < i" using k by simp
  ultimately show "d[i := x] ! heap_parent i \<le> d[i := x] ! k" by simp
next
  fix k assume k: "0 < k \<and> k < n \<and> k \<noteq> i"
  have "x \<le> d ! i" using heap i less by (meson heap_upto_def less_imp_le order_trans)
  moreover have "d ! heap_parent k \<le> d ! k" using heap k by (simp add: heap_upto_def)
  ultimately show "d[i := x] ! heap_parent k \<le> d[i := x] ! k"
    using k i by (cases "heap_parent k = i") auto
qed

section \<open>The operations keep the invariant\<close>

text \<open>
  \<open>elems\<close>: the elements of the heap. \<open>heap_mem\<close>: the bookkeeping of the storage, which every
  operation keeps; \<open>heap_ok\<close> adds the heap order. \<open>push_safe\<close>: the next push does not
  reallocate, or the vector's own size covers all elements when it does.
\<close>

definition elems :: "'a minheap \<Rightarrow> 'a list" where
  "elems h = take (hsize h) (hdata h)"

definition heap_mem :: "'a minheap \<Rightarrow> bool" where
  "heap_mem h \<longleftrightarrow> hsize h < length (hdata h) \<and> dsize h \<le> length (hdata h) \<and> hcap h \<le> dsize h"

definition heap_ok :: "'a::linorder minheap \<Rightarrow> bool" where
  "heap_ok h \<longleftrightarrow> heap_mem h \<and> heap_upto (hsize h) (hdata h)"

definition spare :: "'a minheap \<Rightarrow> nat" where
  "spare h = length (hdata h) - hsize h - 1"

definition push_safe :: "'a minheap \<Rightarrow> bool" where
  "push_safe h \<longleftrightarrow> 0 < spare h \<or> hsize h < dsize h"

lemma length_elems: "heap_mem h \<Longrightarrow> length (elems h) = hsize h"
  by (simp add: elems_def heap_mem_def)

lemma mset_take_upd:
  assumes "mset d' = mset d" and "drop n d' = drop n d"
  shows "mset (take n d') = mset (take n d)"
proof -
  have "mset (take n d') + mset (drop n d') = mset (take n d) + mset (drop n d)"
    using assms(1) by (metis append_take_drop_id mset_append)
  then show ?thesis by (simp add: assms(2))
qed

lemma heap_ok_init: "0 < n \<Longrightarrow> heap_ok (MinHeap_init dflt n)"
  by (simp add: heap_ok_def heap_mem_def heap_upto_def MinHeap_init_def)

lemma elems_init [simp]: "elems (MinHeap_init dflt n) = []"
  by (simp add: elems_def MinHeap_init_def)

lemma shrink_frame:
  assumes "heap_mem h"
  shows "hdata (shrink dflt h) = hdata h" "hsize (shrink dflt h) = hsize h"
    and "heap_mem (shrink dflt h)"
  using assms by (auto simp: shrink_def data_resize_def heap_mem_def Let_def)

lemma shrink_dsize:
  assumes "heap_mem h"
  shows "dsize (shrink dflt h) = (if hsize h \<le> hcap h div 2 then hsize h else dsize h)"
  using assms by (auto simp: shrink_def data_resize_def heap_mem_def Let_def)

text \<open>What \<open>push\<close> does, the reallocation apart.\<close>

lemma push_core:
  assumes ok: "heap_ok h"
  obtains d where "heap_push dflt h x =
      Inr (expand dflt (h\<lparr>hdata := d, hsize := Suc (hsize h)\<rparr>), snd (sift_up x (hdata h) (hsize h)))"
    "length d = length (hdata h)" "heap_upto (Suc (hsize h)) d"
    "mset (take (Suc (hsize h)) d) = add_mset x (mset (elems h))"
proof -
  let ?n = "hsize h"
  obtain d' j where r: "sift_up x (hdata h) ?n = (d', j)" by fastforce
  from ok have n: "?n < length (hdata h)" by (simp add: heap_ok_def heap_mem_def)
  let ?d = "d'[j := x]"
  have fr: "j \<le> ?n" "length d' = length (hdata h)" "mset ?d = mset ((hdata h)[?n := x])"
    "drop (Suc ?n) d' = drop (Suc ?n) (hdata h)"
    using sift_up_frame [of ?n "hdata h" "Suc ?n" x] n r by auto
  have "hole_up (Suc ?n) ((hdata h)[?n := x]) ?n"
    using ok n by (intro heap_hole_up) (simp_all add: heap_ok_def)
  from sift_up_heap [OF this] n r have heap: "heap_upto (Suc ?n) ?d" by simp
  have "mset (take (Suc ?n) ?d) = mset (take (Suc ?n) ((hdata h)[?n := x]))"
    using fr by (intro mset_take_upd) (simp_all add: drop_update_cancel)
  also have "\<dots> = add_mset x (mset (elems h))"
    using n by (simp add: elems_def take_Suc_conv_app_nth)
  finally have ms: "mset (take (Suc ?n) ?d) = add_mset x (mset (elems h))" .
  show thesis
    by (rule that [OF _ _ heap ms]) (use n r fr in \<open>simp_all add: heap_push_def\<close>)
qed

lemma expand_mem:
  assumes "hsize h \<le> length (hdata h)" "0 < hsize h" "dsize h \<le> length (hdata h)" "hcap h \<le> dsize h"
  shows "heap_mem (expand dflt h)" "hsize (expand dflt h) = hsize h"
  using assms by (auto simp: expand_def data_resize_def heap_mem_def Let_def)

lemma expand_keeps:
  assumes "hsize h < length (hdata h) \<or> hsize h \<le> dsize h" "dsize h \<le> length (hdata h)"
    and "hsize h \<le> length (hdata h)"
  shows "take (hsize h) (hdata (expand dflt h)) = take (hsize h) (hdata h)"
  using assms by (auto simp: expand_def data_resize_def Let_def min_def)

lemma heap_upto_take: "heap_upto n d \<longleftrightarrow> heap_upto n (take n d)"
  by (auto simp: heap_upto_def) (metis heap_parent_less less_trans nth_take)+

lemma push_ok:
  assumes ok: "heap_ok h" and safe: "push_safe h"
  shows "\<exists>h' i. heap_push dflt h x = Inr (h', i) \<and> heap_ok h' \<and>
     mset (elems h') = add_mset x (mset (elems h)) \<and> hsize h' = Suc (hsize h) \<and>
     spare h - 1 \<le> spare h'"
proof (rule push_core [OF ok, of dflt x])
  fix d
  let ?h = "h\<lparr>hdata := d, hsize := Suc (hsize h)\<rparr>"
  assume d: "heap_push dflt h x = Inr (expand dflt ?h, snd (sift_up x (hdata h) (hsize h)))"
    "length d = length (hdata h)" "heap_upto (Suc (hsize h)) d"
    "mset (take (Suc (hsize h)) d) = add_mset x (mset (elems h))"
  from ok have mem: "hsize h < length d" "dsize h \<le> length d" "hcap h \<le> dsize h"
    using d(2) by (simp_all add: heap_ok_def heap_mem_def)
  have keep: "take (Suc (hsize h)) (hdata (expand dflt ?h)) = take (Suc (hsize h)) d"
    using expand_keeps [of ?h dflt] safe mem d(2) by (auto simp: push_safe_def spare_def)
  have len: "length d \<le> length (hdata (expand dflt ?h))"
    using mem by (auto simp: expand_def data_resize_def Let_def)
  have "heap_mem (expand dflt ?h)" "hsize (expand dflt ?h) = Suc (hsize h)"
    using expand_mem [of ?h dflt] mem by auto
  moreover have "heap_upto (Suc (hsize h)) (hdata (expand dflt ?h))"
    using d(3) keep by (metis heap_upto_take)
  ultimately show ?thesis using d keep len by (auto simp: heap_ok_def elems_def spare_def)
qed

lemma top_ok:
  assumes "heap_ok h" and "0 < hsize h"
  shows "heap_top h = Inr (hdata h ! 0)" and "hdata h ! 0 \<in># mset (elems h)"
    and "\<And>y. y \<in># mset (elems h) \<Longrightarrow> hdata h ! 0 \<le> y"
proof -
  have n: "hsize h < length (hdata h)" "heap_upto (hsize h) (hdata h)"
    using assms by (auto simp: heap_ok_def heap_mem_def)
  then show "heap_top h = Inr (hdata h ! 0)" by (auto simp: heap_top_def)
  show "hdata h ! 0 \<in># mset (elems h)"
    using assms(2) n by (auto simp: elems_def in_set_conv_nth intro!: exI [of _ 0])
  show "hdata h ! 0 \<le> y" if "y \<in># mset (elems h)" for y
    using that n heap_root_le [OF n(2)] by (auto simp: elems_def in_set_conv_nth)
qed

text \<open>Taking the last element \<open>x\<close> out and filling cell \<open>i\<close> with it removes what was there.\<close>

lemma mset_fill_last:
  assumes "n < length d" and "i < n"
  shows "add_mset (d ! i) (mset (take n (d[i := d ! n]))) = mset (take (Suc n) d)"
proof -
  have "mset (take n (d[i := d ! n])) = add_mset (d ! n) (mset (take n d) - {#d ! i#})"
    using assms by (simp add: take_update_swap mset_update)
  moreover have "d ! i \<in># mset (take n d)" using assms by (auto simp: in_set_conv_nth)
  ultimately show ?thesis using assms by (simp add: take_Suc_conv_app_nth)
qed

lemma heap_upto_Suc: "heap_upto (Suc n) d \<Longrightarrow> heap_upto n d"
  by (simp add: heap_upto_def)

lemma refill_down:
  assumes heap: "heap_upto (Suc n) d" and n: "i < n" "n < length d"
    and ge: "0 < i \<Longrightarrow> d ! heap_parent i \<le> d ! n"
    and r: "sift_down n (d ! n) d i = (d', j)"
  shows "length d' = length d" and "heap_upto n (d'[j := d ! n])"
    and "add_mset (d ! i) (mset (take n (d'[j := d ! n]))) = mset (take (Suc n) d)"
proof -
  have fr: "j < n" "length d' = length d" "mset (d'[j := d ! n]) = mset (d[i := d ! n])"
    "drop n d' = drop n d"
    using sift_down_frame [of i d n "d ! n"] n r by auto
  have "hole_down n (d[i := d ! n]) i"
    using heap_upto_Suc [OF heap] n ge by (intro heap_hole_down) auto
  from sift_down_heap [OF this] n r show "heap_upto n (d'[j := d ! n])" by simp
  have "mset (take n (d'[j := d ! n])) = mset (take n (d[i := d ! n]))"
    using fr n by (intro mset_take_upd) (simp_all add: drop_update_cancel)
  then show "add_mset (d ! i) (mset (take n (d'[j := d ! n]))) = mset (take (Suc n) d)"
    using mset_fill_last [OF n(2,1)] by simp
  show "length d' = length d" by (rule fr)
qed

lemma refill_up:
  assumes heap: "heap_upto (Suc n) d" and n: "i < n" "n < length d" "0 < i"
    and less: "d ! n < d ! heap_parent i"
    and r: "sift_up (d ! n) d i = (d', j)"
  shows "length d' = length d" and "heap_upto n (d'[j := d ! n])"
    and "add_mset (d ! i) (mset (take n (d'[j := d ! n]))) = mset (take (Suc n) d)"
proof -
  have fr: "j \<le> i" "length d' = length d" "mset (d'[j := d ! n]) = mset (d[i := d ! n])"
    "drop n d' = drop n d"
    using sift_up_frame [of i d n "d ! n"] n r by auto
  have "hole_up n (d[i := d ! n]) i"
    using heap_upto_Suc [OF heap] n less by (intro heap_hole_up_at) auto
  from sift_up_heap [OF this] n r show "heap_upto n (d'[j := d ! n])" by simp
  have "mset (take n (d'[j := d ! n])) = mset (take n (d[i := d ! n]))"
    using fr n by (intro mset_take_upd) (simp_all add: drop_update_cancel)
  then show "add_mset (d ! i) (mset (take n (d'[j := d ! n]))) = mset (take (Suc n) d)"
    using mset_fill_last [OF n(2,1)] by simp
  show "length d' = length d" by (rule fr)
qed

lemma shrink_ok:
  assumes ok: "heap_ok h" and pos: "0 < hsize h"
    and d: "length d = length (hdata h)" "heap_upto (hsize h - 1) d"
  shows "heap_ok (shrink dflt (h\<lparr>hdata := d, hsize := hsize h - 1\<rparr>))"
    and "elems (shrink dflt (h\<lparr>hdata := d, hsize := hsize h - 1\<rparr>)) = take (hsize h - 1) d"
    and "hsize (shrink dflt (h\<lparr>hdata := d, hsize := hsize h - 1\<rparr>)) = hsize h - 1"
    and "Suc (spare h) \<le> spare (shrink dflt (h\<lparr>hdata := d, hsize := hsize h - 1\<rparr>))"
proof -
  let ?h = "h\<lparr>hdata := d, hsize := hsize h - 1\<rparr>"
  have "heap_mem ?h" using ok d(1) by (auto simp: heap_ok_def heap_mem_def)
  note fr = shrink_frame [OF this, of dflt]
  show "heap_ok (shrink dflt ?h)" using fr d by (simp add: heap_ok_def)
  show "elems (shrink dflt ?h) = take (hsize h - 1) d" using fr by (simp add: elems_def)
  show "hsize (shrink dflt ?h) = hsize h - 1" using fr by simp
  show "Suc (spare h) \<le> spare (shrink dflt ?h)" using fr d assms(2) ok
    by (auto simp: spare_def heap_ok_def heap_mem_def)
qed

lemma pop_ok:
  assumes ok: "heap_ok h" and pos: "0 < hsize h"
  shows "\<exists>h'. heap_pop dflt h = Inr h' \<and> heap_ok h' \<and>
     add_mset (hdata h ! 0) (mset (elems h')) = mset (elems h) \<and> hsize h' = hsize h - 1 \<and>
     Suc (spare h) \<le> spare h'"
proof -
  let ?n = "hsize h - 1"
  let ?d = "hdata h"
  obtain d' j where r: "sift_down ?n (?d ! ?n) ?d 0 = (d', j)" by fastforce
  from ok have mem: "hsize h < length ?d" and heap: "heap_upto (hsize h) ?d"
    by (simp_all add: heap_ok_def heap_mem_def)
  let ?e = "d'[j := ?d ! ?n]"
  have run: "heap_pop dflt h = Inr (shrink dflt (h\<lparr>hdata := ?e, hsize := ?n\<rparr>))"
    using pos mem r by (simp add: heap_pop_def Let_def)
  have "length ?e = length ?d \<and> heap_upto ?n ?e \<and>
    add_mset (?d ! 0) (mset (take ?n ?e)) = mset (take (hsize h) ?d)"
  proof (cases "?n = 0")
    case True
    then have one: "hsize h = Suc 0" using pos by simp
    with r have "d' = ?d" "j = 0" by (auto simp: sift_down.simps min_child_def)
    moreover have "?d \<noteq> []" using mem by auto
    ultimately show ?thesis using one by (cases ?d) (auto simp: heap_upto_def)
  next
    case False
    then show ?thesis using refill_down [of ?n ?d 0 d' j] heap mem pos r by auto
  qed
  then show ?thesis
    using run shrink_ok [OF ok pos, of ?e dflt] by (auto simp: elems_def)
qed

text \<open>\<open>remove\<close> returns on every heap: its upward loop never meets the root's equation, since
  the root is not above any element.\<close>

lemma remove_up_returns:
  assumes "\<not> x < d ! 0" and "i < length d"
  shows "remove_up x d i = Some (sift_up x d i)"
  using assms
proof (induction x d i rule: sift_up.induct)
  case (1 x d i)
  show ?case
  proof (cases "x < d ! heap_parent i")
    case True
    then have pos: "0 < i" using "1.prems"(1) by (cases "i = 0") auto
    have "\<not> x < d[i := d ! heap_parent i] ! 0" using "1.prems" pos by simp
    moreover have "heap_parent i < length (d[i := d ! heap_parent i])"
      using "1.prems"(2) pos by (simp add: less_trans [OF heap_parent_less])
    ultimately show ?thesis using "1.IH" True pos
      by (subst remove_up.simps, subst sift_up.simps) auto
  next
    case False
    then show ?thesis by (subst remove_up.simps, subst sift_up.simps) auto
  qed
qed

lemma remove_ok:
  assumes ok: "heap_ok h" and i: "i < hsize h"
  shows "\<exists>h'. heap_remove dflt h i = Some (Inr h') \<and> heap_ok h' \<and>
     add_mset (hdata h ! i) (mset (elems h')) = mset (elems h) \<and> hsize h' = hsize h - 1"
proof -
  let ?n = "hsize h - 1"
  let ?d = "hdata h"
  from ok have mem: "hsize h < length ?d" "dsize h \<le> length ?d" "hcap h \<le> dsize h"
    and heap: "heap_upto (Suc ?n) ?d" using i by (simp_all add: heap_ok_def heap_mem_def)
  consider (last) "i = ?n" | (up) "i < ?n" "?d ! ?n < ?d ! heap_parent i"
    | (down) "i < ?n" "\<not> ?d ! ?n < ?d ! heap_parent i" using i by linarith
  then show ?thesis
  proof cases
    case last
    have "heap_ok (h\<lparr>hsize := ?n\<rparr>)"
      using mem heap_upto_Suc [OF heap] by (simp add: heap_ok_def heap_mem_def)
    moreover have "add_mset (?d ! i) (mset (take ?n ?d)) = mset (take (hsize h) ?d)"
      using last i mem take_Suc_conv_app_nth [of ?n ?d] by simp
    ultimately show ?thesis using last i mem by (simp add: heap_remove_def elems_def)
  next
    case up
    have root: "?d ! 0 \<le> ?d ! ?n" using heap_root_le [OF heap, of ?n] by simp
    have pos: "0 < i"
    proof (rule ccontr)
      assume "\<not> 0 < i"
      with up(2) root show False by simp
    qed
    obtain d' j where r: "sift_up (?d ! ?n) ?d i = (d', j)" by fastforce
    let ?e = "d'[j := ?d ! ?n]"
    have "remove_up (?d ! ?n) ?d i = Some (d', j)"
      using remove_up_returns [of "?d ! ?n" ?d i] root i mem r by simp
    then have "heap_remove dflt h i = Some (Inr (shrink dflt (h\<lparr>hdata := ?e, hsize := ?n\<rparr>)))"
      using up i mem by (simp add: heap_remove_def Let_def)
    moreover have "length ?e = length ?d" "heap_upto ?n ?e"
      "add_mset (?d ! i) (mset (take ?n ?e)) = mset (take (Suc ?n) ?d)"
      using refill_up [OF heap up(1) _ pos up(2) r] mem i by auto
    ultimately show ?thesis using shrink_ok [OF ok, of ?e dflt] i by (auto simp: elems_def)
  next
    case down
    obtain d' j where r: "sift_down ?n (?d ! ?n) ?d i = (d', j)" by fastforce
    let ?e = "d'[j := ?d ! ?n]"
    have "heap_remove dflt h i = Some (Inr (shrink dflt (h\<lparr>hdata := ?e, hsize := ?n\<rparr>)))"
      using down i mem r by (simp add: heap_remove_def Let_def)
    moreover have "length ?e = length ?d" "heap_upto ?n ?e"
      "add_mset (?d ! i) (mset (take ?n ?e)) = mset (take (Suc ?n) ?d)"
      using refill_down [OF heap down(1) _ _ r] down mem i by (auto simp: not_less)
    ultimately show ?thesis using shrink_ok [OF ok, of ?e dflt] i by (auto simp: elems_def)
  qed
qed

section \<open>The interface: a queue of minimal elements\<close>

text \<open>
  What the timer queue relies on. \<open>room q\<close> is a number of insertions that are certain to
  succeed; \<open>pops q xs q'\<close>: taking elements out of \<open>q\<close> one by one, the first of each state,
  yields \<open>xs\<close> and leaves \<open>q'\<close>.
\<close>

locale min_queue =
  fixes qok :: "'q \<Rightarrow> bool"
    and els :: "'q \<Rightarrow> 'a::linorder multiset"
    and room :: "'q \<Rightarrow> nat"
    and is_empty :: "'q \<Rightarrow> bool"
    and first :: "'q \<Rightarrow> 'a result"
    and ins :: "'q \<Rightarrow> 'a \<Rightarrow> 'q result"
    and del_first :: "'q \<Rightarrow> 'q result"
  assumes empty_iff: "qok q \<Longrightarrow> is_empty q \<longleftrightarrow> els q = {#}"
    and first_ok: "qok q \<Longrightarrow> els q \<noteq> {#} \<Longrightarrow>
      \<exists>x. first q = Inr x \<and> x \<in># els q \<and> (\<forall>y. y \<in># els q \<longrightarrow> x \<le> y)"
    and ins_ok: "qok q \<Longrightarrow> 0 < room q \<Longrightarrow>
      \<exists>q'. ins q x = Inr q' \<and> qok q' \<and> els q' = add_mset x (els q) \<and> room q \<le> Suc (room q')"
    and del_ok: "qok q \<Longrightarrow> first q = Inr x \<Longrightarrow> els q \<noteq> {#} \<Longrightarrow>
      \<exists>q'. del_first q = Inr q' \<and> qok q' \<and> add_mset x (els q') = els q \<and> Suc (room q) \<le> room q'"
begin

inductive pops :: "'q \<Rightarrow> 'a list \<Rightarrow> 'q \<Rightarrow> bool" where
  pops_nil: "pops q [] q"
| pops_cons: "\<not> is_empty q \<Longrightarrow> first q = Inr x \<Longrightarrow> del_first q = Inr q1 \<Longrightarrow> pops q1 xs q' \<Longrightarrow>
    pops q (x # xs) q'"

lemma pops_sorted:
  assumes "pops q xs q'" and "qok q"
  shows "qok q' \<and> sorted xs \<and> mset xs + els q' = els q \<and> room q + length xs \<le> room q' \<and>
    (\<forall>x \<in> set xs. \<forall>y. y \<in># els q' \<longrightarrow> x \<le> y)"
  using assms
proof (induction rule: pops.induct)
  case (pops_nil q)
  then show ?case by simp
next
  case (pops_cons q x q1 xs q')
  then have ne: "els q \<noteq> {#}" by (simp add: empty_iff)
  from del_ok [OF pops_cons.prems pops_cons.hyps(2) ne] pops_cons.hyps(3)
  have q1: "qok q1" "add_mset x (els q1) = els q" "Suc (room q) \<le> room q1" by auto
  have min: "x \<le> y" if "y \<in># els q" for y
    using first_ok [OF pops_cons.prems ne] pops_cons.hyps(2) that by auto
  note IH = pops_cons.IH [OF q1(1)]
  have "x \<le> y" if "y \<in> set xs" for y
  proof (rule min)
    have "y \<in># mset xs + els q'" using that by simp
    then show "y \<in># els q" using IH q1(2) by (metis insert_noteq_member union_iff multi_member_split add_mset_add_single)
  qed
  moreover have "x \<le> y" if "y \<in># els q'" for y
  proof (rule min)
    have "y \<in># mset xs + els q'" using that by simp
    then show "y \<in># els q" using IH q1(2) by (metis add_mset_add_single union_iff)
  qed
  ultimately show ?case using IH q1 by auto
qed

lemma pops_exist:
  "qok q \<Longrightarrow> n \<le> size (els q) \<Longrightarrow> \<exists>xs q'. pops q xs q' \<and> length xs = n"
proof (induction n arbitrary: q)
  case 0
  then show ?case by (auto intro: pops_nil)
next
  case (Suc n)
  then have ne: "els q \<noteq> {#}" by auto
  from first_ok [OF Suc.prems(1) ne] obtain x where x: "first q = Inr x" by blast
  from del_ok [OF Suc.prems(1) x ne] obtain q1 where q1: "del_first q = Inr q1" "qok q1"
    "add_mset x (els q1) = els q" by blast
  from q1(3) Suc.prems(2) have "n \<le> size (els q1)" by (metis Suc_le_mono size_add_mset)
  from Suc.IH [OF q1(2) this] obtain xs q' where "pops q1 xs q'" "length xs = n" by blast
  then have "pops q (x # xs) q'" "length (x # xs) = Suc n"
    using x q1(1) ne Suc.prems(1) by (auto simp: empty_iff intro: pops_cons)
  then show ?case by blast
qed

text \<open>Taking everything out sorts.\<close>

lemma pops_all:
  assumes "pops q xs q'" and "qok q" and "length xs = size (els q)"
  shows "xs = sorted_list_of_multiset (els q) \<and> els q' = {#}"
proof -
  from pops_sorted [OF assms(1,2)] have p: "sorted xs" "mset xs + els q' = els q" by auto
  have "size (mset xs + els q') = size (els q)" using p(2) by simp
  then have "els q' = {#}" using assms(3) by simp
  with p have "mset xs = els q" by simp
  then have "sorted_list_of_multiset (els q) = sort xs" by (metis sorted_list_of_multiset_mset)
  with p(1) \<open>els q' = {#}\<close> show ?thesis by (simp add: sorted_sort_id)
qed

end

abbreviation heap_mset :: "'a minheap \<Rightarrow> 'a multiset" where
  "heap_mset h \<equiv> mset (elems h)"

definition heap_insert :: "'a::linorder \<Rightarrow> 'a minheap \<Rightarrow> 'a \<Rightarrow> 'a minheap result" where
  "heap_insert dflt h x = rbind (heap_push dflt h x) (\<lambda>(h', i). Inr h')"

lemma heap_mset_empty: "heap_ok h \<Longrightarrow> heap_mset h = {#} \<longleftrightarrow> hsize h = 0"
  using length_elems [of h] by (auto simp: heap_ok_def)

interpretation mq: min_queue heap_ok heap_mset spare heap_empty heap_top
  "heap_insert dflt" "heap_pop dflt" for dflt :: "'a::linorder"
proof unfold_locales
  fix q :: "'a minheap" and x
  show "heap_ok q \<Longrightarrow> heap_empty q \<longleftrightarrow> heap_mset q = {#}"
    by (simp only: heap_empty_def heap_mset_empty)
  show "heap_ok q \<Longrightarrow> heap_mset q \<noteq> {#} \<Longrightarrow>
      \<exists>x. heap_top q = Inr x \<and> x \<in># heap_mset q \<and> (\<forall>y. y \<in># heap_mset q \<longrightarrow> x \<le> y)"
    using top_ok [of q] heap_mset_empty [of q] by blast
  show "heap_ok q \<Longrightarrow> 0 < spare q \<Longrightarrow> \<exists>q'. heap_insert dflt q x = Inr q' \<and> heap_ok q' \<and>
      heap_mset q' = add_mset x (heap_mset q) \<and> spare q \<le> Suc (spare q')"
    using push_ok [of q dflt x] by (auto simp: heap_insert_def push_safe_def)
  show "heap_ok q \<Longrightarrow> heap_top q = Inr x \<Longrightarrow> heap_mset q \<noteq> {#} \<Longrightarrow>
      \<exists>q'. heap_pop dflt q = Inr q' \<and> heap_ok q' \<and> add_mset x (heap_mset q') = heap_mset q \<and>
        Suc (spare q) \<le> spare q'"
    using top_ok(1) [of q] pop_ok [of q dflt] heap_mset_empty [of q] by auto
qed

section \<open>Filling and emptying a heap\<close>

fun heap_pushes :: "'a::linorder \<Rightarrow> 'a minheap \<Rightarrow> 'a list \<Rightarrow> 'a minheap result" where
  "heap_pushes dflt h [] = Inr h"
| "heap_pushes dflt h (x # xs) = rbind (heap_insert dflt h x) (\<lambda>h'. heap_pushes dflt h' xs)"

fun heap_drain :: "'a::linorder \<Rightarrow> nat \<Rightarrow> 'a minheap \<Rightarrow> ('a list \<times> 'a minheap) result" where
  "heap_drain dflt 0 h = Inr ([], h)"
| "heap_drain dflt (Suc n) h =
     rbind (heap_top h) (\<lambda>x. rbind (heap_pop dflt h) (\<lambda>h'.
     rbind (heap_drain dflt n h') (\<lambda>(xs, h''). Inr (x # xs, h''))))"

text \<open>As long as nothing was removed, the vector's own size is its capacity, and every
  push is safe.\<close>

definition unshrunk :: "'a minheap \<Rightarrow> bool" where
  "unshrunk h \<longleftrightarrow> dsize h = length (hdata h)"

lemma unshrunk_push:
  assumes ok: "heap_ok h" and un: "unshrunk h"
  shows "\<exists>h'. heap_insert dflt h x = Inr h' \<and> heap_ok h' \<and> unshrunk h' \<and>
    heap_mset h' = add_mset x (heap_mset h)"
proof -
  have safe: "push_safe h" using ok un by (simp add: push_safe_def unshrunk_def heap_ok_def heap_mem_def)
  from push_ok [OF ok safe, of dflt x] obtain h' i where h': "heap_push dflt h x = Inr (h', i)"
    "heap_ok h'" "heap_mset h' = add_mset x (heap_mset h)" by blast
  have "unshrunk h'"
  proof (rule push_core [OF ok, of dflt x])
    fix d
    assume "heap_push dflt h x = Inr (expand dflt (h\<lparr>hdata := d, hsize := Suc (hsize h)\<rparr>),
        snd (sift_up x (hdata h) (hsize h)))" and len: "length d = length (hdata h)"
    with h'(1) have "h' = expand dflt (h\<lparr>hdata := d, hsize := Suc (hsize h)\<rparr>)" by simp
    then show "unshrunk h'" using un len
      by (auto simp: unshrunk_def expand_def data_resize_def Let_def)
  qed
  with h' show ?thesis by (auto simp: heap_insert_def)
qed

lemma unshrunk_pushes:
  "heap_ok h \<Longrightarrow> unshrunk h \<Longrightarrow> \<exists>h'. heap_pushes dflt h xs = Inr h' \<and> heap_ok h' \<and>
     heap_mset h' = heap_mset h + mset xs"
proof (induction xs arbitrary: h)
  case (Cons x xs)
  from unshrunk_push [OF Cons.prems, of dflt x] obtain h1 where h1: "heap_insert dflt h x = Inr h1"
    "heap_ok h1" "unshrunk h1" "heap_mset h1 = add_mset x (heap_mset h)" by blast
  from Cons.IH [OF h1(2,3)] h1 show ?case by auto
qed simp

lemma pops_drain:
  "mq.pops dflt h xs h' \<Longrightarrow> heap_drain dflt (length xs) h = Inr (xs, h')"
  by (induction rule: mq.pops.induct) auto

text \<open>C17: The heap is a correct priority queue: pushing any elements into a fresh heap of any
  positive initial size never leaves the storage, whatever reallocations happen, and
  popping them all returns them in ascending order.\<close>

theorem heap_sorts:
  fixes xs :: "'a::linorder list"
  assumes "0 < n"
  shows "\<exists>h h'. heap_pushes dflt (MinHeap_init dflt n) xs = Inr h \<and>
     heap_drain dflt (length xs) h = Inr (sort xs, h') \<and> heap_ok h' \<and> heap_empty h'"
proof -
  have "unshrunk (MinHeap_init dflt n)" by (simp add: unshrunk_def MinHeap_init_def)
  from unshrunk_pushes [OF heap_ok_init [OF assms] this, of dflt xs] obtain h where
    h: "heap_pushes dflt (MinHeap_init dflt n) xs = Inr h" "heap_ok h" "heap_mset h = mset xs"
    by auto
  then have "length xs \<le> size (heap_mset h)" by simp
  from mq.pops_exist [OF h(2) this, of dflt] obtain ys h' where
    p: "mq.pops dflt h ys h'" "length ys = length xs" by blast
  have "ys = sort xs" "heap_mset h' = {#}"
    using mq.pops_all [OF p(1) h(2)] p(2) h(3) by auto
  moreover have "heap_ok h'" using mq.pops_sorted [OF p(1) h(2)] by blast
  ultimately show ?thesis
    using h pops_drain [OF p(1)] p(2) by (auto simp: mq.empty_iff)
qed

lemma heap_sorts_witness:
  "\<exists>h h'. heap_pushes 0 (MinHeap_init 0 2) [5, 1, 4, 1, 3::int] = Inr h \<and>
     heap_drain 0 5 h = Inr ([1, 1, 3, 4, 5], h') \<and> heap_ok h' \<and> heap_empty h'"
proof -
  have "0 < (2::nat)" by simp
  moreover have "sort [5, 1, 4, 1, 3::int] = [1, 1, 3, 4, 5]" "length [5, 1, 4, 1, 3::int] = 5"
    by simp_all
  ultimately show ?thesis using heap_sorts [of 2 0 "[5, 1, 4, 1, 3::int]"] by metis
qed

text \<open>Popping a heap removes exactly its top, the least element, and keeps the heap
  order and the storage bookkeeping.\<close>

theorem heap_pop_min:
  fixes h :: "'a::linorder minheap"
  assumes "heap_ok h" and "\<not> heap_empty h"
  shows "\<exists>x h'. heap_top h = Inr x \<and> heap_pop dflt h = Inr h' \<and> heap_ok h' \<and>
     mset (elems h) = add_mset x (mset (elems h')) \<and> (\<forall>y \<in> set (elems h'). x \<le> y)"
proof -
  have pos: "0 < hsize h" using assms(2) by (simp add: heap_empty_def)
  from pop_ok [OF assms(1) pos, of dflt] obtain h' where h': "heap_pop dflt h = Inr h'" "heap_ok h'"
    "add_mset (hdata h ! 0) (mset (elems h')) = mset (elems h)" by blast
  have "hdata h ! 0 \<le> y" if "y \<in> set (elems h')" for y
    using top_ok(3) [OF assms(1) pos, of y] that h'(3) by (metis insert_iff set_mset_add_mset_insert set_mset_mset)
  with h' top_ok(1) [OF assms(1) pos] show ?thesis by metis
qed

lemma heap_pop_min_witness:
  "\<exists>x h'. heap_top \<lparr>hdata = [1, 3, 2, 9], dsize = 4, hsize = 3, hcap = 4\<rparr> = Inr x \<and>
     heap_pop 0 \<lparr>hdata = [1, 3, 2, 9], dsize = 4, hsize = 3, hcap = 4\<rparr> = Inr h' \<and> heap_ok h' \<and>
     {#1, 3, 2#} = add_mset x (mset (elems h')) \<and> (\<forall>y \<in> set (elems h'). x \<le> (y::int))"
proof -
  let ?h = "\<lparr>hdata = [1, 3, 2, 9::int], dsize = 4, hsize = 3, hcap = 4\<rparr>"
  have ok: "heap_ok ?h" by code_simp
  have el: "mset (elems ?h) = {#1, 3, 2#}" by (simp add: elems_def)
  have "\<not> heap_empty ?h" by (simp add: heap_empty_def)
  from heap_pop_min [OF ok this, of 0] show ?thesis unfolding el .
qed

text \<open>C35: On every heap and every index of an element, \<open>remove\<close> returns (its upward loop,
  whose guard also holds at the root, ends), deletes exactly that element and keeps the
  invariant.\<close>

theorem heap_remove_correct:
  fixes h :: "'a::linorder minheap"
  assumes "heap_ok h" and "i < heap_size h"
  shows "\<exists>h'. heap_remove dflt h i = Some (Inr h') \<and> heap_ok h' \<and>
     mset (elems h') = mset (elems h) - {#elems h ! i#} \<and> heap_size h' = heap_size h - 1"
proof -
  have i: "i < hsize h" using assms(2) by (simp add: heap_size_def)
  have "elems h ! i = hdata h ! i" using i by (simp add: elems_def)
  with remove_ok [OF assms(1) i, of dflt] show ?thesis
    by (metis add_mset_remove_trivial heap_size_def)
qed

lemma heap_remove_correct_witness:
  "\<exists>h'. heap_remove 0 \<lparr>hdata = [1, 7, 2, 8, 9, 3, 0], dsize = 7, hsize = 6, hcap = 7\<rparr> 3 = Some (Inr h') \<and>
     heap_ok h' \<and> mset (elems h') = {#1, 7, 2, 9, 3::int#}"
proof -
  let ?h = "\<lparr>hdata = [1, 7, 2, 8, 9, 3, 0::int], dsize = 7, hsize = 6, hcap = 7\<rparr>"
  have ok: "heap_ok ?h" by code_simp
  have i: "3 < heap_size ?h" by (simp add: heap_size_def)
  have el: "elems ?h = [1, 7, 2, 8, 9, 3]" by (simp add: elems_def)
  from heap_remove_correct [OF ok i, of 0] show ?thesis by (auto simp: el)
qed

section \<open>Reallocation after a shrink\<close>

text \<open>
  \<open>shrink\<close> lowers \<open>data_.size()\<close> to the number of elements while the storage keeps its
  length. Later pushes write behind \<open>data_.size()\<close>, and when they reach the end of the
  storage \<open>expand\<close> moves only the first \<open>data_.size()\<close> elements.
\<close>

text \<open>A push that fills the storage of a heap whose vector was shrunk below its number of
  elements loses all elements from the vector's size on: they are replaced by \<open>T()\<close>.\<close>

theorem push_after_shrink_drops:
  fixes h :: "'a::linorder minheap"
  assumes "heap_ok h" and "\<not> push_safe h"
  shows "\<exists>d i h'. heap_push dflt h x = Inr (h', i) \<and>
     mset d = add_mset x (mset (elems h)) \<and>
     elems h' = take (dsize h) d @ replicate (Suc (heap_size h) - dsize h) dflt"
proof (rule push_core [OF assms(1), of dflt x])
  fix d
  let ?h = "h\<lparr>hdata := d, hsize := Suc (hsize h)\<rparr>"
  assume d: "heap_push dflt h x = Inr (expand dflt ?h, snd (sift_up x (hdata h) (hsize h)))"
    "length d = length (hdata h)"
    "mset (take (Suc (hsize h)) d) = add_mset x (mset (elems h))"
  have full: "Suc (hsize h) = length d" "dsize h \<le> hsize h"
    using assms d(2) by (auto simp: push_safe_def spare_def heap_ok_def heap_mem_def)
  then have "elems (expand dflt ?h) = take (dsize h) d @ replicate (Suc (hsize h) - dsize h) dflt"
    by (simp add: expand_def data_resize_def Let_def elems_def min_def)
  then show ?thesis using d full by (auto simp: heap_size_def)
qed

text \<open>It happens in ordinary use: one timer that has expired before, then sixteen pending
  timers, and all sixteen are gone.\<close>

lemma push_after_shrink_drops_witness:
  "\<exists>h h'. heap_pushes 0 (MinHeap_init 0 16) [7] = Inr h \<and> heap_pop 0 h = Inr h' \<and>
     (\<exists>h''. heap_pushes 0 h' [1..15] = Inr h'' \<and> elems h'' = [1..15::int] \<and>
       (\<exists>i h3. heap_push 0 h'' 16 = Inr (h3, i) \<and> elems h3 = replicate 16 0))"
proof -
  let ?h = "\<lparr>hdata = 7 # replicate 15 0, dsize = 16, hsize = 1, hcap = 16\<rparr> :: int minheap"
  let ?h' = "\<lparr>hdata = 7 # replicate 15 0, dsize = 0, hsize = 0, hcap = 0\<rparr> :: int minheap"
  let ?h'' = "\<lparr>hdata = [1..15] @ [0], dsize = 0, hsize = 15, hcap = 0\<rparr> :: int minheap"
  have p1: "heap_pushes 0 (MinHeap_init 0 16) [7] = Inr ?h" by code_simp
  have p2: "heap_pop 0 ?h = Inr ?h'" by code_simp
  have p3: "heap_pushes 0 ?h' [1..15] = Inr ?h''" by code_simp
  have ok: "heap_ok ?h''" by code_simp
  have el: "elems ?h'' = [1..15]" by code_simp
  have un: "\<not> push_safe ?h''" by code_simp
  from push_after_shrink_drops [OF ok un, of 0 16] obtain d i h3 where
    "heap_push 0 ?h'' 16 = Inr (h3, i)" "elems h3 = replicate (Suc (heap_size ?h'')) 0" by auto
  then have "heap_push 0 ?h'' 16 = Inr (h3, i) \<and> elems h3 = replicate 16 0"
    by (simp add: heap_size_def)
  with p1 p2 p3 el show ?thesis by blast
qed

end
