(* ===== verification/TimerQueue.thy ===== *)
theory TimerQueue
  imports Timer MinHeap
begin

text \<open>
  \<open>muduo/net/TimerQueue.h\<close>, \<open>TimerQueue.cc\<close>: the timers of an event loop. Timers live on the
  C++ heap (\<open>tq_mem\<close>, from addresses to timers); the queue \<open>tq_heap\<close> holds one \<open>Entry\<close>
  (expiration and address) per pending timer; \<open>tq_armed\<close> is the relative time last given to
  \<open>timerfd_settime\<close>. What comes from outside is a parameter: \<open>operator new\<close> (\<open>new_addr\<close>), the
  readings of the clock (\<open>tq_clock\<close>, consumed one by one), the operations on \<open>double\<close>, and
  what a callback does to the queue (\<open>act\<close>, the calls it makes). \<open>tq_log\<close> records the
  addresses of the timers whose callback was run.
\<close>

section \<open>Entries\<close>

datatype entry = Entry (expiration: timestamp) (entry_timer: addr)

text \<open>\<open>operator<\<close> of \<open>Entry\<close> is that of \<open>std::pair\<close>: first the time, then the address.\<close>

definition Entry_less :: "entry \<Rightarrow> entry \<Rightarrow> bool" where
  "Entry_less a b \<longleftrightarrow> expiration a < expiration b \<or>
     \<not> expiration b < expiration a \<and> entry_timer a < entry_timer b"

instantiation entry :: linorder
begin

definition less_entry :: "entry \<Rightarrow> entry \<Rightarrow> bool" where
  "less_entry = Entry_less"

definition less_eq_entry :: "entry \<Rightarrow> entry \<Rightarrow> bool" where
  "less_eq_entry a b \<longleftrightarrow> a < b \<or> a = b"

instance
  by standard (auto simp: less_entry_def Entry_less_def less_eq_entry_def intro: entry.expand)

end

definition Entry_default :: entry where "Entry_default = Entry 0 0"

definition UINTPTR_MAX :: addr where "UINTPTR_MAX = - 1"

section \<open>State\<close>

record ('c, 'd) tqueue =
  tq_mem :: "addr \<rightharpoonup> ('c, 'd) timer"
  tq_heap :: "entry minheap"
  tq_created :: "64 atomic"
  tq_clock :: "nat \<Rightarrow> timestamp"
  tq_reads :: nat
  tq_armed :: "(int \<times> int) option"
  tq_log :: "addr list"

definition TimerQueue_init :: "(nat \<Rightarrow> timestamp) \<Rightarrow> ('c, 'd) tqueue" where
  "TimerQueue_init clock =
     \<lparr>tq_mem = Map.empty, tq_heap = MinHeap_init Entry_default heap_kInitSize,
      tq_created = atomic_init, tq_clock = clock, tq_reads = 0, tq_armed = None, tq_log = []\<rparr>"

definition read_clock :: "('c, 'd) tqueue \<Rightarrow> timestamp \<times> ('c, 'd) tqueue" where
  "read_clock q = (tq_clock q (tq_reads q), q\<lparr>tq_reads := Suc (tq_reads q)\<rparr>)"

text \<open>Using a timer through its address: null and freed addresses are undefined behaviour.\<close>

definition deref :: "('c, 'd) tqueue \<Rightarrow> addr \<Rightarrow> ('c, 'd) timer result" where
  "deref q p =
     (case tq_mem q p of
        Some t \<Rightarrow> Inr t
      | None \<Rightarrow> if p = 0 then Inl NullDeref else Inl UseAfterFree)"

section \<open>Operations\<close>

definition howMuchTimeFromNow :: "timestamp \<Rightarrow> timestamp \<Rightarrow> (int \<times> int) result" where
  "howMuchTimeFromNow when now =
     rbind (int64_checked (when - now)) (\<lambda>microseconds.
     let microseconds = (if microseconds < 100 then 100 else microseconds)
     in Inr (microseconds sdiv kMicroSecondsPerSecond,
             (microseconds smod kMicroSecondsPerSecond) * 1000))"

definition resetTimerfd :: "('c, 'd) tqueue \<Rightarrow> timestamp \<Rightarrow> ('c, 'd) tqueue result" where
  "resetTimerfd q when =
     (let (now, q') = read_clock q in
      rbind (howMuchTimeFromNow when now) (\<lambda>ts. Inr (q'\<lparr>tq_armed := Some ts\<rparr>)))"

definition addTimerInLoop :: "('c, 'd) tqueue \<Rightarrow> addr \<Rightarrow> (timer_id \<times> ('c, 'd) tqueue) result" where
  "addTimerInLoop q p =
     rbind (deref q p) (\<lambda>t.
     let when = timer_expiration t in
     rbind (if heap_empty (tq_heap q) then Inr True
            else rbind (heap_top (tq_heap q)) (\<lambda>e. Inr (when < expiration e))) (\<lambda>earliestChanged.
     rbind (heap_insert Entry_default (tq_heap q) (Entry when p)) (\<lambda>h.
     let q1 = q\<lparr>tq_heap := h\<rparr> in
     rbind (if earliestChanged then resetTimerfd q1 when else Inr q1) (\<lambda>q2.
     Inr (TimerId_init p (timer_index t), q2)))))"

definition addTimer :: "'d double_ops \<Rightarrow> ((addr \<rightharpoonup> ('c, 'd) timer) \<Rightarrow> addr) \<Rightarrow> ('c, 'd) tqueue \<Rightarrow>
    'c \<Rightarrow> timestamp \<Rightarrow> 'd \<Rightarrow> (timer_id \<times> ('c, 'd) tqueue) result" where
  "addTimer ops new_addr q cb when interval =
     (let p = new_addr (tq_mem q);
          (t, created) = Timer_init ops (tq_created q) cb when interval
      in addTimerInLoop (q\<lparr>tq_mem := (tq_mem q)(p \<mapsto> t), tq_created := created\<rparr>) p)"

definition cancelInLoop :: "('c, 'd) tqueue \<Rightarrow> timer_id \<Rightarrow> ('c, 'd) tqueue result" where
  "cancelInLoop q i =
     rbind (deref q (id_timer i)) (\<lambda>t.
     Inr (q\<lparr>tq_mem := (tq_mem q)(id_timer i \<mapsto> timer_cancel t)\<rparr>))"

text \<open>The loop of \<open>getExpired\<close> takes entries out while the top is below the bound.\<close>

lemma pop_hsize: "heap_pop dflt h = Inr h' \<Longrightarrow> hsize h' < hsize h"
  by (auto simp: heap_pop_def shrink_def data_resize_def Let_def split: if_splits prod.splits)

function getExpired_loop :: "entry \<Rightarrow> entry minheap \<Rightarrow> (entry list \<times> entry minheap) result" where
  "getExpired_loop bound h =
     (if heap_empty h then Inr ([], h)
      else rbind (heap_top h) (\<lambda>e.
        if e < bound
        then rbind (heap_pop Entry_default h) (\<lambda>h'.
             rbind (getExpired_loop bound h') (\<lambda>(es, h''). Inr (e # es, h'')))
        else Inr ([], h)))"
  by pat_completeness auto
termination
  by (relation "measure (\<lambda>(b, h). hsize h)") (auto dest: pop_hsize)

declare getExpired_loop.simps [simp del]

definition getExpired :: "('c, 'd) tqueue \<Rightarrow> timestamp \<Rightarrow> (entry list \<times> ('c, 'd) tqueue) result" where
  "getExpired q now =
     rbind (assertOrder (tq_heap q)) (\<lambda>_.
     rbind (getExpired_loop (Entry now UINTPTR_MAX) (tq_heap q)) (\<lambda>(es, h).
     Inr (es, q\<lparr>tq_heap := h\<rparr>)))"

text \<open>The calls a callback can make on the queue of its loop.\<close>

datatype ('c, 'd) tq_call =
    CallAdd 'c timestamp 'd
  | CallCancel timer_id

fun run_calls :: "'d double_ops \<Rightarrow> ((addr \<rightharpoonup> ('c, 'd) timer) \<Rightarrow> addr) \<Rightarrow>
    ('c, 'd) tqueue \<Rightarrow> ('c, 'd) tq_call list \<Rightarrow> ('c, 'd) tqueue result" where
  "run_calls ops new_addr q [] = Inr q"
| "run_calls ops new_addr q (CallAdd cb when interval # cs) =
     rbind (addTimer ops new_addr q cb when interval) (\<lambda>(i, q'). run_calls ops new_addr q' cs)"
| "run_calls ops new_addr q (CallCancel i # cs) =
     rbind (cancelInLoop q i) (\<lambda>q'. run_calls ops new_addr q' cs)"

text \<open>\<open>handleRead\<close>: run the expired timers that are not cancelled, then \<open>reset\<close>.\<close>

fun run_expired :: "'d double_ops \<Rightarrow> ((addr \<rightharpoonup> ('c, 'd) timer) \<Rightarrow> addr) \<Rightarrow>
    ('c \<Rightarrow> ('c, 'd) tq_call list) \<Rightarrow> ('c, 'd) tqueue \<Rightarrow> entry list \<Rightarrow> ('c, 'd) tqueue result" where
  "run_expired ops new_addr act q [] = Inr q"
| "run_expired ops new_addr act q (e # es) =
     rbind (deref q (entry_timer e)) (\<lambda>t.
     rbind (if timer_canceled t then Inr q
            else run_calls ops new_addr (q\<lparr>tq_log := tq_log q @ [entry_timer e]\<rparr>)
                   (act (timerCallback t))) (\<lambda>q'.
     run_expired ops new_addr act q' es))"

fun reset_loop :: "'d double_ops \<Rightarrow> ('c, 'd) tqueue \<Rightarrow> entry list \<Rightarrow> timestamp \<Rightarrow> ('c, 'd) tqueue result" where
  "reset_loop ops q [] now = Inr q"
| "reset_loop ops q (e # es) now =
     (let p = entry_timer e in
      rbind (deref q p) (\<lambda>t.
      rbind (if timer_repeat t \<and> \<not> timer_canceled t
             then rbind (timer_restart ops t now) (\<lambda>t'.
                  rbind (heap_insert Entry_default (tq_heap q) (Entry (timer_expiration t') p)) (\<lambda>h.
                  Inr (q\<lparr>tq_mem := (tq_mem q)(p \<mapsto> t'), tq_heap := h\<rparr>)))
             else Inr (q\<lparr>tq_mem := (tq_mem q)(p := None)\<rparr>)) (\<lambda>q'.
      reset_loop ops q' es now)))"

definition tq_reset :: "'d double_ops \<Rightarrow> ('c, 'd) tqueue \<Rightarrow> entry list \<Rightarrow> timestamp \<Rightarrow> ('c, 'd) tqueue result" where
  "tq_reset ops q expired now =
     rbind (reset_loop ops q expired now) (\<lambda>q1.
     rbind (assertOrder (tq_heap q1)) (\<lambda>_.
     rbind (if heap_empty (tq_heap q1) then Inr Timestamp_invalid
            else rbind (heap_top (tq_heap q1)) (\<lambda>e.
                 rbind (deref q1 (entry_timer e)) (\<lambda>t. Inr (timer_expiration t)))) (\<lambda>nextExpiration.
     if Timestamp_valid nextExpiration then resetTimerfd q1 nextExpiration else Inr q1)))"

definition handleRead :: "'d double_ops \<Rightarrow> ((addr \<rightharpoonup> ('c, 'd) timer) \<Rightarrow> addr) \<Rightarrow>
    ('c \<Rightarrow> ('c, 'd) tq_call list) \<Rightarrow> ('c, 'd) tqueue \<Rightarrow> ('c, 'd) tqueue result" where
  "handleRead ops new_addr act q =
     (let (now, q0) = read_clock q in
      rbind (getExpired q0 now) (\<lambda>(expired, q1).
      rbind (run_expired ops new_addr act q1 expired) (\<lambda>q2.
      tq_reset ops q2 expired now)))"

end
