(* ===== verification/TimerCorrect.thy ===== *)
theory TimerCorrect
  imports TimerQueue
begin

text \<open>
  What the timer queue promises (\<open>timers\<close>: the pending entries as a multiset, no heap, no
  assertions) and the proof that \<open>TimerQueue\<close> implements it: every operation of the queue, seen
  through \<open>abs_tq\<close>, is the operation of the specification, faults included. The properties
  are then those of the specification: the expired timers are the due ones in order, a timer
  that an earlier callback cancelled is not run, a repeating timer is due again one interval
  later, one-shot timers are freed, and the timer descriptor is armed for the earliest timer.
\<close>

section \<open>The specification\<close>

record ('c, 'd) timers =
  ts_mem :: "addr \<rightharpoonup> ('c, 'd) timer"
  ts_pending :: "entry multiset"
  ts_created :: "64 atomic"
  ts_clock :: "nat \<Rightarrow> timestamp"
  ts_reads :: nat
  ts_armed :: "(int \<times> int) option"
  ts_log :: "addr list"

definition abs_tq :: "('c, 'd) tqueue \<Rightarrow> ('c, 'd) timers" where
  "abs_tq q = \<lparr>ts_mem = tq_mem q, ts_pending = heap_mset (tq_heap q), ts_created = tq_created q,
     ts_clock = tq_clock q, ts_reads = tq_reads q, ts_armed = tq_armed q, ts_log = tq_log q\<rparr>"

definition sp_deref :: "('c, 'd) timers \<Rightarrow> addr \<Rightarrow> ('c, 'd) timer result" where
  "sp_deref s p = (case ts_mem s p of Some t \<Rightarrow> Inr t
     | None \<Rightarrow> if p = 0 then Inl NullDeref else Inl UseAfterFree)"

definition sp_arm :: "('c, 'd) timers \<Rightarrow> timestamp \<Rightarrow> ('c, 'd) timers result" where
  "sp_arm s when =
     rbind (howMuchTimeFromNow when (ts_clock s (ts_reads s))) (\<lambda>a.
     Inr (s\<lparr>ts_reads := Suc (ts_reads s), ts_armed := Some a\<rparr>))"

definition first_due :: "('c, 'd) timers \<Rightarrow> timestamp" where
  "first_due s = expiration (Min (set_mset (ts_pending s)))"

definition sp_add :: "'d double_ops \<Rightarrow> ((addr \<rightharpoonup> ('c, 'd) timer) \<Rightarrow> addr) \<Rightarrow> ('c, 'd) timers \<Rightarrow>
    'c \<Rightarrow> timestamp \<Rightarrow> 'd \<Rightarrow> ('c, 'd) timers result" where
  "sp_add ops new_addr s cb when interval =
     (let p = new_addr (ts_mem s);
          (t, created) = Timer_init ops (ts_created s) cb when interval;
          s' = s\<lparr>ts_mem := (ts_mem s)(p \<mapsto> t), ts_created := created,
                 ts_pending := add_mset (Entry when p) (ts_pending s)\<rparr>
      in if ts_pending s = {#} \<or> when < first_due s then sp_arm s' when else Inr s')"

definition sp_cancel :: "('c, 'd) timers \<Rightarrow> timer_id \<Rightarrow> ('c, 'd) timers result" where
  "sp_cancel s i = rbind (sp_deref s (id_timer i)) (\<lambda>t.
     Inr (s\<lparr>ts_mem := (ts_mem s)(id_timer i \<mapsto> timer_cancel t)\<rparr>))"

fun sp_calls :: "'d double_ops \<Rightarrow> ((addr \<rightharpoonup> ('c, 'd) timer) \<Rightarrow> addr) \<Rightarrow>
    ('c, 'd) timers \<Rightarrow> ('c, 'd) tq_call list \<Rightarrow> ('c, 'd) timers result" where
  "sp_calls ops new_addr s [] = Inr s"
| "sp_calls ops new_addr s (CallAdd cb when interval # cs) =
     rbind (sp_add ops new_addr s cb when interval) (\<lambda>s'. sp_calls ops new_addr s' cs)"
| "sp_calls ops new_addr s (CallCancel i # cs) =
     rbind (sp_cancel s i) (\<lambda>s'. sp_calls ops new_addr s' cs)"

fun sp_run :: "'d double_ops \<Rightarrow> ((addr \<rightharpoonup> ('c, 'd) timer) \<Rightarrow> addr) \<Rightarrow>
    ('c \<Rightarrow> ('c, 'd) tq_call list) \<Rightarrow> ('c, 'd) timers \<Rightarrow> entry list \<Rightarrow> ('c, 'd) timers result" where
  "sp_run ops new_addr act s [] = Inr s"
| "sp_run ops new_addr act s (e # es) =
     rbind (sp_deref s (entry_timer e)) (\<lambda>t.
     rbind (if timer_canceled t then Inr s
            else sp_calls ops new_addr (s\<lparr>ts_log := ts_log s @ [entry_timer e]\<rparr>)
                   (act (timerCallback t))) (\<lambda>s'.
     sp_run ops new_addr act s' es))"

text \<open>After the callbacks: a repeating timer waits for one more interval, any other is freed.\<close>

definition sp_requeue :: "'d double_ops \<Rightarrow> timestamp \<Rightarrow> ('c, 'd) timers \<Rightarrow> entry \<Rightarrow> ('c, 'd) timers result" where
  "sp_requeue ops now s e =
     rbind (sp_deref s (entry_timer e)) (\<lambda>t.
     if timer_repeat t \<and> \<not> timer_canceled t
     then rbind (addTime ops now (timer_interval t)) (\<lambda>due.
          Inr (s\<lparr>ts_mem := (ts_mem s)(entry_timer e \<mapsto> t\<lparr>timer_expiration := due\<rparr>),
                 ts_pending := add_mset (Entry due (entry_timer e)) (ts_pending s)\<rparr>))
     else Inr (s\<lparr>ts_mem := (ts_mem s)(entry_timer e := None)\<rparr>))"

fun sp_requeue_all :: "'d double_ops \<Rightarrow> timestamp \<Rightarrow> ('c, 'd) timers \<Rightarrow> entry list \<Rightarrow> ('c, 'd) timers result" where
  "sp_requeue_all ops now s [] = Inr s"
| "sp_requeue_all ops now s (e # es) =
     rbind (sp_requeue ops now s e) (\<lambda>s'. sp_requeue_all ops now s' es)"

definition sp_reset :: "'d double_ops \<Rightarrow> timestamp \<Rightarrow> ('c, 'd) timers \<Rightarrow> entry list \<Rightarrow> ('c, 'd) timers result" where
  "sp_reset ops now s es =
     rbind (sp_requeue_all ops now s es) (\<lambda>s'.
     if ts_pending s' \<noteq> {#} \<and> 0 < first_due s' then sp_arm s' (first_due s') else Inr s')"

definition due_entries :: "timestamp \<Rightarrow> entry multiset \<Rightarrow> entry list" where
  "due_entries now M = sorted_list_of_multiset (filter_mset (\<lambda>e. expiration e \<le> now) M)"

definition sp_handleRead :: "'d double_ops \<Rightarrow> ((addr \<rightharpoonup> ('c, 'd) timer) \<Rightarrow> addr) \<Rightarrow>
    ('c \<Rightarrow> ('c, 'd) tq_call list) \<Rightarrow> ('c, 'd) timers \<Rightarrow> ('c, 'd) timers result" where
  "sp_handleRead ops new_addr act s =
     (let now = ts_clock s (ts_reads s); es = due_entries now (ts_pending s);
          s1 = s\<lparr>ts_reads := Suc (ts_reads s),
                 ts_pending := filter_mset (\<lambda>e. now < expiration e) (ts_pending s)\<rparr>
      in rbind (sp_run ops new_addr act s1 es) (\<lambda>s2. sp_reset ops now s2 es))"

section \<open>The invariant\<close>

text \<open>
  \<open>tq_inv k X q\<close>: \<open>X\<close> are the entries taken out of the heap and not yet put back. Every timer in
  memory has exactly one entry, in the heap or in \<open>X\<close>, with its expiration; the heap has room
  for \<open>X\<close> and \<open>k\<close> new timers.
\<close>

definition max_timers :: nat where "max_timers = 2 ^ 32"

definition tq_inv :: "nat \<Rightarrow> entry list \<Rightarrow> ('c, 'd) tqueue \<Rightarrow> bool" where
  "tq_inv k X q \<longleftrightarrow> heap_ok (tq_heap q) \<and> k + length X \<le> spare (tq_heap q) \<and>
     finite (dom (tq_mem q)) \<and> card (dom (tq_mem q)) + k \<le> max_timers \<and>
     (\<forall>p. count (image_mset entry_timer (heap_mset (tq_heap q) + mset X)) p =
        (if tq_mem q p = None then 0 else 1)) \<and>
     (\<forall>e. e \<in># heap_mset (tq_heap q) + mset X \<longrightarrow>
        (\<exists>t. tq_mem q (entry_timer e) = Some t \<and> timer_expiration t = expiration e)) \<and>
     (\<forall>p \<in> dom (tq_mem q). p \<noteq> 0 \<and> p < UINTPTR_MAX)"

text \<open>What the library relies on of \<open>operator new\<close>: with fewer than \<open>max_timers\<close> timers allocated
  it returns the address of none of them, not null and not the last address.\<close>

definition fresh_addr :: "((addr \<rightharpoonup> ('c, 'd) timer) \<Rightarrow> addr) \<Rightarrow> bool" where
  "fresh_addr new_addr \<longleftrightarrow>
     (\<forall>m. finite (dom m) \<longrightarrow> card (dom m) < max_timers \<longrightarrow>
        new_addr m \<notin> dom m \<and> new_addr m \<noteq> 0 \<and> new_addr m < UINTPTR_MAX)"

definition sim :: "nat \<Rightarrow> entry list \<Rightarrow> ('c, 'd) tqueue result \<Rightarrow> ('c, 'd) timers result \<Rightarrow> bool" where
  "sim k X r s \<longleftrightarrow> (case r of Inl e \<Rightarrow> s = Inl e | Inr q \<Rightarrow> s = Inr (abs_tq q) \<and> tq_inv k X q)"

lemma sim_Inr [simp]: "sim k X (Inr q) s \<longleftrightarrow> s = Inr (abs_tq q) \<and> tq_inv k X q"
  and sim_Inl [simp]: "sim k X (Inl e) s \<longleftrightarrow> s = Inl e"
  by (simp_all add: sim_def)

lemma sim_bind:
  assumes "sim k X r s" and "\<And>q. tq_inv k X q \<Longrightarrow> sim k' X' (f q) (g (abs_tq q))"
  shows "sim k' X' (rbind r f) (rbind s g)"
  using assms by (cases r) auto

lemma abs_tq_simps [simp]:
  "ts_mem (abs_tq q) = tq_mem q" "ts_pending (abs_tq q) = heap_mset (tq_heap q)"
  "ts_created (abs_tq q) = tq_created q" "ts_clock (abs_tq q) = tq_clock q"
  "ts_reads (abs_tq q) = tq_reads q" "ts_armed (abs_tq q) = tq_armed q" "ts_log (abs_tq q) = tq_log q"
  by (simp_all add: abs_tq_def)

lemma abs_tq_update [simp]:
  "abs_tq (q\<lparr>tq_mem := m\<rparr>) = (abs_tq q)\<lparr>ts_mem := m\<rparr>"
  "abs_tq (q\<lparr>tq_heap := h\<rparr>) = (abs_tq q)\<lparr>ts_pending := heap_mset h\<rparr>"
  "abs_tq (q\<lparr>tq_created := c\<rparr>) = (abs_tq q)\<lparr>ts_created := c\<rparr>"
  "abs_tq (q\<lparr>tq_reads := n\<rparr>) = (abs_tq q)\<lparr>ts_reads := n\<rparr>"
  "abs_tq (q\<lparr>tq_armed := a\<rparr>) = (abs_tq q)\<lparr>ts_armed := a\<rparr>"
  "abs_tq (q\<lparr>tq_log := l\<rparr>) = (abs_tq q)\<lparr>ts_log := l\<rparr>"
  by (simp_all add: abs_tq_def)

lemma tq_inv_frame [simp]:
  "tq_inv k X (q\<lparr>tq_reads := n\<rparr>) = tq_inv k X q" "tq_inv k X (q\<lparr>tq_armed := a\<rparr>) = tq_inv k X q"
  "tq_inv k X (q\<lparr>tq_log := l\<rparr>) = tq_inv k X q" "tq_inv k X (q\<lparr>tq_created := c\<rparr>) = tq_inv k X q"
  by (simp_all add: tq_inv_def)

lemma deref_abs: "deref q p = sp_deref (abs_tq q) p"
  by (simp add: deref_def sp_deref_def)

lemma deref_Inr: "deref q p = Inr t \<longleftrightarrow> tq_mem q p = Some t"
  by (auto simp: deref_def split: option.splits)

lemma sp_deref_Inr: "sp_deref s p = Inr t \<longleftrightarrow> ts_mem s p = Some t"
  by (auto simp: sp_deref_def split: option.splits)

lemma arm_sim:
  assumes "tq_inv k X q"
  shows "sim k X (resetTimerfd q when) (sp_arm (abs_tq q) when)"
  using assms
  by (cases "howMuchTimeFromNow when (tq_clock q (tq_reads q))")
    (auto simp: resetTimerfd_def sp_arm_def read_clock_def)

section \<open>Simulation of the operations\<close>

lemma tq_invD:
  assumes "tq_inv k X q"
  shows "heap_ok (tq_heap q)" "k + length X \<le> spare (tq_heap q)" "finite (dom (tq_mem q))"
    "card (dom (tq_mem q)) + k \<le> max_timers"
    "count (image_mset entry_timer (heap_mset (tq_heap q) + mset X)) p =
       (if tq_mem q p = None then 0 else 1)"
    "e \<in># heap_mset (tq_heap q) + mset X \<Longrightarrow>
       \<exists>t. tq_mem q (entry_timer e) = Some t \<and> timer_expiration t = expiration e"
    "p \<in> dom (tq_mem q) \<Longrightarrow> p \<noteq> 0 \<and> p < UINTPTR_MAX"
  using assms unfolding tq_inv_def by blast+

lemma tq_inv_weaken: "tq_inv k X q \<Longrightarrow> k' \<le> k \<Longrightarrow> tq_inv k' X q"
  by (simp add: tq_inv_def)

text \<open>The invariant without new timers, and the room for them in the heap's storage and in memory.\<close>

lemma tq_inv_room:
  "tq_inv k X q \<longleftrightarrow> tq_inv 0 X q \<and> k + length X \<le> spare (tq_heap q) \<and> card (dom (tq_mem q)) + k \<le> max_timers"
  by (auto simp: tq_inv_def)

lemma count_le_1_distinct: "(\<And>x. count (mset xs) x \<le> 1) \<Longrightarrow> distinct xs"
  by (metis count_mset_0_iff distinct_count_atmost_1 le_antisym less_one not_le)

lemma inv_distinct:
  assumes "tq_inv k X q"
  shows "distinct (map entry_timer (elems (tq_heap q) @ X))"
proof (rule count_le_1_distinct)
  fix p
  show "count (mset (map entry_timer (elems (tq_heap q) @ X))) p \<le> 1"
    using tq_invD(5) [OF assms, of p] by (simp split: if_splits)
qed

text \<open>\<open>assertOrder\<close> asks for strict order, which holds since no entry occurs twice.\<close>

lemma assertOrder_ok:
  assumes ok: "heap_ok h" and dist: "distinct (elems h)"
  shows "assertOrder h = Inr ()"
proof -
  have mem: "hsize h < length (hdata h)" and heap: "heap_upto (hsize h) (hdata h)"
    using ok by (simp_all add: heap_ok_def heap_mem_def)
  have less: "hdata h ! i < hdata h ! c" if c: "0 < c" "c < hsize h" "heap_parent c = i" for i c
  proof -
    have i: "i < c" using heap_parent_less [OF c(1)] c(3) by simp
    have "length (elems h) = hsize h" using mem by (simp add: elems_def)
    then have "elems h ! i \<noteq> elems h ! c"
      using nth_eq_iff_index_eq [OF dist, of i c] i c(2) by simp
    then have "hdata h ! i \<noteq> hdata h ! c" using i c by (simp add: elems_def)
    moreover have "hdata h ! i \<le> hdata h ! c" using heap c by (auto simp: heap_upto_def)
    ultimately show ?thesis by simp
  qed
  have "hdata h ! i < hdata h ! heap_left i" if "heap_left i < hsize h" for i
    by (rule less) (use that in \<open>simp_all, simp add: heap_left_def\<close>)
  moreover have "hdata h ! i < hdata h ! heap_right i" if "heap_right i < hsize h" for i
    by (rule less) (use that in \<open>simp_all, simp add: heap_right_def\<close>)
  ultimately show ?thesis by (simp add: assertOrder_def)
qed

lemma inv_assertOrder: "tq_inv k X q \<Longrightarrow> assertOrder (tq_heap q) = Inr ()"
  using inv_distinct [of k X q] tq_invD(1) [of k X q]
  by (intro assertOrder_ok) (auto simp: distinct_map)

lemma top_Min:
  assumes "heap_ok h" and "heap_mset h \<noteq> {#}"
  shows "heap_top h = Inr (Min (set_mset (heap_mset h)))"
proof -
  from mq.first_ok [OF assms] obtain x where x: "heap_top h = Inr x" "x \<in># heap_mset h"
    "\<forall>y. y \<in># heap_mset h \<longrightarrow> x \<le> y" by blast
  then have "Min (set_mset (heap_mset h)) = x" by (intro Min_eqI) auto
  with x show ?thesis by simp
qed

text \<open>A new entry, for a timer that has none in the heap: a new timer or one of \<open>X\<close>.\<close>

lemma insert_new:
  assumes inv: "tq_inv (Suc k) X q" and p: "p \<notin> dom (tq_mem q)" "p \<noteq> 0" "p < UINTPTR_MAX"
    and t: "timer_expiration t = when"
  shows "\<exists>h. heap_insert Entry_default (tq_heap q) (Entry when p) = Inr h \<and>
    heap_mset h = add_mset (Entry when p) (heap_mset (tq_heap q)) \<and>
    tq_inv k X (q\<lparr>tq_mem := (tq_mem q)(p \<mapsto> t), tq_heap := h\<rparr>)"
proof -
  have "0 < spare (tq_heap q)" using tq_invD(2) [OF inv] by simp
  from mq.ins_ok [OF tq_invD(1) [OF inv] this] obtain h where
    h: "heap_insert Entry_default (tq_heap q) (Entry when p) = Inr h" "heap_ok h"
      "heap_mset h = add_mset (Entry when p) (heap_mset (tq_heap q))"
      "spare (tq_heap q) \<le> Suc (spare h)" by blast
  have "card (insert p (dom (tq_mem q))) = Suc (card (dom (tq_mem q)))"
    using tq_invD(3) [OF inv] p(1) by simp
  moreover have "entry_timer e \<noteq> p" if "e \<in># heap_mset (tq_heap q) + mset X" for e
    using tq_invD(6) [OF inv that] p(1) by auto
  ultimately have "tq_inv k X (q\<lparr>tq_mem := (tq_mem q)(p \<mapsto> t), tq_heap := h\<rparr>)"
    using tq_invD [OF inv] p t h(2-4) by (auto simp: tq_inv_def domIff)
  with h show ?thesis by blast
qed

text \<open>An entry of \<open>X\<close> belongs to a timer no other entry belongs to.\<close>

lemma inv_head:
  assumes inv: "tq_inv k (e # X) q"
  shows "\<exists>t. tq_mem q (entry_timer e) = Some t \<and> timer_expiration t = expiration e"
    and "e' \<in># heap_mset (tq_heap q) + mset X \<Longrightarrow> entry_timer e' \<noteq> entry_timer e"
proof -
  show "\<exists>t. tq_mem q (entry_timer e) = Some t \<and> timer_expiration t = expiration e"
    using tq_invD(6) [OF inv, of e] by simp
  show "entry_timer e' \<noteq> entry_timer e" if "e' \<in># heap_mset (tq_heap q) + mset X"
    using inv_distinct [OF inv] that by (auto simp: image_iff)
qed

lemma inv_count_head:
  assumes inv: "tq_inv k (e # X) q"
  shows "count (image_mset entry_timer (heap_mset (tq_heap q) + mset X)) p =
    (if p = entry_timer e \<or> tq_mem q p = None then 0 else 1)"
proof -
  have "count (image_mset entry_timer (heap_mset (tq_heap q) + mset X)) p +
      (if p = entry_timer e then 1 else 0) = (if tq_mem q p = None then 0 else 1)"
    using tq_invD(5) [OF inv, of p] by (simp split: if_splits)
  then show ?thesis using inv_head(1) [OF inv] by (auto split: if_splits)
qed

lemma insert_back:
  assumes inv: "tq_inv k (e # X) q" and t: "timer_expiration t = due"
  shows "\<exists>h. heap_insert Entry_default (tq_heap q) (Entry due (entry_timer e)) = Inr h \<and>
    heap_mset h = add_mset (Entry due (entry_timer e)) (heap_mset (tq_heap q)) \<and>
    tq_inv k X (q\<lparr>tq_mem := (tq_mem q)(entry_timer e \<mapsto> t), tq_heap := h\<rparr>)"
proof -
  have "0 < spare (tq_heap q)" using tq_invD(2) [OF inv] by simp
  from mq.ins_ok [OF tq_invD(1) [OF inv] this] obtain h where
    h: "heap_insert Entry_default (tq_heap q) (Entry due (entry_timer e)) = Inr h" "heap_ok h"
      "heap_mset h = add_mset (Entry due (entry_timer e)) (heap_mset (tq_heap q))"
      "spare (tq_heap q) \<le> Suc (spare h)" by blast
  have dom: "insert (entry_timer e) (dom (tq_mem q)) = dom (tq_mem q)"
    using inv_head(1) [OF inv] by auto
  have cnt: "count (image_mset entry_timer (heap_mset h + mset X)) p =
      (if ((tq_mem q)(entry_timer e \<mapsto> t)) p = None then 0 else 1)" for p
    using inv_count_head [OF inv, of p] h(3) by simp
  have "\<exists>t'. ((tq_mem q)(entry_timer e \<mapsto> t)) (entry_timer e') = Some t' \<and>
      timer_expiration t' = expiration e'" if "e' \<in># heap_mset h + mset X" for e'
    using that tq_invD(6) [OF inv, of e'] inv_head(2) [OF inv, of e'] h(3) t by auto
  then have "tq_inv k X (q\<lparr>tq_mem := (tq_mem q)(entry_timer e \<mapsto> t), tq_heap := h\<rparr>)"
    using tq_invD(1-4,7) [OF inv] h(2,4) dom cnt inv_head(1) [OF inv]
    by (auto simp del: image_mset_union simp: tq_inv_def)
  with h show ?thesis by blast
qed

lemma free_inv:
  assumes inv: "tq_inv k (e # X) q"
  shows "tq_inv k X (q\<lparr>tq_mem := (tq_mem q)(entry_timer e := None)\<rparr>)"
proof -
  have "card (dom (tq_mem q) - {entry_timer e}) \<le> card (dom (tq_mem q))"
    using tq_invD(3) [OF inv] by (intro card_mono) auto
  then have "card (dom (tq_mem q) - {entry_timer e}) + k \<le> max_timers"
    using tq_invD(4) [OF inv] by linarith
  moreover have "\<exists>t'. ((tq_mem q)(entry_timer e := None)) (entry_timer e') = Some t' \<and>
      timer_expiration t' = expiration e'" if "e' \<in># heap_mset (tq_heap q) + mset X" for e'
    using that tq_invD(6) [OF inv, of e'] inv_head(2) [OF inv, of e'] by auto
  ultimately show ?thesis
    using tq_invD(1-3,7) [OF inv] inv_count_head [OF inv]
    by (auto simp del: image_mset_union simp: tq_inv_def)
qed

lemma addTimer_sim:
  assumes inv: "tq_inv (Suc k) X q" and fresh: "fresh_addr new_addr"
  shows "sim k X (rbind (addTimer ops new_addr q cb when interval) (\<lambda>(i, q'). Inr q'))
    (sp_add ops new_addr (abs_tq q) cb when interval)"
proof -
  let ?p = "new_addr (tq_mem q)"
  obtain t c where t: "Timer_init ops (tq_created q) cb when interval = (t, c)" by fastforce
  then have exp: "timer_expiration t = when"
    by (metis Timer_init_simps(1) fst_conv)
  have p: "?p \<notin> dom (tq_mem q)" "?p \<noteq> 0" "?p < UINTPTR_MAX"
    using fresh tq_invD(3,4) [OF inv] by (auto simp: fresh_addr_def)
  from insert_new [OF inv p exp] obtain h where
    h: "heap_insert Entry_default (tq_heap q) (Entry when ?p) = Inr h"
      "heap_mset h = add_mset (Entry when ?p) (heap_mset (tq_heap q))"
      "tq_inv k X (q\<lparr>tq_mem := (tq_mem q)(?p \<mapsto> t), tq_heap := h\<rparr>)" by blast
  let ?q = "q\<lparr>tq_mem := (tq_mem q)(?p \<mapsto> t), tq_created := c, tq_heap := h\<rparr>"
  have q: "tq_inv k X ?q" using h(3) by (simp add: tq_inv_def)
  let ?early = "heap_mset (tq_heap q) = {#} \<or> when < first_due (abs_tq q)"
  have early: "(if heap_empty (tq_heap q) then Inr True
      else rbind (heap_top (tq_heap q)) (\<lambda>e. Inr (when < expiration e))) = Inr ?early"
    using mq.empty_iff [OF tq_invD(1) [OF inv]] top_Min [OF tq_invD(1) [OF inv]]
    by (simp add: first_due_def)
  have "addTimer ops new_addr q cb when interval = rbind (if ?early then resetTimerfd ?q when else Inr ?q)
      (\<lambda>q2. Inr (TimerId_init ?p (timer_index t), q2))"
    using t exp h(1) early by (simp add: addTimer_def addTimerInLoop_def deref_def Let_def cong: if_cong split del: if_split)
  then have "rbind (addTimer ops new_addr q cb when interval) (\<lambda>(i, q'). Inr q') =
      (if ?early then resetTimerfd ?q when else Inr ?q)"
    by (simp add: rbind_assoc) (cases "resetTimerfd ?q when"; simp)
  then show ?thesis
    using t q arm_sim [OF q, of "when"] h(2) by (simp add: sp_add_def Let_def)
qed

lemma cancel_sim:
  assumes inv: "tq_inv k X q"
  shows "sim k X (cancelInLoop q i) (sp_cancel (abs_tq q) i)"
proof (cases "deref q (id_timer i)")
  case (Inr t)
  then have t: "tq_mem q (id_timer i) = Some t" by (simp add: deref_Inr)
  then have "insert (id_timer i) (dom (tq_mem q)) = dom (tq_mem q)" by auto
  then have "tq_inv k X (q\<lparr>tq_mem := (tq_mem q)(id_timer i \<mapsto> timer_cancel t)\<rparr>)"
    using inv t by (fastforce simp: tq_inv_def)
  with Inr show ?thesis by (simp add: cancelInLoop_def sp_cancel_def deref_abs)
qed (simp add: cancelInLoop_def sp_cancel_def deref_abs)

text \<open>\<open>adds cs\<close>: how many timers the calls \<open>cs\<close> create.\<close>

fun adds :: "('c, 'd) tq_call list \<Rightarrow> nat" where
  "adds [] = 0"
| "adds (CallAdd cb when interval # cs) = Suc (adds cs)"
| "adds (CallCancel i # cs) = adds cs"

lemma rbind_snd: "rbind m (\<lambda>(i, q). f q) = rbind (rbind m (\<lambda>(i, q). Inr q)) f"
  by (cases m) auto

lemma calls_sim:
  assumes fresh: "fresh_addr new_addr" and inv: "tq_inv (k + adds cs) X q"
  shows "sim k X (run_calls ops new_addr q cs) (sp_calls ops new_addr (abs_tq q) cs)"
  using inv
proof (induction cs arbitrary: q rule: adds.induct)
  case (2 cb t i cs)
  then have "tq_inv (Suc (k + adds cs)) X q" by simp
  from addTimer_sim [OF this fresh, of ops cb t i] show ?case
    by (simp only: run_calls.simps sp_calls.simps) (subst rbind_snd, erule sim_bind, erule 2)
next
  case (3 i cs)
  then have "tq_inv (k + adds cs) X q" by simp
  from cancel_sim [OF this, of i] show ?case
    by (simp only: run_calls.simps sp_calls.simps) (erule sim_bind, erule 3)
qed simp

text \<open>The callbacks of a batch: the timers of \<open>es\<close> keep their callbacks while they are run.\<close>

definition keeps_callbacks :: "(addr \<rightharpoonup> ('c, 'd) timer) \<Rightarrow> (addr \<rightharpoonup> ('c, 'd) timer) \<Rightarrow> bool" where
  "keeps_callbacks m m' \<longleftrightarrow> (\<forall>p t. m p = Some t \<longrightarrow> (\<exists>t'. m' p = Some t' \<and>
     timerCallback t' = timerCallback t \<and> timer_interval t' = timer_interval t \<and>
     timer_expiration t' = timer_expiration t \<and> (timer_canceled t \<longrightarrow> timer_canceled t') \<and>
     (timer_repeat t' \<longrightarrow> timer_repeat t)))"

lemma keeps_refl: "keeps_callbacks m m"
  by (simp add: keeps_callbacks_def)

lemma keepsD:
  "keeps_callbacks m m' \<Longrightarrow> m p = Some t \<Longrightarrow> \<exists>t'. m' p = Some t' \<and>
     timerCallback t' = timerCallback t \<and> timer_interval t' = timer_interval t \<and>
     timer_expiration t' = timer_expiration t \<and> (timer_canceled t \<longrightarrow> timer_canceled t') \<and>
     (timer_repeat t' \<longrightarrow> timer_repeat t)"
  by (simp add: keeps_callbacks_def)

lemma keeps_trans: "keeps_callbacks m m' \<Longrightarrow> keeps_callbacks m' m'' \<Longrightarrow> keeps_callbacks m m''"
  unfolding keeps_callbacks_def by metis

lemma keeps_new: "m p = None \<Longrightarrow> keeps_callbacks m (m(p \<mapsto> t))"
  by (auto simp: keeps_callbacks_def)

lemma keeps_cancel: "m p = Some t \<Longrightarrow> keeps_callbacks m (m(p \<mapsto> timer_cancel t))"
  by (auto simp: keeps_callbacks_def timer_cancel_def)

lemma sp_arm_mem: "sp_arm s when = Inr s' \<Longrightarrow> ts_mem s' = ts_mem s"
  and sp_arm_pending: "sp_arm s when = Inr s' \<Longrightarrow> ts_pending s' = ts_pending s"
  and sp_arm_log: "sp_arm s when = Inr s' \<Longrightarrow> ts_log s' = ts_log s"
  by (auto simp: sp_arm_def rbind_eq_Inr)

definition batch_adds :: "('c \<Rightarrow> ('c, 'd) tq_call list) \<Rightarrow> (addr \<rightharpoonup> ('c, 'd) timer) \<Rightarrow> entry list \<Rightarrow> nat" where
  "batch_adds act m es = sum_list (map (\<lambda>e. case m (entry_timer e) of
     None \<Rightarrow> 0 | Some t \<Rightarrow> adds (act (timerCallback t))) es)"

lemma sp_calls_keeps:
  assumes fresh: "fresh_addr new_addr"
    and "sp_calls ops new_addr s cs = Inr s'"
    and "finite (dom (ts_mem s))" "card (dom (ts_mem s)) + adds cs \<le> max_timers"
  shows "keeps_callbacks (ts_mem s) (ts_mem s')"
  using assms(2-)
proof (induction cs arbitrary: s rule: adds.induct)
  case (1 s)
  then show ?case by (simp add: keeps_refl)
next
  case (2 cb t i cs s)
  from "2.prems"(1) obtain s1 where s1: "sp_add ops new_addr s cb t i = Inr s1"
    "sp_calls ops new_addr s1 cs = Inr s'" by (auto simp: rbind_eq_Inr)
  let ?p = "new_addr (ts_mem s)"
  have p: "?p \<notin> dom (ts_mem s)" using fresh "2.prems"(2,3) by (auto simp: fresh_addr_def)
  obtain x where x: "ts_mem s1 = (ts_mem s)(?p \<mapsto> x)"
    using s1(1) by (auto simp: sp_add_def Let_def dest: sp_arm_mem split: prod.splits if_splits)
  have "keeps_callbacks (ts_mem s) (ts_mem s1)" using x p keeps_new [of "ts_mem s" ?p x] by (simp add: domIff)
  moreover have "keeps_callbacks (ts_mem s1) (ts_mem s')"
  proof (rule "2.IH" [OF s1(2)])
    have dom: "dom (ts_mem s1) = insert ?p (dom (ts_mem s))" using x by simp
    show "finite (dom (ts_mem s1))" "card (dom (ts_mem s1)) + adds cs \<le> max_timers"
      unfolding dom using "2.prems"(2,3) p by simp_all
  qed
  ultimately show ?case by (rule keeps_trans)
next
  case (3 i cs s)
  from "3.prems"(1) obtain t where t: "ts_mem s (id_timer i) = Some t"
    "sp_calls ops new_addr (s\<lparr>ts_mem := (ts_mem s)(id_timer i \<mapsto> timer_cancel t)\<rparr>) cs = Inr s'"
    by (auto simp: rbind_eq_Inr sp_cancel_def sp_deref_Inr)
  have dom: "insert (id_timer i) (dom (ts_mem s)) = dom (ts_mem s)" using t(1) by auto
  have "keeps_callbacks (ts_mem s) ((ts_mem s)(id_timer i \<mapsto> timer_cancel t))"
    by (rule keeps_cancel [of "ts_mem s" "id_timer i" t]) (rule t(1))
  moreover have "keeps_callbacks ((ts_mem s)(id_timer i \<mapsto> timer_cancel t)) (ts_mem s')"
    using "3.IH" [OF t(2)] "3.prems"(2,3) dom by (simp del: fun_upd_apply)
  ultimately show ?case by (rule keeps_trans)
qed

lemma keeps_batch_adds:
  assumes "keeps_callbacks m m'" and "\<forall>e \<in> set es. entry_timer e \<in> dom m"
  shows "batch_adds act m' es = batch_adds act m es"
proof -
  have "(case m' (entry_timer e) of None \<Rightarrow> 0 | Some t \<Rightarrow> adds (act (timerCallback t))) =
      (case m (entry_timer e) of None \<Rightarrow> 0 | Some t \<Rightarrow> adds (act (timerCallback t)))" if "e \<in> set es" for e
  proof -
    from assms(2) that have "entry_timer e \<in> dom m" by simp
    then obtain t where t: "m (entry_timer e) = Some t" by auto
    from keepsD [OF assms(1) t] obtain t' where
      "m' (entry_timer e) = Some t'" "timerCallback t' = timerCallback t" by blast
    with t show ?thesis by simp
  qed
  then show ?thesis unfolding batch_adds_def
    by (intro arg_cong [where f = sum_list] map_cong) simp_all
qed

lemma run_sim_keeps:
  assumes fresh: "fresh_addr new_addr"
    and "tq_inv (k + batch_adds act (tq_mem q) es) X q" "set es \<subseteq> set X"
  shows "sim k X (run_expired ops new_addr act q es) (sp_run ops new_addr act (abs_tq q) es) \<and>
    (\<forall>q'. run_expired ops new_addr act q es = Inr q' \<longrightarrow> keeps_callbacks (tq_mem q) (tq_mem q'))"
  using assms(2-)
proof (induction es arbitrary: q)
  case Nil
  then show ?case by (simp add: batch_adds_def keeps_refl)
next
  case (Cons e es)
  let ?m = "batch_adds act (tq_mem q) es"
  from tq_invD(6) [OF Cons.prems(1), of e] Cons.prems(2) obtain t where
    t: "tq_mem q (entry_timer e) = Some t" by auto
  let ?q = "q\<lparr>tq_log := tq_log q @ [entry_timer e]\<rparr>"
  let ?cs = "act (timerCallback t)"
  have inv: "tq_inv (k + ?m + adds ?cs) X q"
    using Cons.prems(1) t by (simp add: batch_adds_def ac_simps)
  then have inv': "tq_inv (k + ?m) X q" by (rule tq_inv_weaken) simp
  have dom: "entry_timer e' \<in> dom (tq_mem q)" if "e' \<in> set es" for e'
    using tq_invD(6) [OF Cons.prems(1), of e'] that Cons.prems(2) by auto
  show ?case
  proof (cases "timer_canceled t")
    case True
    then show ?thesis using t Cons.IH [OF inv'] Cons.prems(2)
      by (simp add: deref_def sp_deref_def)
  next
    case False
    from calls_sim [OF fresh, of "k + ?m" ?cs X ?q ops] inv
    have sim: "sim (k + ?m) X (run_calls ops new_addr ?q ?cs)
        (sp_calls ops new_addr ((abs_tq q)\<lparr>ts_log := tq_log q @ [entry_timer e]\<rparr>) ?cs)" by simp
    show ?thesis
    proof (cases "run_calls ops new_addr ?q ?cs")
      case (Inl x)
      then show ?thesis using sim t False by (simp add: deref_def sp_deref_def)
    next
      case (Inr q')
      with sim have q': "sp_calls ops new_addr ((abs_tq q)\<lparr>ts_log := tq_log q @ [entry_timer e]\<rparr>) ?cs =
          Inr (abs_tq q')" "tq_inv (k + ?m) X q'" by auto
      have keeps: "keeps_callbacks (tq_mem q) (tq_mem q')"
        using sp_calls_keeps [OF fresh q'(1)] tq_invD(3,4) [OF inv] by simp
      then have "batch_adds act (tq_mem q') es = ?m" using dom by (intro keeps_batch_adds) auto
      then have "sim k X (run_expired ops new_addr act q' es) (sp_run ops new_addr act (abs_tq q') es) \<and>
        (\<forall>q2. run_expired ops new_addr act q' es = Inr q2 \<longrightarrow> keeps_callbacks (tq_mem q') (tq_mem q2))"
        using Cons.IH [of q'] q'(2) Cons.prems(2) by simp
      then show ?thesis using Inr q'(1) t False keeps_trans [OF keeps] by (simp add: deref_def sp_deref_def)
    qed
  qed
qed

lemmas run_sim = run_sim_keeps [THEN conjunct1]

lemma requeue_sim:
  assumes inv: "tq_inv k (e # X) q"
  shows "sim k X
    (rbind (deref q (entry_timer e)) (\<lambda>t.
       if timer_repeat t \<and> \<not> timer_canceled t
       then rbind (timer_restart ops t now) (\<lambda>t'.
            rbind (heap_insert Entry_default (tq_heap q) (Entry (timer_expiration t') (entry_timer e))) (\<lambda>h.
            Inr (q\<lparr>tq_mem := (tq_mem q)(entry_timer e \<mapsto> t'), tq_heap := h\<rparr>)))
       else Inr (q\<lparr>tq_mem := (tq_mem q)(entry_timer e := None)\<rparr>)))
    (sp_requeue ops now (abs_tq q) e)"
proof -
  from inv_head(1) [OF inv] obtain t where t: "tq_mem q (entry_timer e) = Some t" by blast
  then have d: "deref q (entry_timer e) = Inr t" by (simp add: deref_Inr)
  show ?thesis
  proof (cases "timer_repeat t \<and> \<not> timer_canceled t")
    case True
    show ?thesis
    proof (cases "addTime ops now (timer_interval t)")
      case (Inl x)
      then show ?thesis using d True
        by (simp add: sp_requeue_def timer_restart_def deref_abs [symmetric])
    next
      case (Inr due)
      from insert_back [OF inv, of "t\<lparr>timer_expiration := due\<rparr>" due] obtain h where
        "heap_insert Entry_default (tq_heap q) (Entry due (entry_timer e)) = Inr h"
        "heap_mset h = add_mset (Entry due (entry_timer e)) (heap_mset (tq_heap q))"
        "tq_inv k X (q\<lparr>tq_mem := (tq_mem q)(entry_timer e \<mapsto> t\<lparr>timer_expiration := due\<rparr>), tq_heap := h\<rparr>)"
        by auto
      then show ?thesis using d True Inr
        by (simp add: sp_requeue_def timer_restart_def deref_abs [symmetric])
    qed
  next
    case False
    then show ?thesis using d free_inv [OF inv]
      by (auto simp add: sp_requeue_def deref_abs [symmetric])
  qed
qed

lemma reset_loop_sim:
  "tq_inv k es q \<Longrightarrow> sim k [] (reset_loop ops q es now) (sp_requeue_all ops now (abs_tq q) es)"
proof (induction es arbitrary: q)
  case (Cons e es)
  have split: "reset_loop ops q (e # es) now =
      rbind (rbind (deref q (entry_timer e)) (\<lambda>t.
       if timer_repeat t \<and> \<not> timer_canceled t
       then rbind (timer_restart ops t now) (\<lambda>t'.
            rbind (heap_insert Entry_default (tq_heap q) (Entry (timer_expiration t') (entry_timer e))) (\<lambda>h.
            Inr (q\<lparr>tq_mem := (tq_mem q)(entry_timer e \<mapsto> t'), tq_heap := h\<rparr>)))
       else Inr (q\<lparr>tq_mem := (tq_mem q)(entry_timer e := None)\<rparr>)))
      (\<lambda>q'. reset_loop ops q' es now)"
    by (simp only: reset_loop.simps Let_def rbind_assoc)
  show ?case unfolding split sp_requeue_all.simps
    by (rule sim_bind [OF requeue_sim [OF Cons.prems]]) (rule Cons.IH)
qed simp

lemma reset_sim:
  assumes "tq_inv k es q"
  shows "sim k [] (tq_reset ops q es now) (sp_reset ops now (abs_tq q) es)"
  unfolding tq_reset_def sp_reset_def
proof (rule sim_bind [OF reset_loop_sim [OF assms]])
  fix q1 :: "('a, 'b) tqueue"
  assume inv: "tq_inv k [] q1"
  show "sim k [] (rbind (assertOrder (tq_heap q1)) (\<lambda>_.
     rbind (if heap_empty (tq_heap q1) then Inr Timestamp_invalid
            else rbind (heap_top (tq_heap q1)) (\<lambda>e.
                 rbind (deref q1 (entry_timer e)) (\<lambda>t. Inr (timer_expiration t)))) (\<lambda>nextExpiration.
     if Timestamp_valid nextExpiration then resetTimerfd q1 nextExpiration else Inr q1)))
    (if ts_pending (abs_tq q1) \<noteq> {#} \<and> 0 < first_due (abs_tq q1)
     then sp_arm (abs_tq q1) (first_due (abs_tq q1)) else Inr (abs_tq q1))"
  proof (cases "heap_empty (tq_heap q1)")
    case True
    then have "heap_mset (tq_heap q1) = {#}" using mq.empty_iff [OF tq_invD(1) [OF inv]] by simp
    then show ?thesis using True inv inv_assertOrder [OF inv]
      by (simp add: Timestamp_valid_def Timestamp_invalid_def)
  next
    case False
    then have ne: "heap_mset (tq_heap q1) \<noteq> {#}" using mq.empty_iff [OF tq_invD(1) [OF inv]] by simp
    let ?e = "Min (set_mset (heap_mset (tq_heap q1)))"
    have "?e \<in># heap_mset (tq_heap q1) + mset []" using ne by (simp add: Min_in)
    from tq_invD(6) [OF inv this] obtain t where t: "tq_mem q1 (entry_timer ?e) = Some t"
      "timer_expiration t = first_due (abs_tq q1)" by (auto simp: first_due_def)
    have eq: "(if heap_empty (tq_heap q1) then Inr Timestamp_invalid
        else rbind (heap_top (tq_heap q1)) (\<lambda>e.
          rbind (deref q1 (entry_timer e)) (\<lambda>t. Inr (timer_expiration t)))) = Inr (first_due (abs_tq q1))"
      using False top_Min [OF tq_invD(1) [OF inv] ne] t by (simp add: deref_def)
    show ?thesis unfolding eq inv_assertOrder [OF inv]
      using arm_sim [OF inv, of "first_due (abs_tq q1)"] inv ne by (simp add: Timestamp_valid_def)
  qed
qed

section \<open>Taking out the due entries\<close>

lemma getExpired_loop_pops:
  "heap_ok h \<Longrightarrow> \<exists>es h'. getExpired_loop bound h = Inr (es, h') \<and> mq.pops Entry_default h es h' \<and>
     (\<forall>e \<in> set es. e < bound) \<and> (\<forall>e. e \<in># heap_mset h' \<longrightarrow> \<not> e < bound)"
proof (induction bound h rule: getExpired_loop.induct)
  case (1 bound h)
  show ?case
  proof (cases "heap_mset h = {#}")
    case True
    then have "heap_empty h" using mq.empty_iff [OF "1.prems"] by simp
    then show ?thesis using True
      by (subst getExpired_loop.simps) (auto intro: mq.pops_nil)
  next
    case False
    then have ne: "\<not> heap_empty h" using mq.empty_iff [OF "1.prems"] by simp
    from mq.first_ok [OF "1.prems" False] obtain e where e: "heap_top h = Inr e"
      "\<forall>y. y \<in># heap_mset h \<longrightarrow> e \<le> y" by blast
    show ?thesis
    proof (cases "e < bound")
      case True
      from mq.del_ok [OF "1.prems" e(1) False, of Entry_default] obtain h1 where
        h1: "heap_pop Entry_default h = Inr h1" "heap_ok h1" by blast
      from "1.IH" [OF ne e(1) True h1] obtain es h' where
        "getExpired_loop bound h1 = Inr (es, h')" "mq.pops Entry_default h1 es h'"
        "\<forall>e \<in> set es. e < bound" "\<forall>e. e \<in># heap_mset h' \<longrightarrow> \<not> e < bound" by blast
      then show ?thesis using ne e(1) True h1(1) mq.pops_cons [OF ne e(1) h1(1)]
        by (subst getExpired_loop.simps) auto
    next
      case less: False
      then have "\<not> y < bound" if "y \<in># heap_mset h" for y using e(2) that by auto
      then show ?thesis using ne e(1) less
        by (subst getExpired_loop.simps) (auto intro: mq.pops_nil)
    qed
  qed
qed

lemma filter_mset_none: "(\<And>x. x \<in># M \<Longrightarrow> \<not> P x) \<Longrightarrow> filter_mset P M = {#}"
  by (induction M) auto

lemma filter_mset_all: "(\<And>x. x \<in># M \<Longrightarrow> P x) \<Longrightarrow> filter_mset P M = M"
  by (induction M) auto

lemma below_bound:
  "entry_timer e < UINTPTR_MAX \<Longrightarrow> e < Entry now UINTPTR_MAX \<longleftrightarrow> expiration e \<le> now"
  by (auto simp: less_entry_def Entry_less_def)

lemma getExpired_ok:
  assumes inv: "tq_inv k [] q"
  shows "\<exists>q'. getExpired q now = Inr (due_entries now (heap_mset (tq_heap q)), q') \<and>
     abs_tq q' = (abs_tq q)\<lparr>ts_pending := filter_mset (\<lambda>e. now < expiration e) (heap_mset (tq_heap q))\<rparr> \<and>
     tq_inv k (due_entries now (heap_mset (tq_heap q))) q'"
proof -
  let ?H = "heap_mset (tq_heap q)"
  from getExpired_loop_pops [OF tq_invD(1) [OF inv], of "Entry now UINTPTR_MAX"] obtain es h where
    l: "getExpired_loop (Entry now UINTPTR_MAX) (tq_heap q) = Inr (es, h)"
      "mq.pops Entry_default (tq_heap q) es h" "\<forall>e \<in> set es. e < Entry now UINTPTR_MAX"
      "\<forall>e. e \<in># heap_mset h \<longrightarrow> \<not> e < Entry now UINTPTR_MAX" by blast
  from mq.pops_sorted [OF l(2) tq_invD(1) [OF inv]] have p: "heap_ok h" "sorted es"
    "mset es + heap_mset h = ?H" "spare (tq_heap q) + length es \<le> spare h" by auto
  have addr: "entry_timer e < UINTPTR_MAX" if "e \<in># ?H" for e
    using tq_invD(6) [OF inv, of e] that tq_invD(7) [OF inv, of "entry_timer e"] by auto
  have due: "expiration e \<le> now" if "e \<in> set es" for e
  proof -
    have "e \<in># ?H" using that p(3) by (metis set_mset_mset union_iff)
    then show ?thesis using l(3) that below_bound [OF addr] by blast
  qed
  have rest: "now < expiration e" if "e \<in># heap_mset h" for e
  proof -
    have "e \<in># ?H" using that p(3) by (metis union_iff)
    then have "\<not> expiration e \<le> now" using l(4) that below_bound [OF addr, of e now] by blast
    then show ?thesis by simp
  qed
  have "filter_mset (\<lambda>e. expiration e \<le> now) (mset es) = mset es"
    by (rule filter_mset_all) (use due in simp)
  moreover have "filter_mset (\<lambda>e. expiration e \<le> now) (heap_mset h) = {#}"
    by (rule filter_mset_none) (use rest in \<open>simp add: not_le\<close>)
  ultimately have "filter_mset (\<lambda>e. expiration e \<le> now) ?H = mset es"
    unfolding p(3) [symmetric] by (simp only: filter_union_mset empty_neutral)
  then have es: "due_entries now ?H = es"
    using p(2) by (simp add: due_entries_def sorted_sort_id)
  have "filter_mset (\<lambda>e. now < expiration e) (mset es) = {#}"
    by (rule filter_mset_none) (use due in \<open>simp add: not_less\<close>)
  moreover have "filter_mset (\<lambda>e. now < expiration e) (heap_mset h) = heap_mset h"
    by (rule filter_mset_all) (use rest in simp)
  ultimately have "filter_mset (\<lambda>e. now < expiration e) ?H = heap_mset h"
    unfolding p(3) [symmetric] by (simp only: filter_union_mset empty_neutral)
  moreover have "tq_inv k es (q\<lparr>tq_heap := h\<rparr>)"
  proof -
    have comm: "heap_mset h + mset es = ?H" using p(3) by (simp add: ac_simps)
    show ?thesis using tq_invD(2-4,7) [OF inv] tq_invD(5,6) [OF inv] p(1,4)
      by (simp add: tq_inv_def comm)
  qed
  ultimately show ?thesis using l(1) es inv_assertOrder [OF inv]
    by (simp add: getExpired_def)
qed

lemma handleRead_sim:
  assumes "tq_inv (k + batch_adds act (tq_mem q)
      (due_entries (tq_clock q (tq_reads q)) (heap_mset (tq_heap q)))) [] q"
    and "fresh_addr new_addr"
  shows "case handleRead ops new_addr act q of
      Inl e \<Rightarrow> sp_handleRead ops new_addr act (abs_tq q) = Inl e
    | Inr q' \<Rightarrow> sp_handleRead ops new_addr act (abs_tq q) = Inr (abs_tq q') \<and> tq_inv k [] q'"
proof -
  let ?now = "tq_clock q (tq_reads q)"
  let ?es = "due_entries ?now (heap_mset (tq_heap q))"
  let ?q = "q\<lparr>tq_reads := Suc (tq_reads q)\<rparr>"
  have inv: "tq_inv (k + batch_adds act (tq_mem q) ?es) [] ?q" using assms(1) by simp
  from getExpired_ok [OF inv, of ?now] obtain q1 where q1: "getExpired ?q ?now = Inr (?es, q1)"
    "abs_tq q1 = (abs_tq ?q)\<lparr>ts_pending := filter_mset (\<lambda>e. ?now < expiration e) (heap_mset (tq_heap q))\<rparr>"
    "tq_inv (k + batch_adds act (tq_mem q) ?es) ?es q1" by auto
  have "tq_mem q1 = tq_mem q" using arg_cong [OF q1(2), of ts_mem] by simp
  then have "sim k ?es (run_expired ops new_addr act q1 ?es) (sp_run ops new_addr act (abs_tq q1) ?es)"
    using run_sim [OF assms(2), of k act q1 ?es] q1(3) by simp
  then have "sim k [] (rbind (run_expired ops new_addr act q1 ?es) (\<lambda>q2. tq_reset ops q2 ?es ?now))
     (rbind (sp_run ops new_addr act (abs_tq q1) ?es) (\<lambda>s2. sp_reset ops ?now s2 ?es))"
    by (rule sim_bind) (rule reset_sim)
  moreover have "handleRead ops new_addr act q =
      rbind (run_expired ops new_addr act q1 ?es) (\<lambda>q2. tq_reset ops q2 ?es ?now)"
    using q1(1) by (simp add: handleRead_def read_clock_def)
  moreover have "sp_handleRead ops new_addr act (abs_tq q) =
      rbind (sp_run ops new_addr act (abs_tq q1) ?es) (\<lambda>s2. sp_reset ops ?now s2 ?es)"
    using q1(2) by (simp add: sp_handleRead_def Let_def)
  ultimately show ?thesis by (simp only: sim_def)
qed

text \<open>C4: The timer queue implements its specification as long as the heap's storage takes the timers that
  the callbacks add without being reallocated (it always does when they add none): seen through \<open>abs_tq\<close>,
  \<open>handleRead\<close> (heap operations, the two heap assertions, the callbacks' calls on the queue while the batch
  runs, requeueing and rearming) is the specification's \<open>sp_handleRead\<close>, and it keeps the invariant. It then
  fails only where the specification fails: a callback cancels a freed timer, or a time leaves the 64 bits. Room
  for \<open>k\<close> more timers beyond those the callbacks add is left over. The condition on the storage is needed, see
  \<open>reallocation_loses_timers\<close> below.\<close>

theorem handleRead_refines:
  assumes "tq_inv 0 [] q"
    and "batch_adds act (tq_mem q) (due_entries (tq_clock q (tq_reads q)) (heap_mset (tq_heap q))) + k \<le> spare (tq_heap q)"
    and "card (dom (tq_mem q)) +
      batch_adds act (tq_mem q) (due_entries (tq_clock q (tq_reads q)) (heap_mset (tq_heap q))) + k \<le> max_timers"
    and "fresh_addr new_addr"
  shows "case handleRead ops new_addr act q of
      Inl e \<Rightarrow> sp_handleRead ops new_addr act (abs_tq q) = Inl e
    | Inr q' \<Rightarrow> sp_handleRead ops new_addr act (abs_tq q) = Inr (abs_tq q') \<and> tq_inv 0 [] q' \<and> k \<le> spare (tq_heap q')"
proof -
  have "tq_inv (k + batch_adds act (tq_mem q) (due_entries (tq_clock q (tq_reads q)) (heap_mset (tq_heap q)))) [] q"
    using assms(1-3) by (subst tq_inv_room) simp
  from handleRead_sim [OF this assms(4), of ops] show ?thesis
    by (cases "handleRead ops new_addr act q") (auto simp: tq_inv_room [of k])
qed

text \<open>\<open>getExpired\<close> returns exactly the entries whose time has come, in ascending order of
  time, and leaves exactly the others in the heap.\<close>

theorem getExpired_due:
  assumes "tq_inv k [] q"
  shows "\<exists>es q'. getExpired q now = Inr (es, q') \<and> sorted es \<and>
     mset es = filter_mset (\<lambda>e. expiration e \<le> now) (heap_mset (tq_heap q)) \<and>
     heap_mset (tq_heap q') = filter_mset (\<lambda>e. now < expiration e) (heap_mset (tq_heap q)) \<and>
     tq_mem q' = tq_mem q \<and> tq_inv k es q'"
proof -
  from getExpired_ok [OF assms, of now] obtain q' where
    q': "getExpired q now = Inr (due_entries now (heap_mset (tq_heap q)), q')"
      "abs_tq q' = (abs_tq q)\<lparr>ts_pending := filter_mset (\<lambda>e. now < expiration e) (heap_mset (tq_heap q))\<rparr>"
      "tq_inv k (due_entries now (heap_mset (tq_heap q))) q'" by blast
  moreover have "tq_mem q' = tq_mem q" using arg_cong [OF q'(2), of ts_mem] by simp
  moreover have "heap_mset (tq_heap q') = filter_mset (\<lambda>e. now < expiration e) (heap_mset (tq_heap q))"
    using arg_cong [OF q'(2), of ts_pending] by simp
  ultimately show ?thesis by (simp add: due_entries_def)
qed

section \<open>Rearming\<close>

lemma howMuchTimeFromNow_ok:
  assumes "howMuchTimeFromNow t now = Inr (s, n)"
  shows "0 \<le> s \<and> 0 \<le> n \<and> n < 1000000000 \<and> n mod 1000 = 0 \<and>
    s * 1000000 + n div 1000 = max 100 (t - now)"
proof -
  let ?u = "max 100 (t - now)"
  have "s = ?u sdiv 1000000 \<and> n = (?u smod 1000000) * 1000"
    using assms by (auto simp: howMuchTimeFromNow_def rbind_eq_Inr int64_checked_def Let_def
      kMicroSecondsPerSecond_def max_def split: if_splits)
  moreover have "?u sdiv 1000000 = ?u div 1000000" "?u smod 1000000 = ?u mod 1000000"
    by (simp_all add: signed_divide_int_def signed_modulo_int_def sgn_if)
  ultimately show ?thesis using mult_div_mod_eq [of 1000000 ?u] by (simp add: mult.commute)
qed

lemma sp_reset_arms:
  assumes "sp_reset ops now s es = Inr s'" and "ts_pending s' \<noteq> {#}" and "0 < first_due s'"
  shows "\<exists>n. ts_reads s' = Suc n \<and>
    (\<exists>a. howMuchTimeFromNow (first_due s') (ts_clock s' n) = Inr a \<and> ts_armed s' = Some a)"
proof -
  from assms(1) obtain s1 where s1: "(if ts_pending s1 \<noteq> {#} \<and> 0 < first_due s1
      then sp_arm s1 (first_due s1) else Inr s1) = Inr s'" by (auto simp: sp_reset_def rbind_eq_Inr)
  show ?thesis
  proof (cases "ts_pending s1 \<noteq> {#} \<and> 0 < first_due s1")
    case True
    then have arm: "sp_arm s1 (first_due s1) = Inr s'" using s1 by simp
    then obtain a where a: "howMuchTimeFromNow (first_due s1) (ts_clock s1 (ts_reads s1)) = Inr a"
      "s' = s1\<lparr>ts_reads := Suc (ts_reads s1), ts_armed := Some a\<rparr>"
      unfolding sp_arm_def rbind_eq_Inr by blast
    then show ?thesis by (simp add: first_due_def)
  qed (use s1 assms in auto)
qed

text \<open>After a batch the timer descriptor is armed for the earliest pending timer: for the time
  left until its expiration at the last reading of the clock, but at least 100 microseconds, as
  a valid \<open>timespec\<close> (no negative seconds, nanoseconds below a second).\<close>

theorem handleRead_rearms:
  assumes "tq_inv (batch_adds act (tq_mem q)
      (due_entries (tq_clock q (tq_reads q)) (heap_mset (tq_heap q)))) [] q"
    and "fresh_addr new_addr" and "handleRead ops new_addr act q = Inr q'"
    and "heap_top (tq_heap q') = Inr e" and "\<not> heap_empty (tq_heap q')" and "0 < expiration e"
  shows "\<exists>s n c. tq_armed q' = Some (s, n) \<and> c = tq_clock q' (tq_reads q' - 1) \<and>
     0 \<le> s \<and> 0 \<le> n \<and> n < 1000000000 \<and> s * 1000000 + n div 1000 = max 100 (expiration e - c)"
proof -
  have r: "sp_handleRead ops new_addr act (abs_tq q) = Inr (abs_tq q')" "tq_inv 0 [] q'"
    using handleRead_sim [of 0 act q new_addr ops] assms(1-3) by auto
  have ne: "ts_pending (abs_tq q') \<noteq> {#}"
    using assms(5) mq.empty_iff [OF tq_invD(1) [OF r(2)]] by simp
  have first: "first_due (abs_tq q') = expiration e"
    using top_Min [OF tq_invD(1) [OF r(2)]] ne assms(4) by (simp add: first_due_def)
  from r(1) obtain s2 es now where "sp_reset ops now s2 es = Inr (abs_tq q')"
    by (auto simp: sp_handleRead_def Let_def rbind_eq_Inr)
  from sp_reset_arms [OF this ne] first assms(6) obtain n a where
    "tq_reads q' = Suc n" "howMuchTimeFromNow (expiration e) (tq_clock q' n) = Inr a"
    "tq_armed q' = Some a" by auto
  then show ?thesis using howMuchTimeFromNow_ok [of "expiration e" "tq_clock q' n" "fst a" "snd a"]
    by (cases a) auto
qed

section \<open>Which callbacks run\<close>

lemma resetTimerfd_frame:
  "resetTimerfd q t = Inr q' \<Longrightarrow> tq_log q' = tq_log q \<and> tq_mem q' = tq_mem q"
  unfolding resetTimerfd_def read_clock_def by (cases q) (auto simp: rbind_eq_Inr)

lemma addTimerInLoop_log:
  assumes "addTimerInLoop q p = Inr (j, q')"
  shows "tq_log q' = tq_log q"
proof -
  from assms obtain w early h where
    "(if early then resetTimerfd (q\<lparr>tq_heap := h\<rparr>) w else Inr (q\<lparr>tq_heap := h\<rparr>)) = Inr q'"
    unfolding addTimerInLoop_def Let_def rbind_eq_Inr sum.inject prod.inject by blast
  then show ?thesis using resetTimerfd_frame [of "q\<lparr>tq_heap := h\<rparr>"] by (cases early) auto
qed

lemma addTimer_log:
  assumes "addTimer ops new_addr q cb t i = Inr (j, q')"
  shows "tq_log q' = tq_log q"
proof -
  obtain x c where "Timer_init ops (tq_created q) cb t i = (x, c)" by fastforce
  with assms show ?thesis by (simp add: addTimer_def Let_def) (drule addTimerInLoop_log, simp)
qed

lemma calls_log: "run_calls ops new_addr q cs = Inr q' \<Longrightarrow> tq_log q' = tq_log q"
proof (induction cs arbitrary: q rule: adds.induct)
  case (2 cb t i cs)
  then show ?case by (auto simp: rbind_eq_Inr dest: addTimer_log)
next
  case (3 i cs)
  then show ?case by (auto simp: rbind_eq_Inr cancelInLoop_def)
qed simp

lemma run_expired_log:
  "run_expired ops new_addr act q es = Inr q' \<Longrightarrow>
     \<exists>L. tq_log q' = tq_log q @ L \<and> set L \<subseteq> entry_timer ` set es"
proof (induction es arbitrary: q)
  case (Cons e es)
  then obtain t q1 where t: "deref q (entry_timer e) = Inr t"
    "(if timer_canceled t then Inr q
      else run_calls ops new_addr (q\<lparr>tq_log := tq_log q @ [entry_timer e]\<rparr>)
        (act (timerCallback t))) = Inr q1"
    "run_expired ops new_addr act q1 es = Inr q'" by (auto simp only: run_expired.simps rbind_eq_Inr)
  from Cons.IH [OF t(3)] obtain L where L: "tq_log q' = tq_log q1 @ L" "set L \<subseteq> entry_timer ` set es"
    by blast
  have "tq_log q1 = tq_log q \<or> tq_log q1 = tq_log q @ [entry_timer e]"
    using t(2) by (auto split: if_splits dest: calls_log)
  then show ?case using L by auto
qed simp

lemma run_expired_append:
  "run_expired ops new_addr act q (es1 @ es2) =
     rbind (run_expired ops new_addr act q es1) (\<lambda>q1. run_expired ops new_addr act q1 es2)"
  by (induction es1 arbitrary: q) (simp_all add: rbind_assoc)

text \<open>A timer that is cancelled before its turn, for instance by the callback of an earlier timer
  of the same batch, is not run, although it was already taken out of the queue as expired.\<close>

theorem cancelled_in_batch_not_run:
  assumes "run_expired ops new_addr act q es1 = Inr q1"
    and "tq_mem q1 (entry_timer e) = Some t" and "timer_canceled t"
    and "run_expired ops new_addr act q (es1 @ e # es2) = Inr q'"
    and "distinct (map entry_timer (es1 @ e # es2))"
  shows "\<exists>L. tq_log q' = tq_log q @ L \<and> entry_timer e \<notin> set L"
proof -
  have "run_expired ops new_addr act q1 es2 = Inr q'"
    using assms(1-4) by (simp add: run_expired_append deref_def)
  from run_expired_log [OF this] run_expired_log [OF assms(1)] obtain L1 L2 where
    "tq_log q' = tq_log q @ L1 @ L2" "set L1 \<subseteq> entry_timer ` set es1"
    "set L2 \<subseteq> entry_timer ` set es2" by auto
  then show ?thesis using assms(5) by (intro exI [of _ "L1 @ L2"]) auto
qed

section \<open>What becomes of the expired timers\<close>

lemma requeue_all_outcome:
  assumes "sp_requeue_all ops now s es = Inr s'" and "distinct (map entry_timer es)"
  shows "(\<forall>p. p \<notin> entry_timer ` set es \<longrightarrow> ts_mem s' p = ts_mem s p) \<and>
    (\<forall>e t. e \<in> set es \<longrightarrow> ts_mem s (entry_timer e) = Some t \<longrightarrow>
       (if timer_repeat t \<and> \<not> timer_canceled t
        then \<exists>due. addTime ops now (timer_interval t) = Inr due \<and>
          ts_mem s' (entry_timer e) = Some (t\<lparr>timer_expiration := due\<rparr>) \<and>
          Entry due (entry_timer e) \<in># ts_pending s'
        else ts_mem s' (entry_timer e) = None)) \<and>
    ts_pending s \<subseteq># ts_pending s'"
  using assms
proof (induction es arbitrary: s)
  case (Cons e es)
  then obtain s1 where s1: "sp_requeue ops now s e = Inr s1" "sp_requeue_all ops now s1 es = Inr s'"
    by (auto simp: rbind_eq_Inr)
  then obtain t where t: "ts_mem s (entry_timer e) = Some t"
    by (auto simp: sp_requeue_def rbind_eq_Inr sp_deref_Inr)
  have d: "entry_timer e \<notin> entry_timer ` set es" "distinct (map entry_timer es)"
    using Cons.prems(2) by auto
  note IH = Cons.IH [OF s1(2) d(2)]
  have one: "(\<forall>p. p \<noteq> entry_timer e \<longrightarrow> ts_mem s1 p = ts_mem s p) \<and>
      (if timer_repeat t \<and> \<not> timer_canceled t
       then \<exists>due. addTime ops now (timer_interval t) = Inr due \<and>
         ts_mem s1 (entry_timer e) = Some (t\<lparr>timer_expiration := due\<rparr>) \<and>
         Entry due (entry_timer e) \<in># ts_pending s1
       else ts_mem s1 (entry_timer e) = None) \<and> ts_pending s \<subseteq># ts_pending s1"
    using s1(1) t by (auto simp: sp_requeue_def sp_deref_def rbind_eq_Inr split: if_splits)
  have e1: "ts_mem s' (entry_timer e) = ts_mem s1 (entry_timer e)" using IH d(1) by blast
  have sub: "ts_pending s \<subseteq># ts_pending s'" using IH one by (meson subset_mset.order_trans)
  have head: "if timer_repeat t \<and> \<not> timer_canceled t
      then \<exists>due. addTime ops now (timer_interval t) = Inr due \<and>
        ts_mem s' (entry_timer e) = Some (t\<lparr>timer_expiration := due\<rparr>) \<and>
        Entry due (entry_timer e) \<in># ts_pending s'
      else ts_mem s' (entry_timer e) = None"
    using one e1 IH mset_subset_eqD [of "ts_pending s1" "ts_pending s'"] by (auto split: if_splits)
  show ?case
  proof (intro conjI allI impI)
    fix p assume "p \<notin> entry_timer ` set (e # es)"
    then show "ts_mem s' p = ts_mem s p" using IH one by simp
  next
    fix e' t' assume e': "e' \<in> set (e # es)" "ts_mem s (entry_timer e') = Some t'"
    show "if timer_repeat t' \<and> \<not> timer_canceled t'
      then \<exists>due. addTime ops now (timer_interval t') = Inr due \<and>
        ts_mem s' (entry_timer e') = Some (t'\<lparr>timer_expiration := due\<rparr>) \<and>
        Entry due (entry_timer e') \<in># ts_pending s'
      else ts_mem s' (entry_timer e') = None"
    proof (cases "e' = e")
      case True
      then have "t' = t" using t e' by simp
      show ?thesis unfolding True \<open>t' = t\<close> by (rule head)
    next
      case False
      then have "e' \<in> set es" using e' by simp
      then have "entry_timer e' \<noteq> entry_timer e" using d(1) by (metis imageI)
      then have "ts_mem s1 (entry_timer e') = Some t'" using one e'(2) by simp
      then show ?thesis using IH \<open>e' \<in> set es\<close> by blast
    qed
  qed (rule sub)
qed simp

lemma arm_or_same:
  "(if P then sp_arm s t else Inr s) = Inr s' \<Longrightarrow> ts_mem s' = ts_mem s \<and> ts_pending s' = ts_pending s"
  using sp_arm_mem [of s t s'] sp_arm_pending [of s t s'] by (cases P) auto

lemma reset_becomes:
  assumes "tq_inv k es q" "tq_reset ops q es now = Inr q'" "e \<in> set es" "tq_mem q (entry_timer e) = Some t"
  shows "if timer_repeat t \<and> \<not> timer_canceled t
    then \<exists>due. addTime ops now (timer_interval t) = Inr due \<and>
      tq_mem q' (entry_timer e) = Some (t\<lparr>timer_expiration := due\<rparr>) \<and>
      Entry due (entry_timer e) \<in># heap_mset (tq_heap q')
    else tq_mem q' (entry_timer e) = None"
proof -
  from reset_sim [OF assms(1), of ops now] assms(2)
  have "sp_reset ops now (abs_tq q) es = Inr (abs_tq q')" by simp
  then obtain s1 where s1: "sp_requeue_all ops now (abs_tq q) es = Inr s1"
    "(if ts_pending s1 \<noteq> {#} \<and> 0 < first_due s1 then sp_arm s1 (first_due s1) else Inr s1) = Inr (abs_tq q')"
    unfolding sp_reset_def rbind_eq_Inr by blast
  have "ts_mem (abs_tq q') = ts_mem s1 \<and> ts_pending (abs_tq q') = ts_pending s1"
    by (rule arm_or_same [OF s1(2)])
  then have same: "tq_mem q' = ts_mem s1" "heap_mset (tq_heap q') = ts_pending s1" by simp_all
  have "distinct (map entry_timer es)" using inv_distinct [OF assms(1)] by simp
  from requeue_all_outcome [OF s1(1) this] assms(3,4) show ?thesis unfolding same by simp
qed

text \<open>A one-shot timer that is due when \<open>handleRead\<close> reads the clock is freed by it.\<close>

lemma handleRead_frees:
  assumes inv: "tq_inv (k + batch_adds act (tq_mem q)
      (due_entries (tq_clock q (tq_reads q)) (heap_mset (tq_heap q)))) [] q"
    and fresh: "fresh_addr new_addr" and run: "handleRead ops new_addr act q = Inr q'"
    and e: "e \<in># heap_mset (tq_heap q)" "expiration e \<le> tq_clock q (tq_reads q)"
    and t: "tq_mem q (entry_timer e) = Some t" "\<not> timer_repeat t"
  shows "tq_mem q' (entry_timer e) = None"
proof -
  let ?now = "tq_clock q (tq_reads q)"
  let ?es = "due_entries ?now (heap_mset (tq_heap q))"
  let ?q = "q\<lparr>tq_reads := Suc (tq_reads q)\<rparr>"
  have "tq_inv (k + batch_adds act (tq_mem q) ?es) [] ?q" using inv by simp
  from getExpired_ok [OF this, of ?now] obtain q1 where q1: "getExpired ?q ?now = Inr (?es, q1)"
    "abs_tq q1 = (abs_tq ?q)\<lparr>ts_pending := filter_mset (\<lambda>e. ?now < expiration e) (heap_mset (tq_heap q))\<rparr>"
    "tq_inv (k + batch_adds act (tq_mem q) ?es) ?es q1" by auto
  have mem: "tq_mem q1 = tq_mem q" using arg_cong [OF q1(2), of ts_mem] by simp
  from run q1(1) obtain q2 where q2: "run_expired ops new_addr act q1 ?es = Inr q2" "tq_reset ops q2 ?es ?now = Inr q'"
    by (auto simp: handleRead_def read_clock_def rbind_eq_Inr)
  have inv1: "tq_inv (k + batch_adds act (tq_mem q1) ?es) ?es q1" using q1(3) mem by simp
  have inv2: "tq_inv k ?es q2" and keeps: "keeps_callbacks (tq_mem q) (tq_mem q2)"
    using run_sim_keeps [OF fresh inv1, of ops] q2(1) mem by simp_all
  from keepsD [OF keeps t(1)] t(2) obtain t2 where t2: "tq_mem q2 (entry_timer e) = Some t2" "\<not> timer_repeat t2" by blast
  have "e \<in> set ?es" using e by (simp add: due_entries_def)
  then show ?thesis using reset_becomes [OF inv2 q2(2) _ t2(1)] t2(2) by simp
qed

text \<open>When the expired timers of a batch are put back, a repeating timer that was not cancelled
  is due again one interval after the time of the batch and has its entry in the heap; any other
  timer is freed, and cancelling it later through its \<open>TimerId\<close> uses the freed timer.\<close>

theorem reset_outcome:
  assumes "tq_inv k es q" and "tq_reset ops q es now = Inr q'"
    and "e \<in> set es" and "tq_mem q (entry_timer e) = Some t"
  shows "if timer_repeat t \<and> \<not> timer_canceled t
    then \<exists>due. addTime ops now (timer_interval t) = Inr due \<and>
      tq_mem q' (entry_timer e) = Some (t\<lparr>timer_expiration := due\<rparr>) \<and>
      Entry due (entry_timer e) \<in> set (elems (tq_heap q'))
    else tq_mem q' (entry_timer e) = None \<and>
      (\<forall>i. id_timer i = entry_timer e \<longrightarrow> cancelInLoop q' i = Inl UseAfterFree)"
proof -
  have "entry_timer e \<noteq> 0" using tq_invD(7) [OF assms(1), of "entry_timer e"] assms(4) by blast
  then show ?thesis using reset_becomes [OF assms]
    by (auto simp: cancelInLoop_def deref_def split: if_splits)
qed

section \<open>Success\<close>

text \<open>
  \<open>good_times\<close>: every time involved fits a half of the 64 bits: the readings of the clock, the
  expirations, the intervals. \<open>live_cancels\<close>: the callbacks of the timers in memory cancel only
  timers in memory and add timers at such times.
\<close>

definition small_time :: "int \<Rightarrow> bool" where
  "small_time t \<longleftrightarrow> 0 \<le> t \<and> t < 2 ^ 62"

definition good_times :: "'d double_ops \<Rightarrow> ('c, 'd) timers \<Rightarrow> bool" where
  "good_times ops s \<longleftrightarrow> (\<forall>n. small_time (ts_clock s n)) \<and>
     (\<forall>e. e \<in># ts_pending s \<longrightarrow> 0 \<le> expiration e \<and> expiration e < 2 ^ 63) \<and>
     (\<forall>p t. ts_mem s p = Some t \<longrightarrow> timer_repeat t \<longrightarrow> small_time (dbl_usec ops (timer_interval t)))"

definition live_calls :: "'d double_ops \<Rightarrow> addr set \<Rightarrow> ('c, 'd) tq_call list \<Rightarrow> bool" where
  "live_calls ops A cs \<longleftrightarrow> (\<forall>c \<in> set cs. case c of
       CallAdd cb when interval \<Rightarrow> small_time when \<and>
         (dbl_positive ops interval \<longrightarrow> small_time (dbl_usec ops interval))
     | CallCancel i \<Rightarrow> id_timer i \<in> A)"

lemma sp_arm_succeeds:
  assumes "good_times ops s" and "0 \<le> t" and "t < 2 ^ 63"
  shows "\<exists>s'. sp_arm s t = Inr s' \<and> good_times ops s' \<and> ts_mem s' = ts_mem s"
proof -
  let ?c = "ts_clock s (ts_reads s)"
  have "0 \<le> ?c" "?c < 2 ^ 62" using assms(1) by (simp_all add: good_times_def small_time_def)
  then have "in_int64 (t - ?c)" using assms(2,3) by (simp add: in_int64_def)
  then have "\<exists>a. howMuchTimeFromNow t ?c = Inr a"
    by (simp add: howMuchTimeFromNow_def int64_checked_def Let_def)
  then obtain a where "howMuchTimeFromNow t ?c = Inr a" by blast
  with assms(1) show ?thesis by (simp add: sp_arm_def good_times_def)
qed

lemma sp_add_succeeds:
  assumes "good_times ops s" and "small_time t"
    and "dbl_positive ops i \<longrightarrow> small_time (dbl_usec ops i)"
  shows "\<exists>s'. sp_add ops new_addr s cb t i = Inr s' \<and> good_times ops s' \<and> dom (ts_mem s) \<subseteq> dom (ts_mem s')"
proof -
  obtain x c where x: "Timer_init ops (ts_created s) cb t i = (x, c)" by fastforce
  then have xi: "timer_repeat x = dbl_positive ops i" "timer_interval x = i"
    by (auto simp: Timer_init_def split: prod.splits)
  let ?p = "new_addr (ts_mem s)"
  let ?s = "s\<lparr>ts_mem := (ts_mem s)(?p \<mapsto> x), ts_created := c,
      ts_pending := add_mset (Entry t ?p) (ts_pending s)\<rparr>"
  have good: "good_times ops ?s" using assms xi by (auto simp: good_times_def small_time_def)
  have t: "0 \<le> t" "t < 2 ^ 63" using assms(2) by (simp_all add: small_time_def)
  from sp_arm_succeeds [OF good t] obtain s' where
    "sp_arm ?s t = Inr s'" "good_times ops s'" "ts_mem s' = ts_mem ?s" by blast
  with good x show ?thesis by (auto simp: sp_add_def Let_def)
qed

lemma sp_cancel_succeeds:
  assumes "good_times ops s" and "id_timer i \<in> dom (ts_mem s)"
  shows "\<exists>s'. sp_cancel s i = Inr s' \<and> good_times ops s' \<and> dom (ts_mem s) \<subseteq> dom (ts_mem s')"
  using assms by (auto simp: sp_cancel_def sp_deref_def good_times_def)

lemma sp_calls_succeeds:
  "good_times ops s \<Longrightarrow> live_calls ops A cs \<Longrightarrow> A \<subseteq> dom (ts_mem s) \<Longrightarrow>
     \<exists>s'. sp_calls ops new_addr s cs = Inr s' \<and> good_times ops s' \<and> dom (ts_mem s) \<subseteq> dom (ts_mem s')"
proof (induction cs arbitrary: s rule: adds.induct)
  case (2 cb t i cs)
  then have c: "small_time t" "dbl_positive ops i \<longrightarrow> small_time (dbl_usec ops i)" "live_calls ops A cs"
    by (simp_all add: live_calls_def)
  from sp_add_succeeds [OF "2.prems"(1) c(1,2), of new_addr cb] obtain s1 where
    s1: "sp_add ops new_addr s cb t i = Inr s1" "good_times ops s1"
      "dom (ts_mem s) \<subseteq> dom (ts_mem s1)" by blast
  then have "A \<subseteq> dom (ts_mem s1)" using "2.prems"(3) by blast
  from "2.IH" [OF s1(2) c(3) this] s1 show ?case by auto
next
  case (3 i cs)
  then have c: "id_timer i \<in> dom (ts_mem s)" "live_calls ops A cs" by (auto simp: live_calls_def)
  from sp_cancel_succeeds [OF "3.prems"(1) c(1)] obtain s1 where
    s1: "sp_cancel s i = Inr s1" "good_times ops s1" "dom (ts_mem s) \<subseteq> dom (ts_mem s1)" by blast
  then have "A \<subseteq> dom (ts_mem s1)" using "3.prems"(3) by blast
  from "3.IH" [OF s1(2) c(2) this] s1 show ?case by auto
qed simp

lemma sp_run_succeeds:
  assumes live: "\<And>c. live_calls ops A (act c)"
  shows "good_times ops s \<Longrightarrow> A \<subseteq> dom (ts_mem s) \<Longrightarrow> entry_timer ` set es \<subseteq> dom (ts_mem s) \<Longrightarrow>
     \<exists>s'. sp_run ops new_addr act s es = Inr s' \<and> good_times ops s' \<and> dom (ts_mem s) \<subseteq> dom (ts_mem s')"
proof (induction es arbitrary: s)
  case (Cons e es)
  then obtain t where t: "ts_mem s (entry_timer e) = Some t" by auto
  let ?s = "s\<lparr>ts_log := ts_log s @ [entry_timer e]\<rparr>"
  have good: "good_times ops ?s" using Cons.prems(1) by (simp add: good_times_def)
  from sp_calls_succeeds [OF good live, of new_addr] Cons.prems(2)
  obtain s1 where s1: "(if timer_canceled t then Inr s
      else sp_calls ops new_addr ?s (act (timerCallback t))) = Inr s1" "good_times ops s1"
      "dom (ts_mem s) \<subseteq> dom (ts_mem s1)"
    using Cons.prems(1) by (cases "timer_canceled t") (auto, blast)
  have "entry_timer ` set es \<subseteq> dom (ts_mem s)" using Cons.prems(3) by simp
  with s1(3) Cons.prems(2) have "A \<subseteq> dom (ts_mem s1)" "entry_timer ` set es \<subseteq> dom (ts_mem s1)"
    by blast+
  from Cons.IH [OF s1(2) this] s1 t show ?case by (auto simp: sp_deref_def)
qed simp

lemma sp_requeue_all_succeeds:
  "good_times ops s \<Longrightarrow> small_time now \<Longrightarrow> entry_timer ` set es \<subseteq> dom (ts_mem s) \<Longrightarrow>
     distinct (map entry_timer es) \<Longrightarrow>
     \<exists>s'. sp_requeue_all ops now s es = Inr s' \<and> good_times ops s'"
proof (induction es arbitrary: s)
  case (Cons e es)
  then obtain t where t: "ts_mem s (entry_timer e) = Some t" by auto
  have other: "entry_timer ` set es \<subseteq> dom (ts_mem s) - {entry_timer e}"
    using Cons.prems(3,4) by (simp add: subset_Diff_insert)
  let ?d = "dbl_usec ops (timer_interval t)"
  have "\<exists>s1. sp_requeue ops now s e = Inr s1 \<and> good_times ops s1 \<and>
      dom (ts_mem s) - {entry_timer e} \<subseteq> dom (ts_mem s1)"
  proof (cases "timer_repeat t \<and> \<not> timer_canceled t")
    case True
    then have "small_time ?d" using Cons.prems(1) t unfolding good_times_def by blast
    then have d: "0 \<le> now + ?d" "now + ?d < 2 ^ 63"
      using Cons.prems(2) by (simp_all add: small_time_def)
    then have "addTime ops now (timer_interval t) = Inr (now + ?d)"
      by (simp add: addTime_def int64_checked_def in_int64_def)
    then show ?thesis using True t d Cons.prems(1)
      by (auto simp: sp_requeue_def sp_deref_def good_times_def)
  next
    case False
    then have "sp_requeue ops now s e = Inr (s\<lparr>ts_mem := (ts_mem s)(entry_timer e := None)\<rparr>)"
      using t by (auto simp add: sp_requeue_def sp_deref_def)
    then show ?thesis using Cons.prems(1) by (auto simp: good_times_def)
  qed
  then obtain s1 where s1: "sp_requeue ops now s e = Inr s1" "good_times ops s1"
    "entry_timer ` set es \<subseteq> dom (ts_mem s1)" using other by blast
  from Cons.IH [OF s1(2) Cons.prems(2) s1(3)] Cons.prems(4) s1(1) show ?case by auto
qed simp

lemma handleRead_good:
  assumes "tq_inv (k + batch_adds act (tq_mem q)
      (due_entries (tq_clock q (tq_reads q)) (heap_mset (tq_heap q)))) [] q"
    and "fresh_addr new_addr" and "good_times ops (abs_tq q)"
    and "\<forall>c. live_calls ops (dom (tq_mem q)) (act c)"
  shows "\<exists>q'. handleRead ops new_addr act q = Inr q' \<and> tq_inv k [] q' \<and> good_times ops (abs_tq q')"
proof -
  let ?now = "tq_clock q (tq_reads q)"
  let ?es = "due_entries ?now (heap_mset (tq_heap q))"
  let ?s = "(abs_tq q)\<lparr>ts_reads := Suc (tq_reads q),
     ts_pending := filter_mset (\<lambda>e. ?now < expiration e) (heap_mset (tq_heap q))\<rparr>"
  have good: "good_times ops ?s" using assms(3) by (simp add: good_times_def)
  have es: "set ?es \<subseteq> set_mset (heap_mset (tq_heap q))" by (auto simp: due_entries_def)
  have "entry_timer e \<in> dom (tq_mem q)" if "e \<in> set ?es" for e
    using tq_invD(6) [OF assms(1), of e] es that by auto
  then have dom: "entry_timer ` set ?es \<subseteq> dom (ts_mem ?s)" by auto
  from sp_run_succeeds [where A = "dom (tq_mem q)" and act = act, OF _ good _ dom] assms(4)
  obtain s2 where s2: "sp_run ops new_addr act ?s ?es = Inr s2" "good_times ops s2"
    "dom (tq_mem q) \<subseteq> dom (ts_mem s2)" by fastforce
  have now: "small_time ?now" using assms(3) by (simp add: good_times_def)
  have dom2: "entry_timer ` set ?es \<subseteq> dom (ts_mem s2)" using dom s2(3) by simp
  have dist: "distinct (map entry_timer ?es)"
  proof -
    from getExpired_ok [OF assms(1), of ?now] obtain q1 where
      "getExpired q ?now = Inr (?es, q1)" "tq_inv (k + batch_adds act (tq_mem q) ?es) ?es q1" by blast
    from inv_distinct [OF this(2)] show ?thesis by simp
  qed
  from sp_requeue_all_succeeds [OF s2(2) now dom2 dist] obtain s3 where
    s3: "sp_requeue_all ops ?now s2 ?es = Inr s3" "good_times ops s3" by blast
  have "\<exists>s'. (if ts_pending s3 \<noteq> {#} \<and> 0 < first_due s3 then sp_arm s3 (first_due s3) else Inr s3) = Inr s' \<and>
      good_times ops s'"
  proof (cases "ts_pending s3 \<noteq> {#} \<and> 0 < first_due s3")
    case True
    then have "Min (set_mset (ts_pending s3)) \<in># ts_pending s3" by (simp add: Min_in)
    then have "first_due s3 < 2 ^ 63" using s3(2) unfolding good_times_def first_due_def by blast
    with sp_arm_succeeds [OF s3(2), of "first_due s3"] True show ?thesis by auto
  qed (use s3 in auto)
  then obtain s' where "sp_handleRead ops new_addr act (abs_tq q) = Inr s'" "good_times ops s'"
    using s2(1) s3(1) by (auto simp: sp_handleRead_def Let_def sp_reset_def)
  with handleRead_sim [OF assms(1,2), of ops] show ?thesis
    by (cases "handleRead ops new_addr act q") auto
qed

text \<open>C13: When the heap's storage takes the timers that the callbacks of the batch add without being
  reallocated (it always does when they add none), the callbacks cancel only timers that are in memory and all
  times are in range, \<open>handleRead\<close> succeeds: no use of a freed timer, no failed assertion, no access outside
  the heap's storage, no overflow. The state it leaves satisfies the same conditions again, with room for
  \<open>k\<close> more timers. Without the first condition it is false, see \<open>reallocation_loses_timers\<close> below.\<close>

theorem handleRead_succeeds:
  assumes "tq_inv 0 [] q"
    and "batch_adds act (tq_mem q) (due_entries (tq_clock q (tq_reads q)) (heap_mset (tq_heap q))) + k \<le> spare (tq_heap q)"
    and "card (dom (tq_mem q)) +
      batch_adds act (tq_mem q) (due_entries (tq_clock q (tq_reads q)) (heap_mset (tq_heap q))) + k \<le> max_timers"
    and "fresh_addr new_addr" and "good_times ops (abs_tq q)"
    and "\<forall>c. live_calls ops (dom (tq_mem q)) (act c)"
  shows "\<exists>q'. handleRead ops new_addr act q = Inr q' \<and> tq_inv 0 [] q' \<and> k \<le> spare (tq_heap q') \<and>
    good_times ops (abs_tq q')"
proof -
  have "tq_inv (k + batch_adds act (tq_mem q) (due_entries (tq_clock q (tq_reads q)) (heap_mset (tq_heap q)))) [] q"
    using assms(1-3) by (subst tq_inv_room) simp
  from handleRead_good [OF this assms(4-6)] show ?thesis by (auto simp: tq_inv_room [of k])
qed

section \<open>A concrete queue\<close>

text \<open>
  Three timers at the addresses 1 to 3: one that repeats every second and is due at 5 seconds,
  one-shot timers due at 6 and 100 seconds; the clock stands at 7 seconds, the callback of the
  first timer cancels the second.
\<close>

definition ex_ops :: "int double_ops" where
  "ex_ops = \<lparr>dbl_positive = (\<lambda>d. 0 < d), dbl_usec = (\<lambda>d. d * 1000000)\<rparr>"

definition ex_new :: "(addr \<rightharpoonup> (nat, int) timer) \<Rightarrow> addr" where
  "ex_new m = (LEAST p. p \<noteq> 0 \<and> p \<notin> dom m)"

definition ex_act :: "nat \<Rightarrow> (nat, int) tq_call list" where
  "ex_act c = (if c = 0 then [CallCancel (TimerId_init 2 2)] else [])"

definition ex_timer :: "nat \<Rightarrow> timestamp \<Rightarrow> int \<Rightarrow> 64 word \<Rightarrow> (nat, int) timer" where
  "ex_timer cb due interval n = fst (Timer_init ex_ops (n - 1) cb due interval)"

definition ex_queue :: "(nat, int) tqueue" where
  "ex_queue =
     \<lparr>tq_mem = [1 \<mapsto> ex_timer 0 5000000 1 1, 2 \<mapsto> ex_timer 1 6000000 0 2, 3 \<mapsto> ex_timer 1 100000000 0 3],
      tq_heap = \<lparr>hdata = [Entry 5000000 1, Entry 6000000 2, Entry 100000000 3] @
          replicate 13 Entry_default, dsize = 16, hsize = 3, hcap = 16\<rparr>,
      tq_created = atomic_init, tq_clock = (\<lambda>n. 7000000), tq_reads = 0, tq_armed = None, tq_log = []\<rparr>"

lemma ex_new_first [code]:
  "ex_new m = (if m 1 = None then 1 else if m 2 = None then 2 else if m 3 = None then 3 else ex_new m)"
proof -
  have small: "q = 0 \<or> q = 1 \<or> q = 2" if "q < (3 :: addr)" for q
  proof -
    have "unat q < 3" using that by (simp add: word_less_nat_alt)
    then have "unat q = 0 \<or> unat q = 1 \<or> unat q = 2" by linarith
    then have "q = word_of_nat 0 \<or> q = word_of_nat 1 \<or> q = word_of_nat 2" by (metis of_nat_unat ucast_id)
    then show ?thesis by simp
  qed
  have "ex_new m = p" if "p \<noteq> 0 \<and> p \<notin> dom m" "\<And>q. q < p \<Longrightarrow> q = 0 \<or> q \<in> dom m" for p
    unfolding ex_new_def using that by (intro Least_equality) (auto simp: not_less [symmetric])
  note least = this
  show ?thesis
  proof (cases "m 1 = None \<or> m 2 = None \<or> m 3 = None")
    case True
    then consider "m 1 = None" | "m 1 \<noteq> None" "m 2 = None" | "m 1 \<noteq> None" "m 2 \<noteq> None" "m 3 = None" by argo
    then show ?thesis
    proof cases
      case 1
      moreover have "q = 0" if "q < (1 :: addr)" for q using that by (simp add: word_less_nat_alt unat_eq_0)
      ultimately show ?thesis using least [of 1] by fastforce
    next
      case 2
      moreover have "q = 0 \<or> q = 1" if "q < (2 :: addr)" for q
        using small [of q] that by (auto simp: word_less_nat_alt)
      ultimately show ?thesis using least [of 2] by fastforce
    next
      case 3
      then show ?thesis using least [of 3] small by fastforce
    qed
  qed auto
qed

lemma ex_new_fresh: "fresh_addr ex_new"
proof -
  have "ex_new m \<notin> dom m \<and> ex_new m \<noteq> 0 \<and> ex_new m < UINTPTR_MAX"
    if m: "finite (dom m)" "card (dom m) < max_timers" for m
  proof -
    let ?A = "word_of_nat ` {1..Suc (card (dom m))} :: addr set"
    have un: "unat (word_of_nat n :: addr) = n" if "n \<in> {1..Suc (card (dom m))}" for n
      using that m(2) by (simp add: max_timers_def unat_of_nat)
    have "inj_on (word_of_nat :: nat \<Rightarrow> addr) {1..Suc (card (dom m))}"
      by (rule inj_onI) (metis un)
    then have "card ?A = Suc (card (dom m))" by (simp add: card_image)
    then have "\<not> ?A \<subseteq> dom m" using card_mono [OF m(1), of ?A] by linarith
    then obtain n where n: "n \<in> {1..Suc (card (dom m))}" "word_of_nat n \<notin> dom m" by blast
    let ?p = "word_of_nat n :: addr"
    have "unat ?p \<noteq> 0" using un [OF n(1)] n(1) by simp
    then have p: "?p \<noteq> 0 \<and> ?p \<notin> dom m" using n(2) by auto
    have l: "ex_new m \<noteq> 0 \<and> ex_new m \<notin> dom m" unfolding ex_new_def by (rule LeastI [where P = "\<lambda>p. p \<noteq> 0 \<and> p \<notin> dom m", OF p])
    have le: "ex_new m \<le> ?p" unfolding ex_new_def by (rule Least_le [where P = "\<lambda>p. p \<noteq> 0 \<and> p \<notin> dom m", OF p])
    have "?p < UINTPTR_MAX" using un [OF n(1)] n(1) m(2)
      by (simp add: word_less_nat_alt max_timers_def UINTPTR_MAX_def unsigned_minus_1_eq_mask mask_eq_exp_minus_1)
    then show ?thesis using l le by simp
  qed
  then show ?thesis by (simp add: fresh_addr_def)
qed

lemma ex_pending: "heap_mset (tq_heap ex_queue) =
    {#Entry 5000000 1, Entry 6000000 2, Entry 100000000 3#}"
  by (simp add: ex_queue_def elems_def)

lemma ex_due: "due_entries (tq_clock ex_queue (tq_reads ex_queue)) (heap_mset (tq_heap ex_queue)) =
    [Entry 5000000 1, Entry 6000000 2]"
proof -
  have "due_entries 7000000 {#Entry 5000000 1, Entry 6000000 2, Entry 100000000 3#} =
      sorted_list_of_multiset (mset [Entry 5000000 1, Entry 6000000 2])"
    by (simp add: due_entries_def)
  also have "\<dots> = [Entry 5000000 1, Entry 6000000 2]"
    by (simp only: sorted_list_of_multiset_mset) (simp add: less_eq_entry_def less_entry_def Entry_less_def)
  finally show ?thesis unfolding ex_pending by (simp add: ex_queue_def)
qed

lemma ex_batch: "batch_adds ex_act (tq_mem ex_queue)
    (due_entries (tq_clock ex_queue (tq_reads ex_queue)) (heap_mset (tq_heap ex_queue))) = 0"
  unfolding ex_due by (simp add: batch_adds_def ex_queue_def ex_timer_def ex_act_def)

lemma ex_inv: "tq_inv k [] ex_queue" if "k \<le> 5"
proof -
  have ok: "heap_ok (tq_heap ex_queue)" "5 \<le> spare (tq_heap ex_queue)" by code_simp+
  have mem: "tq_mem ex_queue = [1 \<mapsto> ex_timer 0 5000000 1 1, 2 \<mapsto> ex_timer 1 6000000 0 2,
      3 \<mapsto> ex_timer 1 100000000 0 3]" by (simp add: ex_queue_def)
  have dom: "dom (tq_mem ex_queue) = {1, 2, 3}" unfolding mem by auto
  have "(1::addr) < UINTPTR_MAX" "(2::addr) < UINTPTR_MAX" "(3::addr) < UINTPTR_MAX" by code_simp+
  then show ?thesis unfolding tq_inv_def ex_pending dom
    using that ok by (auto simp: mem ex_timer_def max_timers_def)
qed


lemma ex_run: "case handleRead ex_ops ex_new ex_act ex_queue of
    Inl e \<Rightarrow> False
  | Inr q' \<Rightarrow> tq_log q' = [1] \<and> tq_armed q' = Some (1, 0) \<and> heap_top (tq_heap q') = Inr (Entry 8000000 1) \<and>
      \<not> heap_empty (tq_heap q') \<and> tq_mem q' 2 = None"
  by code_simp

lemma ex_room:
  "batch_adds ex_act (tq_mem ex_queue)
      (due_entries (tq_clock ex_queue (tq_reads ex_queue)) (heap_mset (tq_heap ex_queue))) + 3 \<le> spare (tq_heap ex_queue)"
  "card (dom (tq_mem ex_queue)) + batch_adds ex_act (tq_mem ex_queue)
      (due_entries (tq_clock ex_queue (tq_reads ex_queue)) (heap_mset (tq_heap ex_queue))) + 3 \<le> max_timers"
  unfolding ex_batch using ex_inv [of 3] by (simp_all add: tq_inv_room [of 3])

lemma handleRead_refines_witness:
  "\<exists>q'. sp_handleRead ex_ops ex_new ex_act (abs_tq ex_queue) = Inr (abs_tq q') \<and> tq_log q' = [1] \<and>
     tq_inv 0 [] q' \<and> 3 \<le> spare (tq_heap q')"
proof -
  have "tq_inv 0 [] ex_queue" by (simp add: ex_inv)
  from handleRead_refines [OF this ex_room ex_new_fresh, of ex_ops] ex_run show ?thesis
    by (cases "handleRead ex_ops ex_new ex_act ex_queue") auto
qed

lemma getExpired_due_witness:
  "\<exists>es q'. getExpired ex_queue 6000000 = Inr (es, q') \<and> sorted es \<and>
     mset es = {#Entry 5000000 1, Entry 6000000 2#} \<and> tq_inv 1 es q'"
proof -
  have "filter_mset (\<lambda>e. expiration e \<le> 6000000) (heap_mset (tq_heap ex_queue)) =
      {#Entry 5000000 1, Entry 6000000 2#}" unfolding ex_pending by simp
  moreover have "tq_inv 1 [] ex_queue" by (rule ex_inv) simp
  ultimately show ?thesis using getExpired_due [of 1 ex_queue 6000000] by auto
qed

lemma handleRead_rearms_witness:
  "\<exists>q' s n c. handleRead ex_ops ex_new ex_act ex_queue = Inr q' \<and> tq_armed q' = Some (s, n) \<and>
     c = tq_clock q' (tq_reads q' - 1) \<and> s * 1000000 + n div 1000 = max 100 (8000000 - c)"
proof (cases "handleRead ex_ops ex_new ex_act ex_queue")
  case (Inr q')
  with ex_run have q': "heap_top (tq_heap q') = Inr (Entry 8000000 1)" "\<not> heap_empty (tq_heap q')" by simp_all
  have "tq_inv (batch_adds ex_act (tq_mem ex_queue)
      (due_entries (tq_clock ex_queue (tq_reads ex_queue)) (heap_mset (tq_heap ex_queue)))) [] ex_queue"
    unfolding ex_batch by (simp add: ex_inv)
  from handleRead_rearms [OF this ex_new_fresh Inr q'] Inr show ?thesis by auto
qed (use ex_run in simp)

lemma handleRead_succeeds_witness:
  "\<exists>q'. handleRead ex_ops ex_new ex_act ex_queue = Inr q' \<and> tq_inv 0 [] q' \<and> 3 \<le> spare (tq_heap q') \<and>
     good_times ex_ops (abs_tq q')"
proof -
  have inv: "tq_inv 0 [] ex_queue" by (simp add: ex_inv)
  have mem: "tq_mem ex_queue = [1 \<mapsto> ex_timer 0 5000000 1 1, 2 \<mapsto> ex_timer 1 6000000 0 2,
      3 \<mapsto> ex_timer 1 100000000 0 3]" by (simp add: ex_queue_def)
  have "tq_clock ex_queue = (\<lambda>n. 7000000)" by (simp add: ex_queue_def)
  then have good: "good_times ex_ops (abs_tq ex_queue)" unfolding good_times_def abs_tq_simps ex_pending mem
    by (auto simp: small_time_def ex_timer_def ex_ops_def Timer_init_def incrementAndGet_def addAndGet_def
      getAndAdd_def split: if_splits)
  have "\<forall>c. live_calls ex_ops (dom (tq_mem ex_queue)) (ex_act c)"
    unfolding mem by (simp add: live_calls_def ex_act_def TimerId_init_def)
  from handleRead_succeeds [OF inv ex_room ex_new_fresh good this] show ?thesis .
qed

lemma cancelled_in_batch_not_run_witness:
  "\<exists>q' L. run_expired ex_ops ex_new ex_act ex_queue [Entry 5000000 1, Entry 6000000 2] = Inr q' \<and>
     tq_log q' = L \<and> 2 \<notin> set L"
proof -
  let ?run = "run_expired ex_ops ex_new ex_act ex_queue"
  have one: "case ?run [Entry 5000000 1] of Inl e \<Rightarrow> False
    | Inr q \<Rightarrow> map_option timer_canceled (tq_mem q 2) = Some True" by code_simp
  then obtain q1 where q1: "?run [Entry 5000000 1] = Inr q1"
    "map_option timer_canceled (tq_mem q1 2) = Some True" by (cases "?run [Entry 5000000 1]") auto
  then obtain t where t: "tq_mem q1 (entry_timer (Entry 6000000 2)) = Some t" "timer_canceled t" by auto
  then have two: "?run ([Entry 5000000 1] @ Entry 6000000 2 # []) = Inr q1"
    using q1(1) by (simp only: run_expired_append) (simp add: deref_def)
  have "tq_log ex_queue = []" by (simp add: ex_queue_def)
  with cancelled_in_batch_not_run [OF q1(1) t two] two show ?thesis by auto
qed

lemma reset_outcome_witness:
  "\<exists>es q q'. getExpired ex_queue 7000000 = Inr (es, q) \<and> tq_reset ex_ops q es 7000000 = Inr q' \<and>
     tq_mem q' 2 = None \<and> cancelInLoop q' (TimerId_init 2 2) = Inl UseAfterFree"
proof -
  have inv: "tq_inv 0 [] ex_queue" by (rule ex_inv) simp
  from getExpired_ok [OF this, of 7000000] ex_due obtain q where
    q: "getExpired ex_queue 7000000 = Inr ([Entry 5000000 1, Entry 6000000 2], q)"
      "tq_inv 0 [Entry 5000000 1, Entry 6000000 2] q"
      "abs_tq q = (abs_tq ex_queue)\<lparr>ts_pending := filter_mset (\<lambda>e. 7000000 < expiration e) (heap_mset (tq_heap ex_queue))\<rparr>"
    by (auto simp: ex_queue_def)
  have "tq_mem q = tq_mem ex_queue" using arg_cong [OF q(3), of ts_mem] by simp
  then have t: "tq_mem q (entry_timer (Entry 6000000 2)) = Some (ex_timer 1 6000000 0 2)"
    by (simp add: ex_queue_def)
  have "\<not> timer_repeat (ex_timer 1 6000000 0 2)" by (simp add: ex_timer_def ex_ops_def)
  moreover have "case getExpired ex_queue 7000000 of Inl e \<Rightarrow> False
    | Inr (es, q) \<Rightarrow> \<not> isl (tq_reset ex_ops q es 7000000)" by code_simp
  then have "\<not> isl (tq_reset ex_ops q [Entry 5000000 1, Entry 6000000 2] 7000000)"
    by (simp add: q(1))
  then obtain q' where q': "tq_reset ex_ops q [Entry 5000000 1, Entry 6000000 2] 7000000 = Inr q'"
    by (cases "tq_reset ex_ops q [Entry 5000000 1, Entry 6000000 2] 7000000") simp_all
  ultimately show ?thesis
    using reset_outcome [OF q(2) q' _ t] q(1) q' by (auto simp: TimerId_init_def)
qed

section \<open>Why the storage is a hypothesis\<close>

text \<open>One timer is left in a heap whose vector was shrunk to its front, in storage for two (the heap starts with
  storage for sixteen, where the same happens with more timers: \<open>push_after_shrink_drops_witness\<close> of theory
  \<open>MinHeap\<close> reaches such a heap). It is due, and its callback adds two timers. The second one fills the storage,
  and the reallocation replaces both entries by \<open>T()\<close>. All other conditions of \<open>handleRead_refines\<close> and
  \<open>handleRead_succeeds\<close> hold, the specification keeps both timers, and the code fails an assertion.\<close>

definition ex_small :: "(nat, int) tqueue" where
  "ex_small = ex_queue\<lparr>tq_mem := [1 \<mapsto> ex_timer 0 5000000 0 1],
     tq_heap := \<lparr>hdata = [Entry 5000000 1, Entry_default], dsize = 0, hsize = 1, hcap = 0\<rparr>\<rparr>"

definition ex_two :: "nat \<Rightarrow> (nat, int) tq_call list" where
  "ex_two c = (if c = 0 then replicate 2 (CallAdd 1 9000000 0) else [])"

lemma ex_small_state:
  "tq_mem ex_small = [1 \<mapsto> ex_timer 0 5000000 0 1]" "heap_mset (tq_heap ex_small) = {#Entry 5000000 1#}"
  "tq_clock ex_small = (\<lambda>n. 7000000)" "heap_ok (tq_heap ex_small)" "spare (tq_heap ex_small) = 0"
  by (simp_all add: ex_small_def elems_def ex_queue_def spare_def) code_simp

lemma ex_small_inv: "tq_inv 0 [] ex_small"
proof -
  have "(1::addr) < UINTPTR_MAX" by code_simp
  then show ?thesis by (simp add: tq_inv_def ex_small_state max_timers_def ex_timer_def)
qed

theorem reallocation_loses_timers:
  "tq_inv 0 [] ex_small \<and> fresh_addr ex_new \<and> good_times ex_ops (abs_tq ex_small) \<and>
   (\<forall>c. live_calls ex_ops (dom (tq_mem ex_small)) (ex_two c)) \<and>
   (case sp_handleRead ex_ops ex_new ex_two (abs_tq ex_small) of Inl e \<Rightarrow> False
    | Inr s' \<Rightarrow> image_mset expiration (ts_pending s') = {#9000000, 9000000#}) \<and>
   handleRead ex_ops ex_new ex_two ex_small = Inl AssertFail"
proof -
  have "case handleRead ex_ops ex_new ex_two ex_small of Inl e \<Rightarrow> e = AssertFail | Inr _ \<Rightarrow> False" by code_simp
  then have "handleRead ex_ops ex_new ex_two ex_small = Inl AssertFail" by (simp split: sum.splits)
  moreover have "\<forall>c. live_calls ex_ops (dom (tq_mem ex_small)) (ex_two c)"
    by (simp add: live_calls_def ex_two_def small_time_def ex_ops_def)
  moreover have "good_times ex_ops (abs_tq ex_small)"
    by (simp add: good_times_def ex_small_state small_time_def ex_timer_def ex_ops_def)
  moreover have "case sp_handleRead ex_ops ex_new ex_two (abs_tq ex_small) of Inl e \<Rightarrow> False
    | Inr s' \<Rightarrow> image_mset expiration (ts_pending s') = {#9000000, 9000000#}"
  proof -
    have due: "due_entries 7000000 {#Entry 5000000 1#} = [Entry 5000000 1]" by (simp add: due_entries_def)
    show ?thesis
      by (simp add: sp_handleRead_def ex_small_state Let_def due sp_deref_def ex_timer_def ex_two_def ex_ops_def
        Timer_init_def numeral_2_eq_2 sp_add_def first_due_def sp_arm_def ex_new_first sp_reset_def sp_requeue_def
        howMuchTimeFromNow_def int64_checked_def in_int64_def min_def split: prod.splits)
  qed
  ultimately show ?thesis using ex_small_inv ex_new_fresh by blast
qed
end
