(* ===== verification/Channel.thy ===== *)
theory Channel
  imports Timer "HOL-Library.Word"
begin

unbundle bit_operations_syntax

text \<open>
  \<open>muduo/net/Channel.h\<close>, \<open>Channel.cc\<close>: a file descriptor with the events a client is interested
  in, the events that occurred, and the four callbacks. Channels live in memory
  (\<open>'cb chan_mem\<close>, from addresses to channels); a callback is a value of type \<open>'cb\<close> that an
  interpreter runs (see \<open>handleEventWithGuard\<close>), since callbacks may do anything to the loop,
  the channel included. \<open>update\<close> and \<open>remove\<close>, which call the loop, are in \<open>EventLoop\<close>.
\<close>

section \<open>Events\<close>

text \<open>The bits of \<open>poll.h\<close>; those of \<open>epoll\<close> are the same.\<close>

type_synonym event_mask = "32 word"

definition POLLIN :: event_mask where "POLLIN = 0x001"
definition POLLPRI :: event_mask where "POLLPRI = 0x002"
definition POLLOUT :: event_mask where "POLLOUT = 0x004"
definition POLLERR :: event_mask where "POLLERR = 0x008"
definition POLLHUP :: event_mask where "POLLHUP = 0x010"
definition POLLNVAL :: event_mask where "POLLNVAL = 0x020"
definition POLLRDHUP :: event_mask where "POLLRDHUP = 0x2000"

definition kNoneEvent :: event_mask where "kNoneEvent = 0"
definition kReadEvent :: event_mask where "kReadEvent = POLLIN OR POLLPRI"
definition kWriteEvent :: event_mask where "kWriteEvent = POLLOUT"

lemmas event_bits = POLLIN_def POLLPRI_def POLLOUT_def POLLERR_def POLLHUP_def POLLNVAL_def POLLRDHUP_def
  kNoneEvent_def kReadEvent_def kWriteEvent_def

section \<open>Channels\<close>

record 'cb channel =
  ch_loop :: addr
  ch_fd :: int
  ch_events :: event_mask
  ch_revents :: event_mask
  ch_index :: int
  logHup :: bool
  ch_eventHandling :: bool
  addedToLoop :: bool
  readCallback :: "'cb option"
  writeCallback :: "'cb option"
  errorCallback :: "'cb option"
  closeCallback :: "'cb option"

type_synonym 'cb chan_mem = "addr \<rightharpoonup> 'cb channel"

definition Channel_init :: "addr \<Rightarrow> int \<Rightarrow> 'cb channel" where
  "Channel_init loop fd =
     \<lparr>ch_loop = loop, ch_fd = fd, ch_events = kNoneEvent, ch_revents = kNoneEvent, ch_index = -1,
      logHup = True, ch_eventHandling = False, addedToLoop = False,
      readCallback = None, writeCallback = None, errorCallback = None, closeCallback = None\<rparr>"

definition setReadCallback :: "'cb \<Rightarrow> 'cb channel \<Rightarrow> 'cb channel" where
  "setReadCallback cb c = c\<lparr>readCallback := Some cb\<rparr>"

definition setWriteCallback :: "'cb \<Rightarrow> 'cb channel \<Rightarrow> 'cb channel" where
  "setWriteCallback cb c = c\<lparr>writeCallback := Some cb\<rparr>"

definition setErrorCallback :: "'cb \<Rightarrow> 'cb channel \<Rightarrow> 'cb channel" where
  "setErrorCallback cb c = c\<lparr>errorCallback := Some cb\<rparr>"

definition setCloseCallback :: "'cb \<Rightarrow> 'cb channel \<Rightarrow> 'cb channel" where
  "setCloseCallback cb c = c\<lparr>closeCallback := Some cb\<rparr>"

definition isWriting :: "'cb channel \<Rightarrow> bool" where
  "isWriting c \<longleftrightarrow> ch_events c AND kWriteEvent \<noteq> 0"

definition isReading :: "'cb channel \<Rightarrow> bool" where
  "isReading c \<longleftrightarrow> ch_events c AND kReadEvent \<noteq> 0"

definition isNoneEvent :: "'cb channel \<Rightarrow> bool" where
  "isNoneEvent c \<longleftrightarrow> ch_events c = kNoneEvent"

definition setIndex :: "int \<Rightarrow> 'cb channel \<Rightarrow> 'cb channel" where
  "setIndex i c = c\<lparr>ch_index := i\<rparr>"

definition setRevents :: "event_mask \<Rightarrow> 'cb channel \<Rightarrow> 'cb channel" where
  "setRevents r c = c\<lparr>ch_revents := r\<rparr>"

definition chan_deref :: "'cb chan_mem \<Rightarrow> addr \<Rightarrow> 'cb channel result" where
  "chan_deref m a =
     (case m a of Some c \<Rightarrow> Inr c | None \<Rightarrow> if a = 0 then Inl NullDeref else Inl UseAfterFree)"

definition chan_upd :: "'cb chan_mem \<Rightarrow> addr \<Rightarrow> ('cb channel \<Rightarrow> 'cb channel) \<Rightarrow> 'cb chan_mem result" where
  "chan_upd m a f = rbind (chan_deref m a) (\<lambda>c. Inr (m(a \<mapsto> f c)))"

section \<open>Dispatch\<close>

text \<open>
  \<open>handleEventWithGuard\<close> runs on a state \<open>'w\<close> that contains the memory of channels (\<open>mem\<close> reads it,
  \<open>put\<close> writes it back); \<open>call\<close> runs a callback. The channel is looked up again before each use,
  as a callback may have changed or destroyed it.
\<close>

definition has_event :: "'cb channel \<Rightarrow> event_mask \<Rightarrow> bool" where
  "has_event c bits \<longleftrightarrow> ch_revents c AND bits \<noteq> 0"

definition dispatch :: "('w \<Rightarrow> 'cb chan_mem) \<Rightarrow> ('cb \<Rightarrow> 'w \<Rightarrow> 'w result) \<Rightarrow> addr \<Rightarrow>
    ('cb channel \<Rightarrow> bool) \<Rightarrow> ('cb channel \<Rightarrow> 'cb option) \<Rightarrow> 'w \<Rightarrow> 'w result" where
  "dispatch mem call a occurred callback w =
     rbind (chan_deref (mem w) a) (\<lambda>c.
     if occurred c then (case callback c of Some cb \<Rightarrow> call cb w | None \<Rightarrow> Inr w) else Inr w)"

definition handleEventWithGuard :: "('w \<Rightarrow> 'cb chan_mem) \<Rightarrow> ('cb chan_mem \<Rightarrow> 'w \<Rightarrow> 'w) \<Rightarrow>
    ('cb \<Rightarrow> 'w \<Rightarrow> 'w result) \<Rightarrow> addr \<Rightarrow> 'w \<Rightarrow> 'w result" where
  "handleEventWithGuard mem put call a w =
     rbind (chan_upd (mem w) a (\<lambda>c. c\<lparr>ch_eventHandling := True\<rparr>)) (\<lambda>m0.
     rbind (dispatch mem call a (\<lambda>c. has_event c POLLHUP \<and> \<not> has_event c POLLIN) closeCallback (put m0 w)) (\<lambda>w1.
     rbind (dispatch mem call a (\<lambda>c. has_event c (POLLERR OR POLLNVAL)) errorCallback w1) (\<lambda>w2.
     rbind (dispatch mem call a (\<lambda>c. has_event c (POLLIN OR POLLPRI OR POLLRDHUP)) readCallback w2) (\<lambda>w3.
     rbind (dispatch mem call a (\<lambda>c. has_event c POLLOUT) writeCallback w3) (\<lambda>w4.
     rbind (chan_upd (mem w4) a (\<lambda>c. c\<lparr>ch_eventHandling := False\<rparr>)) (\<lambda>m5.
     Inr (put m5 w4)))))))"

definition handleEvent :: "('w \<Rightarrow> 'cb chan_mem) \<Rightarrow> ('cb chan_mem \<Rightarrow> 'w \<Rightarrow> 'w) \<Rightarrow>
    ('cb \<Rightarrow> 'w \<Rightarrow> 'w result) \<Rightarrow> addr \<Rightarrow> 'w \<Rightarrow> 'w result" where
  "handleEvent mem put call a w = handleEventWithGuard mem put call a w"

lemma chan_deref_Inr [simp]: "chan_deref m a = Inr c \<longleftrightarrow> m a = Some c"
  by (simp add: chan_deref_def split: option.splits)

lemma chan_deref_Some [simp]: "m a = Some c \<Longrightarrow> chan_deref m a = Inr c"
  by simp

lemma chan_upd_Some [simp]: "m a = Some c \<Longrightarrow> chan_upd m a f = Inr (m(a \<mapsto> f c))"
  by (simp add: chan_upd_def)

lemma chan_upd_Inr: "chan_upd m a f = Inr m' \<longleftrightarrow> (\<exists>c. m a = Some c \<and> m' = m(a \<mapsto> f c))"
  by (auto simp: chan_upd_def rbind_eq_Inr)

end
