(* ===== verification/EpollPoller.thy ===== *)
theory EpollPoller
  imports Channel
begin

text \<open>
  \<open>muduo/net/Poller.h\<close>, \<open>Poller.cc\<close>, \<open>poller/EpollPoller.h\<close>, \<open>EpollPoller.cc\<close>: the poller's map from
  descriptors to channels and its calls to \<open>epoll_ctl\<close>. The calls are recorded in order
  (\<open>ep_calls\<close>): the code ignores their results, so the record is all it does to the kernel.
  What \<open>epoll_wait\<close> returns is an argument of \<open>ep_poll\<close>. \<open>replay\<close> states the documented meaning of a
  list of calls: the interest list they build up, or nothing when a call is an error.
\<close>

section \<open>State\<close>

definition kNew :: int where "kNew = -1"
definition kAdded :: int where "kAdded = 1"
definition kDeleted :: int where "kDeleted = 2"

lemmas index_defs = kNew_def kAdded_def kDeleted_def

definition kInitEventListSize :: nat where "kInitEventListSize = 16"

datatype ctl_op = EPOLL_CTL_ADD | EPOLL_CTL_MOD | EPOLL_CTL_DEL

datatype ctl = Ctl (ctl_operation: ctl_op) (ctl_fd: int) (ctl_events: event_mask) (ctl_ptr: addr)

record poller =
  channel_map :: "int \<rightharpoonup> addr"
  events_size :: nat
  ep_calls :: "ctl list"

definition EpollPoller_init :: poller where
  "EpollPoller_init = \<lparr>channel_map = Map.empty, events_size = kInitEventListSize, ep_calls = []\<rparr>"

section \<open>Operations\<close>

definition ep_update :: "ctl_op \<Rightarrow> 'cb chan_mem \<Rightarrow> poller \<Rightarrow> addr \<Rightarrow> poller result" where
  "ep_update operation m p a =
     rbind (chan_deref m a) (\<lambda>c.
     Inr (p\<lparr>ep_calls := ep_calls p @ [Ctl operation (ch_fd c) (ch_events c) a]\<rparr>))"

definition ep_updateChannel :: "'cb chan_mem \<Rightarrow> poller \<Rightarrow> addr \<Rightarrow> ('cb chan_mem \<times> poller) result" where
  "ep_updateChannel m p a =
     rbind (chan_deref m a) (\<lambda>c.
     let idx = ch_index c; fd = ch_fd c in
     if idx = kNew \<or> idx = kDeleted
     then rbind (if idx = kNew
                 then rbind (assert_ok (channel_map p fd = None)) (\<lambda>_.
                      Inr (p\<lparr>channel_map := (channel_map p)(fd \<mapsto> a)\<rparr>))
                 else rbind (assert_ok (channel_map p fd \<noteq> None)) (\<lambda>_.
                      rbind (assert_ok (channel_map p fd = Some a)) (\<lambda>_. Inr p))) (\<lambda>p1.
          let m1 = m(a \<mapsto> setIndex kAdded c) in
          rbind (ep_update EPOLL_CTL_ADD m1 p1 a) (\<lambda>p2. Inr (m1, p2)))
     else rbind (assert_ok (channel_map p fd \<noteq> None)) (\<lambda>_.
          rbind (assert_ok (channel_map p fd = Some a)) (\<lambda>_.
          if isNoneEvent c
          then let m1 = m(a \<mapsto> setIndex kDeleted c) in
               rbind (ep_update EPOLL_CTL_DEL m1 p a) (\<lambda>p1. Inr (m1, p1))
          else rbind (ep_update EPOLL_CTL_MOD m p a) (\<lambda>p1. Inr (m, p1)))))"

definition ep_removeChannel :: "'cb chan_mem \<Rightarrow> poller \<Rightarrow> addr \<Rightarrow> ('cb chan_mem \<times> poller) result" where
  "ep_removeChannel m p a =
     rbind (chan_deref m a) (\<lambda>c.
     let fd = ch_fd c; idx = ch_index c in
     rbind (assert_ok (channel_map p fd \<noteq> None)) (\<lambda>_.
     rbind (assert_ok (channel_map p fd = Some a)) (\<lambda>_.
     rbind (assert_ok (isNoneEvent c)) (\<lambda>_.
     let p1 = p\<lparr>channel_map := (channel_map p)(fd := None)\<rparr> in
     rbind (if idx = kAdded then ep_update EPOLL_CTL_DEL m p1 a else Inr p1) (\<lambda>p2.
     Inr (m(a \<mapsto> setIndex kNew c), p2))))))"

definition hasChannel :: "'cb chan_mem \<Rightarrow> poller \<Rightarrow> addr \<Rightarrow> bool result" where
  "hasChannel m p a = rbind (chan_deref m a) (\<lambda>c. Inr (channel_map p (ch_fd c) \<noteq> None))"

text \<open>An event of \<open>epoll_wait\<close> carries the pointer that was registered.\<close>

fun fillActiveChannels :: "'cb chan_mem \<Rightarrow> (event_mask \<times> addr) list \<Rightarrow> addr list \<Rightarrow> ('cb chan_mem \<times> addr list) result" where
  "fillActiveChannels m [] active = Inr (m, active)"
| "fillActiveChannels m ((ev, a) # evs) active =
     rbind (chan_upd m a (setRevents ev)) (\<lambda>m'. fillActiveChannels m' evs (active @ [a]))"

definition ep_poll :: "'cb chan_mem \<Rightarrow> poller \<Rightarrow> int + (event_mask \<times> addr) list \<Rightarrow> addr list \<Rightarrow>
    ('cb chan_mem \<times> poller \<times> addr list) result" where
  "ep_poll m p waited active =
     (case waited of
        Inl err \<Rightarrow> Inr (m, p, active)
      | Inr evs \<Rightarrow>
          if evs \<noteq> []
          then rbind (fillActiveChannels m evs active) (\<lambda>(m', active').
               Inr (m', if length evs = events_size p then p\<lparr>events_size := 2 * events_size p\<rparr> else p, active'))
          else Inr (m, p, active))"

section \<open>The kernel's interest list\<close>

text \<open>\<open>epoll_ctl(2)\<close>: adding a registered descriptor, changing or deleting one that is not, is an error.\<close>

type_synonym interest = "int \<rightharpoonup> event_mask \<times> addr"

fun ctl_step :: "ctl \<Rightarrow> interest \<Rightarrow> interest option" where
  "ctl_step (Ctl EPOLL_CTL_ADD fd ev a) k = (if k fd = None then Some (k(fd \<mapsto> (ev, a))) else None)"
| "ctl_step (Ctl EPOLL_CTL_MOD fd ev a) k = (if k fd \<noteq> None then Some (k(fd \<mapsto> (ev, a))) else None)"
| "ctl_step (Ctl EPOLL_CTL_DEL fd ev a) k = (if k fd \<noteq> None then Some (k(fd := None)) else None)"

definition replay :: "ctl list \<Rightarrow> interest option" where
  "replay cs = foldl (\<lambda>k c. Option.bind k (ctl_step c)) (Some Map.empty) cs"

lemma replay_Nil [simp]: "replay [] = Some Map.empty"
  by (simp add: replay_def)

lemma replay_snoc [simp]: "replay (cs @ [c]) = Option.bind (replay cs) (ctl_step c)"
  by (simp add: replay_def)

text \<open>The interest list the channels stand for: those marked as added, with their current events.\<close>

definition registered :: "'cb chan_mem \<Rightarrow> poller \<Rightarrow> interest" where
  "registered m p fd = (case channel_map p fd of None \<Rightarrow> None | Some a \<Rightarrow>
     (case m a of None \<Rightarrow> None | Some c \<Rightarrow> if ch_index c = kAdded then Some (ch_events c, a) else None))"

text \<open>Map and indices agree: a channel is in the map, under its descriptor, unless it is new.\<close>

definition poller_ok :: "'cb chan_mem \<Rightarrow> poller \<Rightarrow> bool" where
  "poller_ok m p \<longleftrightarrow>
     (\<forall>fd a. channel_map p fd = Some a \<longrightarrow> (\<exists>c. m a = Some c \<and> ch_fd c = fd \<and> ch_index c \<noteq> kNew)) \<and>
     (\<forall>a c. m a = Some c \<longrightarrow> ch_index c \<in> {kNew, kAdded, kDeleted} \<and>
        (ch_index c \<noteq> kNew \<longrightarrow> channel_map p (ch_fd c) = Some a)) \<and>
     replay (ep_calls p) = Some (registered m p)"

lemma poller_okD:
  assumes "poller_ok m p"
  shows "channel_map p fd = Some a \<Longrightarrow> \<exists>c. m a = Some c \<and> ch_fd c = fd \<and> ch_index c \<noteq> kNew"
    and "m a = Some c \<Longrightarrow> ch_index c \<in> {kNew, kAdded, kDeleted}"
    and "m a = Some c \<Longrightarrow> ch_index c \<noteq> kNew \<Longrightarrow> channel_map p (ch_fd c) = Some a"
    and "replay (ep_calls p) = Some (registered m p)"
  using assms unfolding poller_ok_def by blast+


lemma poller_ok_init: "(\<And>a c. m a = Some c \<Longrightarrow> ch_index c = kNew) \<Longrightarrow> poller_ok m EpollPoller_init"
  by (force simp: poller_ok_def EpollPoller_init_def registered_def)

lemma registered_other:
  assumes "poller_ok m p" "m a = Some c" "ch_fd c' = ch_fd c" "fd \<noteq> ch_fd c"
    and "channel_map p' fd = channel_map p fd"
  shows "registered (m(a \<mapsto> c')) p' fd = registered m p fd"
  using assms poller_okD(1) [OF assms(1), of fd a] by (auto simp: registered_def split: option.splits)

text \<open>A channel that is entered in the map under its descriptor, and marked as entered.\<close>

lemma entered_ok:
  assumes ok: "poller_ok m p" and c: "m a = Some c" and d: "ch_fd d = ch_fd c" "ch_index d \<in> {kAdded, kDeleted}"
    and free: "ch_index c = kNew \<Longrightarrow> channel_map p (ch_fd c) = None"
    and p': "channel_map p' = (channel_map p)(ch_fd c \<mapsto> a)" "replay (ep_calls p') = Some (registered (m(a \<mapsto> d)) p')"
  shows "poller_ok (m(a \<mapsto> d)) p'"
proof -
  have map: "ch_index c \<noteq> kNew \<Longrightarrow> channel_map p (ch_fd c) = Some a" by (rule poller_okD(3) [OF ok c])
  have "\<exists>e. (m(a \<mapsto> d)) b = Some e \<and> ch_fd e = fd \<and> ch_index e \<noteq> kNew" if "channel_map p' fd = Some b" for fd b
    using that poller_okD(1) [OF ok, of fd b] c d by (auto simp: p'(1) index_defs split: if_splits)
  moreover have "ch_index e \<in> {kNew, kAdded, kDeleted} \<and> (ch_index e \<noteq> kNew \<longrightarrow> channel_map p' (ch_fd e) = Some b)"
    if e: "(m(a \<mapsto> d)) b = Some e" for b e
  proof (cases "b = a")
    case True
    then show ?thesis using e d by (auto simp: p'(1))
  next
    case False
    then have "m b = Some e" using e by simp
    moreover have "channel_map p (ch_fd e) = Some b \<Longrightarrow> ch_fd e \<noteq> ch_fd c"
      using map free False by (cases "ch_index c = kNew") auto
    ultimately show ?thesis using poller_okD(2,3) [OF ok, of b e] by (auto simp: p'(1))
  qed
  ultimately show ?thesis using p'(2) unfolding poller_ok_def by blast
qed

text \<open>What \<open>updateChannel\<close> does to the kernel's interest list, after the channel's events were changed.\<close>

lemma update_registers:
  assumes ok: "poller_ok m p" and c: "m a = Some c" and c': "ch_fd c' = ch_fd c" "ch_index c' = ch_index c"
    and free: "ch_index c = kNew \<Longrightarrow> channel_map p (ch_fd c) = None"
  shows "\<exists>m' p'. ep_updateChannel (m(a \<mapsto> c')) p a = Inr (m', p') \<and> poller_ok m' p' \<and>
    registered m' p' = (registered m p)
      (ch_fd c := if ch_index c = kAdded \<and> isNoneEvent c' then None else Some (ch_events c', a)) \<and>
    m' = m(a \<mapsto> setIndex (if ch_index c = kAdded \<and> isNoneEvent c' then kDeleted else kAdded) c') \<and>
    channel_map p' = (channel_map p)(ch_fd c \<mapsto> a)"
proof -
  let ?del = "ch_index c = kAdded \<and> isNoneEvent c'"
  let ?m = "m(a \<mapsto> setIndex (if ?del then kDeleted else kAdded) c')"
  let ?op = "if ch_index c \<noteq> kAdded then EPOLL_CTL_ADD else if ?del then EPOLL_CTL_DEL else EPOLL_CTL_MOD"
  let ?p = "p\<lparr>channel_map := (channel_map p)(ch_fd c \<mapsto> a),
      ep_calls := ep_calls p @ [Ctl ?op (ch_fd c) (ch_events c') a]\<rparr>"
  let ?k = "if ?del then None else Some (ch_events c', a)"
  have idx: "ch_index c \<in> {kNew, kAdded, kDeleted}" by (rule poller_okD(2) [OF ok c])
  have map: "ch_index c \<noteq> kNew \<Longrightarrow> channel_map p (ch_fd c) = Some a" by (rule poller_okD(3) [OF ok c])
  then have upd: "ch_index c \<noteq> kNew \<Longrightarrow> (channel_map p)(ch_fd c \<mapsto> a) = channel_map p" by auto
  have m: "ch_index c = kAdded \<Longrightarrow> \<not> isNoneEvent c' \<Longrightarrow> setIndex kAdded c' = c'"
    using c' by (simp add: setIndex_def)
  have run: "ep_updateChannel (m(a \<mapsto> c')) p a = Inr (?m, ?p)"
    using idx map upd m c' free by (auto simp: ep_updateChannel_def ep_update_def setIndex_def index_defs Let_def)
  have reg: "registered ?m ?p = (registered m p)(ch_fd c := ?k)"
  proof
    fix fd
    show "registered ?m ?p fd = ((registered m p)(ch_fd c := ?k)) fd"
    proof (cases "fd = ch_fd c")
      case True
      then show ?thesis by (simp add: registered_def setIndex_def index_defs)
    next
      case False
      then show ?thesis
        using registered_other [OF ok c, of "setIndex (if ?del then kDeleted else kAdded) c'" fd ?p] c'
        by (simp add: setIndex_def)
    qed
  qed
  have old: "registered m p (ch_fd c) \<noteq> None \<longleftrightarrow> ch_index c = kAdded"
    using idx map free c by (auto simp: registered_def index_defs)
  have "replay (ep_calls ?p) = Some ((registered m p)(ch_fd c := ?k))"
    using old poller_okD(4) [OF ok] by (auto simp: Option.bind_def)
  then have "replay (ep_calls ?p) = Some (registered ?m ?p)" by (simp only: reg)
  then have "poller_ok ?m ?p" using c' free by (intro entered_ok [OF ok c]) (simp_all add: setIndex_def)
  then show ?thesis using run reg by auto
qed

lemma update_blocked:
  assumes "m a = Some c" "ch_index c = kNew" "channel_map p (ch_fd c) \<noteq> None"
  shows "ep_updateChannel m p a = Inl AssertFail"
  using assms by (simp add: ep_updateChannel_def)

lemma remove_unregisters:
  assumes ok: "poller_ok m p" and c: "m a = Some c" and c': "ch_fd c' = ch_fd c" "ch_index c' = ch_index c"
    and old: "ch_index c \<noteq> kNew" and none: "isNoneEvent c'"
  shows "\<exists>m' p'. ep_removeChannel (m(a \<mapsto> c')) p a = Inr (m', p') \<and> poller_ok m' p' \<and>
    registered m' p' = (registered m p)(ch_fd c := None) \<and> m' = m(a \<mapsto> setIndex kNew c') \<and>
    channel_map p' = (channel_map p)(ch_fd c := None)"
proof -
  let ?m = "m(a \<mapsto> setIndex kNew c')"
  let ?p = "p\<lparr>channel_map := (channel_map p)(ch_fd c := None),
      ep_calls := ep_calls p @ (if ch_index c = kAdded then [Ctl EPOLL_CTL_DEL (ch_fd c) (ch_events c') a] else [])\<rparr>"
  have map: "channel_map p (ch_fd c) = Some a" by (rule poller_okD(3) [OF ok c old])
  have run: "ep_removeChannel (m(a \<mapsto> c')) p a = Inr (?m, ?p)"
    using map c' none by (simp add: ep_removeChannel_def ep_update_def Let_def)
  have reg: "registered ?m ?p = (registered m p)(ch_fd c := None)"
  proof
    fix fd
    show "registered ?m ?p fd = ((registered m p)(ch_fd c := None)) fd"
    proof (cases "fd = ch_fd c")
      case True
      then show ?thesis by (simp add: registered_def)
    next
      case False
      then show ?thesis using registered_other [OF ok c, of "setIndex kNew c'" fd ?p] c' by (simp add: setIndex_def)
    qed
  qed
  have was: "registered m p (ch_fd c) \<noteq> None \<longleftrightarrow> ch_index c = kAdded"
    using map c by (auto simp: registered_def)
  have "replay (ep_calls ?p) = Some ((registered m p)(ch_fd c := None))"
    using was poller_okD(4) [OF ok]
    by (cases "ch_index c = kAdded") (auto simp: Option.bind_def fun_upd_idem simp del: not_None_eq)
  then have "replay (ep_calls ?p) = Some (registered ?m ?p)" by (simp only: reg)
  moreover have "\<exists>d. ?m b = Some d \<and> ch_fd d = fd \<and> ch_index d \<noteq> kNew" if "channel_map ?p fd = Some b" for fd b
    using that poller_okD(1) [OF ok, of fd b] c by (auto split: if_splits)
  moreover have "ch_index d \<in> {kNew, kAdded, kDeleted} \<and> (ch_index d \<noteq> kNew \<longrightarrow> channel_map ?p (ch_fd d) = Some b)"
    if d: "?m b = Some d" for b d
  proof (cases "b = a")
    case True
    then show ?thesis using d c' by (auto simp: setIndex_def)
  next
    case False
    then have "m b = Some d" using d by simp
    moreover have "channel_map p (ch_fd d) = Some b \<Longrightarrow> ch_fd d \<noteq> ch_fd c" using map False by auto
    ultimately show ?thesis using poller_okD(2,3) [OF ok, of b d] by auto
  qed
  ultimately have "poller_ok ?m ?p" unfolding poller_ok_def by blast
  then show ?thesis using run reg by auto
qed

lemma registered_iff:
  assumes "poller_ok m p"
  shows "registered m p fd = Some (e, a) \<longleftrightarrow>
    (\<exists>c. m a = Some c \<and> ch_fd c = fd \<and> ch_index c = kAdded \<and> ch_events c = e)"
proof
  assume r: "registered m p fd = Some (e, a)"
  then have "channel_map p fd = Some a" by (auto simp: registered_def split: option.splits if_splits)
  with poller_okD(1) [OF assms this] r
  show "\<exists>c. m a = Some c \<and> ch_fd c = fd \<and> ch_index c = kAdded \<and> ch_events c = e"
    by (auto simp: registered_def split: if_splits)
next
  assume "\<exists>c. m a = Some c \<and> ch_fd c = fd \<and> ch_index c = kAdded \<and> ch_events c = e"
  then obtain c where c: "m a = Some c" "ch_fd c = fd" "ch_index c = kAdded" "ch_events c = e" by blast
  then have "channel_map p fd = Some a" using poller_okD(3) [OF assms c(1)] by (simp add: index_defs)
  then show "registered m p fd = Some (e, a)" using c by (simp add: registered_def)
qed

end
