(* ===== verification/EventLoop.thy ===== *)
theory EventLoop
  imports EpollPoller TimerQueue
begin

text \<open>
  \<open>muduo/net/EventLoop.h\<close>, \<open>EventLoop.cc\<close>, and the operations of \<open>Channel\<close> that call the loop. A loop
  owns its poller and the channels registered with it; \<open>tid\<close> is the thread that makes a call.
  Functors and callbacks are values of type \<open>'cb\<close>, run by \<open>call\<close>; the record can be extended
  by the state those callbacks work on. \<open>wakeup_writes\<close> and \<open>wakeup_reads\<close> count the accesses to the
  \<open>eventfd\<close>. The loop never ends, so it takes the number of iterations as fuel.
\<close>

section \<open>State\<close>

record 'cb loop =
  loop_this :: addr
  looping :: bool
  loop_quit :: bool
  loop_eventHandling :: bool
  iteration :: int
  threadId :: int
  pollReturnTime :: timestamp
  chans :: "'cb chan_mem"
  loop_poller :: poller
  activeChannels :: "addr list"
  currentActiveChannel :: "addr option"
  wakeupFd :: int
  wakeupChannel :: addr
  pendingFunctors :: "'cb list"
  wakeup_writes :: nat
  wakeup_reads :: nat

section \<open>Threads\<close>

definition isInLoopThread :: "int \<Rightarrow> ('cb, 'z) loop_scheme \<Rightarrow> bool" where
  "isInLoopThread tid l \<longleftrightarrow> threadId l = tid"

text \<open>The body of \<open>abortNotInLoopThread\<close> is a comment: nothing is aborted.\<close>

definition abortNotInLoopThread :: "('cb, 'z) loop_scheme \<Rightarrow> ('cb, 'z) loop_scheme" where
  "abortNotInLoopThread l = l"

definition assertInLoopThread :: "int \<Rightarrow> ('cb, 'z) loop_scheme \<Rightarrow> ('cb, 'z) loop_scheme" where
  "assertInLoopThread tid l = (if isInLoopThread tid l then l else abortNotInLoopThread l)"

section \<open>Channels of the loop\<close>

definition loop_updateChannel :: "int \<Rightarrow> addr \<Rightarrow> ('cb, 'z) loop_scheme \<Rightarrow> ('cb, 'z) loop_scheme result" where
  "loop_updateChannel tid a l =
     rbind (chan_deref (chans l) a) (\<lambda>c.
     rbind (assert_ok (ch_loop c = loop_this l)) (\<lambda>_.
     let l = assertInLoopThread tid l in
     rbind (ep_updateChannel (chans l) (loop_poller l) a) (\<lambda>(m, p).
     Inr (l\<lparr>chans := m, loop_poller := p\<rparr>))))"

definition loop_removeChannel :: "int \<Rightarrow> addr \<Rightarrow> ('cb, 'z) loop_scheme \<Rightarrow> ('cb, 'z) loop_scheme result" where
  "loop_removeChannel tid a l =
     rbind (chan_deref (chans l) a) (\<lambda>c.
     rbind (assert_ok (ch_loop c = loop_this l)) (\<lambda>_.
     let l = assertInLoopThread tid l in
     rbind (ep_removeChannel (chans l) (loop_poller l) a) (\<lambda>(m, p).
     Inr (l\<lparr>chans := m, loop_poller := p\<rparr>))))"

definition loop_hasChannel :: "int \<Rightarrow> addr \<Rightarrow> ('cb, 'z) loop_scheme \<Rightarrow> bool result" where
  "loop_hasChannel tid a l =
     rbind (chan_deref (chans l) a) (\<lambda>c.
     rbind (assert_ok (ch_loop c = loop_this l)) (\<lambda>_.
     let l = assertInLoopThread tid l in
     hasChannel (chans l) (loop_poller l) a))"

text \<open>\<open>Channel::update\<close> and \<open>remove\<close>, and the operations on the events.\<close>

definition Channel_update :: "int \<Rightarrow> addr \<Rightarrow> ('cb, 'z) loop_scheme \<Rightarrow> ('cb, 'z) loop_scheme result" where
  "Channel_update tid a l =
     rbind (chan_upd (chans l) a (\<lambda>c. c\<lparr>addedToLoop := True\<rparr>)) (\<lambda>m.
     loop_updateChannel tid a (l\<lparr>chans := m\<rparr>))"

definition Channel_remove :: "int \<Rightarrow> addr \<Rightarrow> ('cb, 'z) loop_scheme \<Rightarrow> ('cb, 'z) loop_scheme result" where
  "Channel_remove tid a l =
     rbind (chan_upd (chans l) a (\<lambda>c. c\<lparr>addedToLoop := False\<rparr>)) (\<lambda>m.
     loop_removeChannel tid a (l\<lparr>chans := m\<rparr>))"

definition with_events :: "(event_mask \<Rightarrow> event_mask) \<Rightarrow> int \<Rightarrow> addr \<Rightarrow> ('cb, 'z) loop_scheme \<Rightarrow> ('cb, 'z) loop_scheme result" where
  "with_events f tid a l =
     rbind (chan_upd (chans l) a (\<lambda>c. c\<lparr>ch_events := f (ch_events c)\<rparr>)) (\<lambda>m.
     Channel_update tid a (l\<lparr>chans := m\<rparr>))"

definition enableReading :: "int \<Rightarrow> addr \<Rightarrow> ('cb, 'z) loop_scheme \<Rightarrow> ('cb, 'z) loop_scheme result" where
  "enableReading = with_events (\<lambda>e. e OR kReadEvent)"

definition disableReading :: "int \<Rightarrow> addr \<Rightarrow> ('cb, 'z) loop_scheme \<Rightarrow> ('cb, 'z) loop_scheme result" where
  "disableReading = with_events (\<lambda>e. e AND NOT kReadEvent)"

definition enableWriting :: "int \<Rightarrow> addr \<Rightarrow> ('cb, 'z) loop_scheme \<Rightarrow> ('cb, 'z) loop_scheme result" where
  "enableWriting = with_events (\<lambda>e. e OR kWriteEvent)"

definition disableWriting :: "int \<Rightarrow> addr \<Rightarrow> ('cb, 'z) loop_scheme \<Rightarrow> ('cb, 'z) loop_scheme result" where
  "disableWriting = with_events (\<lambda>e. e AND NOT kWriteEvent)"

definition disableAll :: "int \<Rightarrow> addr \<Rightarrow> ('cb, 'z) loop_scheme \<Rightarrow> ('cb, 'z) loop_scheme result" where
  "disableAll = with_events (\<lambda>e. kNoneEvent)"

text \<open>Construction at a new address, and \<open>~Channel\<close>.\<close>

definition new_Channel :: "addr \<Rightarrow> int \<Rightarrow> ('cb, 'z) loop_scheme \<Rightarrow> ('cb, 'z) loop_scheme" where
  "new_Channel a fd l = l\<lparr>chans := (chans l)(a \<mapsto> Channel_init (loop_this l) fd)\<rparr>"

definition Channel_dtor :: "int \<Rightarrow> addr \<Rightarrow> ('cb, 'z) loop_scheme \<Rightarrow> ('cb, 'z) loop_scheme result" where
  "Channel_dtor tid a l =
     rbind (chan_deref (chans l) a) (\<lambda>c.
     rbind (assert_ok (\<not> ch_eventHandling c)) (\<lambda>_.
     rbind (assert_ok (\<not> addedToLoop c)) (\<lambda>_.
     rbind (if isInLoopThread tid l
            then rbind (loop_hasChannel tid a l) (\<lambda>has. assert_ok (\<not> has))
            else Inr ()) (\<lambda>_.
     Inr (l\<lparr>chans := (chans l)(a := None)\<rparr>)))))"

section \<open>Construction and destruction\<close>

text \<open>\<open>fd\<close> is the new \<open>eventfd\<close>, \<open>a\<close> the address of the wakeup channel, \<open>cb\<close> its callback.\<close>

definition EventLoop_init :: "addr \<Rightarrow> int \<Rightarrow> int \<Rightarrow> addr \<Rightarrow> 'cb \<Rightarrow> 'cb loop result" where
  "EventLoop_init this tid fd a cb =
     (let l = \<lparr>loop_this = this, looping = False, loop_quit = False, loop_eventHandling = False, iteration = 0,
            threadId = tid, pollReturnTime = 0, chans = Map.empty, loop_poller = EpollPoller_init,
            activeChannels = [], currentActiveChannel = None, wakeupFd = fd, wakeupChannel = a,
            pendingFunctors = [], wakeup_writes = 0, wakeup_reads = 0\<rparr>;
          l = new_Channel a fd l
      in rbind (chan_upd (chans l) a (setReadCallback cb)) (\<lambda>m.
         enableReading tid a (l\<lparr>chans := m\<rparr>)))"

definition EventLoop_dtor :: "int \<Rightarrow> ('cb, 'z) loop_scheme \<Rightarrow> ('cb, 'z) loop_scheme result" where
  "EventLoop_dtor tid l =
     rbind (disableAll tid (wakeupChannel l) l) (\<lambda>l. Channel_remove tid (wakeupChannel l) l)"

section \<open>Functors\<close>

definition loop_wakeup :: "('cb, 'z) loop_scheme \<Rightarrow> ('cb, 'z) loop_scheme" where
  "loop_wakeup l = l\<lparr>wakeup_writes := Suc (wakeup_writes l)\<rparr>"

definition loop_handleRead :: "('cb, 'z) loop_scheme \<Rightarrow> ('cb, 'z) loop_scheme" where
  "loop_handleRead l = l\<lparr>wakeup_reads := Suc (wakeup_reads l)\<rparr>"

definition queueInLoop :: "int \<Rightarrow> 'cb \<Rightarrow> ('cb, 'z) loop_scheme \<Rightarrow> ('cb, 'z) loop_scheme" where
  "queueInLoop tid cb l =
     (let l = l\<lparr>pendingFunctors := pendingFunctors l @ [cb]\<rparr> in
      if \<not> isInLoopThread tid l then loop_wakeup l else l)"

definition runInLoop :: "('cb \<Rightarrow> ('cb, 'z) loop_scheme \<Rightarrow> ('cb, 'z) loop_scheme result) \<Rightarrow> int \<Rightarrow> 'cb \<Rightarrow>
    ('cb, 'z) loop_scheme \<Rightarrow> ('cb, 'z) loop_scheme result" where
  "runInLoop call tid cb l = (if isInLoopThread tid l then call cb l else Inr (queueInLoop tid cb l))"

fun run_functors :: "('cb \<Rightarrow> ('cb, 'z) loop_scheme \<Rightarrow> ('cb, 'z) loop_scheme result) \<Rightarrow> 'cb list \<Rightarrow>
    ('cb, 'z) loop_scheme \<Rightarrow> ('cb, 'z) loop_scheme result" where
  "run_functors call [] l = Inr l"
| "run_functors call (cb # cbs) l = rbind (call cb l) (\<lambda>l. run_functors call cbs l)"

definition doPendingFunctors :: "('cb \<Rightarrow> ('cb, 'z) loop_scheme \<Rightarrow> ('cb, 'z) loop_scheme result) \<Rightarrow>
    ('cb, 'z) loop_scheme \<Rightarrow> ('cb, 'z) loop_scheme result" where
  "doPendingFunctors call l = run_functors call (pendingFunctors l) (l\<lparr>pendingFunctors := []\<rparr>)"

section \<open>The loop\<close>

fun handle_active :: "('cb \<Rightarrow> ('cb, 'z) loop_scheme \<Rightarrow> ('cb, 'z) loop_scheme result) \<Rightarrow> addr list \<Rightarrow>
    ('cb, 'z) loop_scheme \<Rightarrow> ('cb, 'z) loop_scheme result" where
  "handle_active call [] l = Inr l"
| "handle_active call (a # as) l =
     rbind (handleEvent chans (\<lambda>m. chans_update (\<lambda>_. m)) call a (l\<lparr>currentActiveChannel := Some a\<rparr>))
       (\<lambda>l. handle_active call as l)"

text \<open>One iteration, with what \<open>epoll_wait\<close> returned and the time after it.\<close>

definition loop_body :: "('cb \<Rightarrow> ('cb, 'z) loop_scheme \<Rightarrow> ('cb, 'z) loop_scheme result) \<Rightarrow>
    (int + (event_mask \<times> addr) list) \<times> timestamp \<Rightarrow> ('cb, 'z) loop_scheme \<Rightarrow> ('cb, 'z) loop_scheme result" where
  "loop_body call waited l =
     rbind (ep_poll (chans l) (loop_poller l) (fst waited) []) (\<lambda>(m, p, active).
     let l = l\<lparr>iteration := iteration l + 1, chans := m, loop_poller := p, activeChannels := active,
           pollReturnTime := snd waited, loop_eventHandling := True\<rparr> in
     rbind (handle_active call active l) (\<lambda>l.
     doPendingFunctors call (l\<lparr>currentActiveChannel := None, loop_eventHandling := False\<rparr>)))"

text \<open>\<open>while (1)\<close>: nothing in the loop looks at \<open>quit_\<close>.\<close>

fun loop_while :: "nat \<Rightarrow> ('cb \<Rightarrow> ('cb, 'z) loop_scheme \<Rightarrow> ('cb, 'z) loop_scheme result) \<Rightarrow>
    (nat \<Rightarrow> (int + (event_mask \<times> addr) list) \<times> timestamp) \<Rightarrow> ('cb, 'z) loop_scheme \<Rightarrow>
    ('cb, 'z) loop_scheme result option" where
  "loop_while 0 call waits l = None"
| "loop_while (Suc n) call waits l =
     (case loop_body call (waits 0) l of
        Inl e \<Rightarrow> Some (Inl e)
      | Inr l \<Rightarrow> loop_while n call (\<lambda>i. waits (Suc i)) l)"

definition EventLoop_loop :: "nat \<Rightarrow> int \<Rightarrow> ('cb \<Rightarrow> ('cb, 'z) loop_scheme \<Rightarrow> ('cb, 'z) loop_scheme result) \<Rightarrow>
    (nat \<Rightarrow> (int + (event_mask \<times> addr) list) \<times> timestamp) \<Rightarrow> ('cb, 'z) loop_scheme \<Rightarrow>
    ('cb, 'z) loop_scheme result option" where
  "EventLoop_loop n tid call waits l =
     (if looping l then Some (Inl AssertFail)
      else let l = assertInLoopThread tid l in
        loop_while n call waits (l\<lparr>looping := True, loop_quit := False, loop_eventHandling := False\<rparr>))"

definition EventLoop_quit :: "('cb, 'z) loop_scheme \<Rightarrow> ('cb, 'z) loop_scheme" where
  "EventLoop_quit l = l\<lparr>loop_quit := True\<rparr>"

section \<open>Timers\<close>

text \<open>\<open>zero\<close> is the \<open>double\<close> 0.0.\<close>

definition runAt :: "'d double_ops \<Rightarrow> ((addr \<rightharpoonup> ('c, 'd) timer) \<Rightarrow> addr) \<Rightarrow> 'd \<Rightarrow> ('c, 'd) tqueue \<Rightarrow>
    timestamp \<Rightarrow> 'c \<Rightarrow> (timer_id \<times> ('c, 'd) tqueue) result" where
  "runAt ops new_addr zero q time cb = addTimer ops new_addr q cb time zero"

definition runAfter :: "'d double_ops \<Rightarrow> ((addr \<rightharpoonup> ('c, 'd) timer) \<Rightarrow> addr) \<Rightarrow> 'd \<Rightarrow> ('c, 'd) tqueue \<Rightarrow>
    'd \<Rightarrow> 'c \<Rightarrow> (timer_id \<times> ('c, 'd) tqueue) result" where
  "runAfter ops new_addr zero q seconds cb =
     (let (now, q) = read_clock q in
      rbind (addTime ops now seconds) (\<lambda>t. addTimer ops new_addr q cb t zero))"

definition runEvery :: "'d double_ops \<Rightarrow> ((addr \<rightharpoonup> ('c, 'd) timer) \<Rightarrow> addr) \<Rightarrow> ('c, 'd) tqueue \<Rightarrow>
    'd \<Rightarrow> 'c \<Rightarrow> (timer_id \<times> ('c, 'd) tqueue) result" where
  "runEvery ops new_addr q seconds cb =
     (let (now, q) = read_clock q in
      rbind (addTime ops now seconds) (\<lambda>t. addTimer ops new_addr q cb t seconds))"

section \<open>Channels and the kernel's interest list\<close>

definition chans_ok :: "('cb, 'z) loop_scheme \<Rightarrow> bool" where
  "chans_ok l \<longleftrightarrow> poller_ok (chans l) (loop_poller l) \<and>
     (\<forall>a c. chans l a = Some c \<longrightarrow> ch_loop c = loop_this l \<and> (addedToLoop c \<or> ch_index c = kNew))"

abbreviation interest_of :: "('cb, 'z) loop_scheme \<Rightarrow> interest" where
  "interest_of l \<equiv> registered (chans l) (loop_poller l)"

lemma assertInLoopThread_id [simp]: "assertInLoopThread tid l = l"
  by (simp add: assertInLoopThread_def abortNotInLoopThread_def)

text \<open>What a change of a channel's events leaves: the channel itself and the entry of its descriptor.\<close>

definition after_events :: "(event_mask \<Rightarrow> event_mask) \<Rightarrow> 'cb channel \<Rightarrow> 'cb channel" where
  "after_events f c = (let e = f (ch_events c) in
     c\<lparr>ch_events := e, addedToLoop := True,
       ch_index := if ch_index c = kAdded \<and> e = kNoneEvent then kDeleted else kAdded\<rparr>)"

lemma with_events_effect:
  assumes ok: "chans_ok l" and c: "chans l a = Some c"
    and free: "ch_index c = kNew \<Longrightarrow> channel_map (loop_poller l) (ch_fd c) = None"
  shows "\<exists>p. with_events f tid a l = Inr (l\<lparr>chans := (chans l)(a \<mapsto> after_events f c), loop_poller := p\<rparr>) \<and>
    chans_ok (l\<lparr>chans := (chans l)(a \<mapsto> after_events f c), loop_poller := p\<rparr>) \<and>
    registered ((chans l)(a \<mapsto> after_events f c)) p =
      (interest_of l)(ch_fd c := if ch_index c = kAdded \<and> f (ch_events c) = kNoneEvent then None
         else Some (f (ch_events c), a)) \<and>
    channel_map p = (channel_map (loop_poller l))(ch_fd c \<mapsto> a)"
proof -
  let ?c = "c\<lparr>ch_events := f (ch_events c), addedToLoop := True\<rparr>"
  have pok: "poller_ok (chans l) (loop_poller l)" and own: "ch_loop c = loop_this l"
    using ok c by (auto simp: chans_ok_def)
  have after: "after_events f c = setIndex (if ch_index c = kAdded \<and> isNoneEvent ?c then kDeleted else kAdded) ?c"
    by (simp add: after_events_def setIndex_def isNoneEvent_def Let_def)
  obtain m p where u: "ep_updateChannel ((chans l)(a \<mapsto> ?c)) (loop_poller l) a = Inr (m, p)" "poller_ok m p"
    "registered m p = (interest_of l)(ch_fd c := if ch_index c = kAdded \<and> isNoneEvent ?c then None else Some (ch_events ?c, a))"
    "m = (chans l)(a \<mapsto> after_events f c)" "channel_map p = (channel_map (loop_poller l))(ch_fd c \<mapsto> a)"
    using update_registers [OF pok c, of ?c] free unfolding after by auto
  have "with_events f tid a l = Inr (l\<lparr>chans := m, loop_poller := p\<rparr>)"
    using c own u(1) by (simp add: with_events_def Channel_update_def loop_updateChannel_def)
  moreover have "chans_ok (l\<lparr>chans := m, loop_poller := p\<rparr>)"
    using ok c u(2) unfolding u(4) by (auto simp: chans_ok_def after_events_def Let_def)
  ultimately show ?thesis using u by (auto simp: isNoneEvent_def)
qed

text \<open>Enabling or disabling events puts exactly the new events of the descriptor into the kernel's
  interest list, or takes the descriptor out when no event is left, and leaves all other
  descriptors as they are. It fails only if the channel is new and its descriptor is taken. If no
  event is left and the descriptor was already out (disableAll called twice), it is put in again
  with an empty mask, so that hang-ups and errors are reported for it again.\<close>

theorem events_effect:
  assumes "chans_ok l" "chans l a = Some c" "ch_index c = kNew \<Longrightarrow> channel_map (loop_poller l) (ch_fd c) = None"
  shows "\<exists>l'. with_events f tid a l = Inr l' \<and> chans_ok l' \<and>
    replay (ep_calls (loop_poller l')) = Some ((interest_of l)(ch_fd c :=
      if ch_index c = kAdded \<and> f (ch_events c) = kNoneEvent then None else Some (f (ch_events c), a)))"
  using with_events_effect [OF assms, where f = f and tid = tid] by (force simp: chans_ok_def dest: poller_okD(4))

lemma remove_effect:
  assumes ok: "chans_ok l" and "Channel_remove tid a l = Inr l'"
  shows "\<exists>c. chans l a = Some c \<and> chans_ok l' \<and> interest_of l' = (interest_of l)(ch_fd c := None) \<and>
    chans l' a = Some (c\<lparr>addedToLoop := False, ch_index := kNew\<rparr>)"
proof -
  obtain c where c: "chans l a = Some c" using assms(2) by (auto simp: Channel_remove_def rbind_eq_Inr chan_upd_Inr)
  let ?c = "c\<lparr>addedToLoop := False\<rparr>"
  have pok: "poller_ok (chans l) (loop_poller l)" and own: "ch_loop c = loop_this l"
    using ok c by (auto simp: chans_ok_def)
  have run: "rbind (ep_removeChannel ((chans l)(a \<mapsto> ?c)) (loop_poller l) a) (\<lambda>(m, p). Inr (l\<lparr>chans := m, loop_poller := p\<rparr>)) = Inr l'"
    using assms(2) c own
    by (simp add: Channel_remove_def loop_removeChannel_def)
  then have pre: "channel_map (loop_poller l) (ch_fd c) = Some a" "isNoneEvent ?c"
    by (auto simp: rbind_eq_Inr ep_removeChannel_def Let_def)
  then have "ch_index c \<noteq> kNew" using poller_okD(1) [OF pok pre(1)] c by auto
  from remove_unregisters [OF pok c _ _ this, of ?c] pre(2) obtain m p where
    u: "ep_removeChannel ((chans l)(a \<mapsto> ?c)) (loop_poller l) a = Inr (m, p)" "poller_ok m p"
    "registered m p = (interest_of l)(ch_fd c := None)" "m = (chans l)(a \<mapsto> setIndex kNew ?c)" by auto
  have "l' = l\<lparr>chans := m, loop_poller := p\<rparr>" using run u(1) by simp
  moreover have "chans_ok (l\<lparr>chans := m, loop_poller := p\<rparr>)"
    using ok u(2) c own unfolding u(4) by (auto simp: chans_ok_def setIndex_def)
  ultimately show ?thesis using c u by (simp add: setIndex_def)
qed

lemma dtor_effect:
  assumes ok: "chans_ok l" and "Channel_dtor tid a l = Inr l'"
  shows "chans_ok l' \<and> interest_of l' = interest_of l"
proof -
  obtain c where c: "chans l a = Some c" "\<not> addedToLoop c" "l' = l\<lparr>chans := (chans l)(a := None)\<rparr>"
    using assms(2) by (auto simp: Channel_dtor_def rbind_eq_Inr)
  then have new: "ch_index c = kNew" using ok by (auto simp: chans_ok_def)
  have pok: "poller_ok (chans l) (loop_poller l)" using ok by (simp add: chans_ok_def)
  have unmapped: "channel_map (loop_poller l) fd \<noteq> Some a" for fd
    using poller_okD(1) [OF pok, of fd a] c(1) new by auto
  have reg: "interest_of l' = interest_of l"
    using unmapped by (auto simp: c(3) registered_def fun_eq_iff split: option.splits)
  have "poller_ok (chans l') (loop_poller l')"
    using pok unmapped reg unfolding poller_ok_def c(3) by auto
  then show ?thesis using ok reg by (auto simp: chans_ok_def c(3))
qed

lemma new_effect:
  assumes ok: "chans_ok l" and "chans l a = None"
  shows "chans_ok (new_Channel a fd l) \<and> interest_of (new_Channel a fd l) = interest_of l"
proof -
  have pok: "poller_ok (chans l) (loop_poller l)" using ok by (simp add: chans_ok_def)
  have unmapped: "channel_map (loop_poller l) fd \<noteq> Some a" for fd
    using poller_okD(1) [OF pok, of fd a] assms(2) by auto
  have reg: "interest_of (new_Channel a fd l) = interest_of l"
    using unmapped by (auto simp: new_Channel_def registered_def fun_eq_iff split: option.splits)
  have "poller_ok (chans (new_Channel a fd l)) (loop_poller (new_Channel a fd l))"
    using pok unmapped reg assms(2) unfolding poller_ok_def new_Channel_def
    by (auto simp: Channel_init_def kNew_def)
  then show ?thesis using ok reg by (auto simp: chans_ok_def new_Channel_def Channel_init_def kNew_def)
qed

text \<open>The steps the owners of channels take; a new channel is at an unused address.\<close>

inductive chan_step :: "('cb, 'z) loop_scheme \<Rightarrow> ('cb, 'z) loop_scheme \<Rightarrow> bool" where
  create: "chans l a = None \<Longrightarrow> chan_step l (new_Channel a fd l)"
| events: "with_events f tid a l = Inr l' \<Longrightarrow> chan_step l l'"
| remove: "Channel_remove tid a l = Inr l' \<Longrightarrow> chan_step l l'"
| destroy: "Channel_dtor tid a l = Inr l' \<Longrightarrow> chan_step l l'"

inductive chan_steps :: "('cb, 'z) loop_scheme \<Rightarrow> ('cb, 'z) loop_scheme \<Rightarrow> bool" for l0 where
  start: "chan_steps l0 l0"
| step: "chan_steps l0 l \<Longrightarrow> chan_step l l' \<Longrightarrow> chan_steps l0 l'"

inductive_cases chan_stepE: "chan_step l l'"

lemma with_events_InrD:
  assumes "chans_ok l" "with_events f tid a l = Inr l'"
  shows "chans_ok l'"
proof -
  obtain c where c: "chans l a = Some c" using assms(2) by (auto simp: with_events_def rbind_eq_Inr chan_upd_Inr)
  have "channel_map (loop_poller l) (ch_fd c) = None" if "ch_index c = kNew"
    using assms(2) c that
    by (auto simp: with_events_def Channel_update_def loop_updateChannel_def rbind_eq_Inr ep_updateChannel_def Let_def)
  with with_events_effect [OF assms(1) c, where f = f and tid = tid] assms(2) show ?thesis by auto
qed

lemma chan_step_ok: "chan_step l l' \<Longrightarrow> chans_ok l \<Longrightarrow> chans_ok l'"
  by (elim chan_stepE) (auto dest: new_effect with_events_InrD remove_effect dtor_effect)

lemma chan_steps_ok: "chan_steps l0 l \<Longrightarrow> chans_ok l0 \<Longrightarrow> chans_ok l"
  by (induction rule: chan_steps.induct) (auto dest: chan_step_ok)

lemma init_ok: "EventLoop_init this tid fd a cb = Inr l \<Longrightarrow> chans_ok l"
proof -
  assume run: "EventLoop_init this tid fd a cb = Inr l"
  let ?e = "\<lparr>loop_this = this, looping = False, loop_quit = False, loop_eventHandling = False, iteration = 0,
      threadId = tid, pollReturnTime = 0, chans = Map.empty(a \<mapsto> setReadCallback cb (Channel_init this fd)), loop_poller = EpollPoller_init,
      activeChannels = [], currentActiveChannel = None, wakeupFd = fd, wakeupChannel = a,
      pendingFunctors = [], wakeup_writes = 0, wakeup_reads = 0\<rparr>"
  have "enableReading tid a ?e = Inr l" using run by (simp add: EventLoop_init_def new_Channel_def)
  moreover have "chans_ok ?e"
    unfolding chans_ok_def
    by (auto intro!: poller_ok_init simp: setReadCallback_def Channel_init_def kNew_def split: if_splits)
  ultimately show ?thesis unfolding enableReading_def by (rule with_events_InrD [rotated])
qed

text \<open>C8: Whatever channels are created, enabled, disabled, removed and destroyed, in any order, no call to
  \<open>epoll_ctl\<close> is an error, and the interest list these calls build up is exactly that of the living
  channels marked as added, each with its address and its current events. In particular the kernel
  never holds the address of a channel that is gone.\<close>

theorem epoll_calls_legal:
  assumes "EventLoop_init this tid fd a cb = Inr l0" "chan_steps l0 l"
  shows "\<exists>k. replay (ep_calls (loop_poller l)) = Some k \<and>
    (\<forall>fd e a. k fd = Some (e, a) \<longleftrightarrow>
       (\<exists>c. chans l a = Some c \<and> ch_fd c = fd \<and> ch_index c = kAdded \<and> ch_events c = e))"
proof -
  have "chans_ok l" using chan_steps_ok [OF assms(2) init_ok [OF assms(1)]] .
  then have pok: "poller_ok (chans l) (loop_poller l)" by (simp add: chans_ok_def)
  show ?thesis
    using poller_okD(4) [OF pok] registered_iff [OF pok] by (intro exI [of _ "interest_of l"]) simp
qed

text \<open>A loop with its wakeup channel (descriptor 5, address 100).\<close>

definition ex_loop :: "nat loop" where
  "ex_loop = (case EventLoop_init 1 7 5 100 0 of Inr l \<Rightarrow> l)"

lemma ex_loop_init: "EventLoop_init 1 7 5 100 0 = Inr ex_loop"
  by (simp add: ex_loop_def EventLoop_init_def new_Channel_def setReadCallback_def Channel_init_def enableReading_def
      with_events_def Channel_update_def loop_updateChannel_def ep_updateChannel_def EpollPoller_init_def index_defs
      ep_update_def Let_def)

lemma ex_loop_ok: "chans_ok ex_loop"
  by (rule init_ok [OF ex_loop_init])

lemma ex_loop_state:
  "chans ex_loop = [100 \<mapsto> after_events (\<lambda>e. e OR kReadEvent) (setReadCallback (0 :: nat) (Channel_init 1 5))]"
  "channel_map (loop_poller ex_loop) = [5 \<mapsto> 100]" "loop_this ex_loop = 1"
  by (simp_all add: ex_loop_def EventLoop_init_def new_Channel_def setReadCallback_def Channel_init_def enableReading_def
      with_events_def Channel_update_def loop_updateChannel_def ep_updateChannel_def EpollPoller_init_def index_defs
      ep_update_def after_events_def setIndex_def Let_def)

lemma events_effect_witness:
  "\<exists>l'. with_events (\<lambda>_. kNoneEvent) 7 100 ex_loop = Inr l' \<and> replay (ep_calls (loop_poller l')) = Some Map.empty"
proof -
  let ?c = "after_events (\<lambda>e. e OR kReadEvent) (setReadCallback (0 :: nat) (Channel_init 1 5))"
  have c: "chans ex_loop 100 = Some ?c" by (simp add: ex_loop_state)
  have idx: "ch_index ?c = kAdded" "ch_fd ?c = 5"
    by (simp_all add: after_events_def setReadCallback_def Channel_init_def event_bits index_defs Let_def)
  have "interest_of ex_loop = [5 \<mapsto> (ch_events ?c, 100)]"
    using idx by (simp add: registered_def ex_loop_state fun_eq_iff)
  then show ?thesis
    using events_effect [OF ex_loop_ok c, where f = "\<lambda>_. kNoneEvent" and tid = 7] idx by (auto simp: kNew_def kAdded_def)
qed

lemma epoll_calls_legal_witness:
  "\<exists>l k. chan_steps ex_loop l \<and> replay (ep_calls (loop_poller l)) = Some k \<and> k 9 = Some (kWriteEvent, 200)"
proof -
  let ?l = "new_Channel 200 9 ex_loop" and ?c = "Channel_init 1 9 :: nat channel"
  have s1: "chan_steps ex_loop ?l" by (rule chan_steps.step [OF chan_steps.start]) (simp add: chan_step.create ex_loop_state)
  have c: "chans ?l 200 = Some ?c" "channel_map (loop_poller ?l) 9 = None"
    by (simp_all add: new_Channel_def ex_loop_state)
  obtain p where p: "with_events (\<lambda>_. kWriteEvent) 7 200 ?l =
      Inr (?l\<lparr>chans := (chans ?l)(200 \<mapsto> after_events (\<lambda>_. kWriteEvent) ?c), loop_poller := p\<rparr>)"
    using with_events_effect [OF chan_steps_ok [OF s1 ex_loop_ok] c(1), where f = "\<lambda>_. kWriteEvent" and tid = 7] c(2)
    by (auto simp: Channel_init_def)
  let ?l2 = "?l\<lparr>chans := (chans ?l)(200 \<mapsto> after_events (\<lambda>_. kWriteEvent) ?c), loop_poller := p\<rparr>"
  have s2: "chan_steps ex_loop ?l2" by (rule chan_steps.step [OF s1 chan_step.events [OF p]])
  have "\<exists>c. chans ?l2 200 = Some c \<and> ch_fd c = 9 \<and> ch_index c = kAdded \<and> ch_events c = kWriteEvent"
    by (simp add: after_events_def Channel_init_def index_defs Let_def)
  then show ?thesis using epoll_calls_legal [OF ex_loop_init s2] s2 by blast
qed

end
