(* ===== verification/TimerLoop.thy ===== *)
theory TimerLoop
  imports TimerCorrect EventLoop
begin

text \<open>
  The timer queue of \<open>muduo/net/TimerQueue.cc\<close> in its loop (\<open>EventLoop.cc\<close>): the channel of the timer descriptor, whose
  read callback is \<open>TimerQueue::handleRead\<close>, and \<open>cancel\<close>, which from another thread is a functor the loop runs after
  the events of its next round. A cancellation in the loop's thread works; one from another thread may come
  when the timer has fired and is freed.
\<close>

section \<open>The queue in the loop\<close>

text \<open>What the loop calls: the read callbacks of its two own channels and the functor of \<open>cancel\<close>.\<close>

datatype loop_call = LoopHandleRead | TimerHandleRead | CancelTimer timer_id

record ('c, 'd) timer_loop = "loop_call loop" +
  tl_queue :: "('c, 'd) tqueue"
  tl_timerfd :: int
  tl_channel :: addr

text \<open>The constructor, with the timer descriptor \<open>createTimerfd\<close> returned and the address of the channel.\<close>

definition TimerQueue_construct :: "(nat \<Rightarrow> timestamp) \<Rightarrow> int \<Rightarrow> addr \<Rightarrow> int \<Rightarrow> ('c, 'd) timer_loop \<Rightarrow> ('c, 'd) timer_loop result" where
  "TimerQueue_construct clock fd a tid l =
     (let l = new_Channel a fd (l\<lparr>tl_queue := TimerQueue_init clock, tl_timerfd := fd, tl_channel := a\<rparr>)
      in rbind (chan_upd (chans l) a (setReadCallback TimerHandleRead)) (\<lambda>m.
         enableReading tid a (l\<lparr>chans := m\<rparr>)))"

fun timer_call :: "'d double_ops \<Rightarrow> ((addr \<rightharpoonup> ('c, 'd) timer) \<Rightarrow> addr) \<Rightarrow> ('c \<Rightarrow> ('c, 'd) tq_call list) \<Rightarrow>
    loop_call \<Rightarrow> ('c, 'd) timer_loop \<Rightarrow> ('c, 'd) timer_loop result" where
  "timer_call ops new_addr act LoopHandleRead l = Inr (loop_handleRead l)"
| "timer_call ops new_addr act TimerHandleRead l =
     rbind (handleRead ops new_addr act (tl_queue l)) (\<lambda>q. Inr (l\<lparr>tl_queue := q\<rparr>))"
| "timer_call ops new_addr act (CancelTimer i) l =
     rbind (cancelInLoop (tl_queue l) i) (\<lambda>q. Inr (l\<lparr>tl_queue := q\<rparr>))"

definition TimerQueue_cancel :: "(loop_call \<Rightarrow> ('c, 'd) timer_loop \<Rightarrow> ('c, 'd) timer_loop result) \<Rightarrow> int \<Rightarrow> timer_id \<Rightarrow>
    ('c, 'd) timer_loop \<Rightarrow> ('c, 'd) timer_loop result" where
  "TimerQueue_cancel call tid i l = runInLoop call tid (CancelTimer i) l"

definition EventLoop_cancel :: "(loop_call \<Rightarrow> ('c, 'd) timer_loop \<Rightarrow> ('c, 'd) timer_loop result) \<Rightarrow> int \<Rightarrow> timer_id \<Rightarrow>
    ('c, 'd) timer_loop \<Rightarrow> ('c, 'd) timer_loop result" where
  "EventLoop_cancel call tid i l = TimerQueue_cancel call tid i l"

section \<open>A round of the loop\<close>

text \<open>The two channels, with their callbacks.\<close>

definition own_channels :: "('c, 'd) timer_loop \<Rightarrow> bool" where
  "own_channels l \<longleftrightarrow> tl_channel l \<noteq> wakeupChannel l \<and>
     (\<exists>c. chans l (tl_channel l) = Some c \<and> readCallback c = Some TimerHandleRead) \<and>
     (\<exists>c. chans l (wakeupChannel l) = Some c \<and> readCallback c = Some LoopHandleRead)"

text \<open>A readable channel whose callback leaves the channels alone.\<close>

lemma handleEvent_readable:
  assumes "chans l a = Some c" "ch_revents c = POLLIN" "readCallback c = Some cb"
    and "call cb (l\<lparr>chans := (chans l)(a \<mapsto> c\<lparr>ch_eventHandling := True\<rparr>)\<rparr>) = Inr l'"
    and "chans l' = (chans l)(a \<mapsto> c\<lparr>ch_eventHandling := True\<rparr>)"
  shows "handleEvent chans (\<lambda>m. chans_update (\<lambda>_. m)) call a l = Inr (l'\<lparr>chans := (chans l)(a \<mapsto> c\<lparr>ch_eventHandling := False\<rparr>)\<rparr>)"
  using assms by (simp add: handleEvent_def handleEventWithGuard_def dispatch_def has_event_def event_bits)

lemma timer_round:
  assumes own: "own_channels l" and run: "handleRead ops new_addr act (tl_queue l) = Inr q'"
  obtains l' where "loop_body (timer_call ops new_addr act) (Inr [(POLLIN, tl_channel l), (POLLIN, wakeupChannel l)], t) l =
      doPendingFunctors (timer_call ops new_addr act) l'" "tl_queue l' = q'" "pendingFunctors l' = pendingFunctors l"
proof -
  let ?call = "timer_call ops new_addr act" and ?a = "tl_channel l" and ?b = "wakeupChannel l"
  obtain c d where c: "chans l ?a = Some c" "readCallback c = Some TimerHandleRead"
    and d: "chans l ?b = Some d" "readCallback d = Some LoopHandleRead" and ne: "?a \<noteq> ?b"
    using own by (auto simp: own_channels_def)
  let ?c = "setRevents POLLIN c" and ?d = "setRevents POLLIN d"
  let ?m = "(chans l)(?a \<mapsto> ?c, ?b \<mapsto> ?d)"
  obtain p where p: "ep_poll (chans l) (loop_poller l) (Inr [(POLLIN, ?a), (POLLIN, ?b)]) [] = Inr (?m, p, [?a, ?b])"
    using c(1) d(1) ne by (auto simp: ep_poll_def)
  let ?l1 = "l\<lparr>iteration := iteration l + 1, chans := ?m, loop_poller := p, activeChannels := [?a, ?b], pollReturnTime := t,
    loop_eventHandling := True, currentActiveChannel := Some ?a\<rparr>"
  have ev: "ch_revents ?c = POLLIN" "readCallback ?c = Some TimerHandleRead" "ch_revents ?d = POLLIN" "readCallback ?d = Some LoopHandleRead"
    using c(2) d(2) by (simp_all add: setRevents_def)
  have m: "chans ?l1 ?a = Some ?c" "chans ?l1 ?b = Some ?d" using ne by simp_all
  let ?l2 = "?l1\<lparr>chans := (chans ?l1)(?a \<mapsto> ?c\<lparr>ch_eventHandling := False\<rparr>), tl_queue := q'\<rparr>"
  have one: "handleEvent chans (\<lambda>m. chans_update (\<lambda>_. m)) ?call ?a ?l1 = Inr ?l2"
    by (subst handleEvent_readable [OF m(1) ev(1,2), where l' = "?l1\<lparr>chans := (chans ?l1)(?a \<mapsto> ?c\<lparr>ch_eventHandling := True\<rparr>), tl_queue := q'\<rparr>"])
      (use run in simp_all)
  let ?l3 = "?l2\<lparr>currentActiveChannel := Some ?b\<rparr>"
  let ?l4 = "(loop_handleRead ?l3)\<lparr>chans := (chans ?l3)(?b \<mapsto> ?d\<lparr>ch_eventHandling := False\<rparr>)\<rparr>"
  have m3: "chans ?l3 ?b = Some ?d" using ne by simp
  have two: "handleEvent chans (\<lambda>m. chans_update (\<lambda>_. m)) ?call ?b ?l3 = Inr ?l4"
    by (subst handleEvent_readable [OF m3 ev(3,4), where l' = "loop_handleRead (?l3\<lparr>chans := (chans ?l3)(?b \<mapsto> ?d\<lparr>ch_eventHandling := True\<rparr>)\<rparr>)"])
      (simp_all add: loop_handleRead_def)
  let ?l5 = "?l4\<lparr>currentActiveChannel := None, loop_eventHandling := False\<rparr>"
  have "handle_active ?call [?a, ?b] (?l1\<lparr>currentActiveChannel := currentActiveChannel l\<rparr>) = Inr ?l4"
    using one two by simp
  then have "loop_body ?call (Inr [(POLLIN, ?a), (POLLIN, ?b)], t) l = doPendingFunctors ?call ?l5"
    using p by (simp add: loop_body_def Let_def)
  then show ?thesis by (rule that) (simp_all add: loop_handleRead_def)
qed

section \<open>Cancelling from two threads\<close>

text \<open>C31: A one-shot timer is pending, and due when the loop reads the clock next. In the loop's thread \<open>cancel\<close> marks it
  as cancelled. From another thread the same call queues a functor and wakes the loop up; the loop
  serves the timer first, which frees it, and then runs the functor, which writes to the freed timer.\<close>

theorem cancel_races_with_expiry:
  assumes "tq_inv (k + batch_adds act (tq_mem (tl_queue l))
      (due_entries (tq_clock (tl_queue l) (tq_reads (tl_queue l))) (heap_mset (tq_heap (tl_queue l))))) [] (tl_queue l)"
    and "fresh_addr new_addr" "handleRead ops new_addr act (tl_queue l) = Inr q'"
    and "e \<in># heap_mset (tq_heap (tl_queue l))" "expiration e \<le> tq_clock (tl_queue l) (tq_reads (tl_queue l))"
    and "tq_mem (tl_queue l) (entry_timer e) = Some t" "\<not> timer_repeat t" "id_timer i = entry_timer e"
    and "own_channels l" "pendingFunctors l = []" "tid \<noteq> threadId l"
  shows "(\<exists>l1. EventLoop_cancel (timer_call ops new_addr act) (threadId l) i l = Inr l1 \<and>
      tq_mem (tl_queue l1) (entry_timer e) = Some (timer_cancel t)) \<and>
    (\<exists>l1. EventLoop_cancel (timer_call ops new_addr act) tid i l = Inr l1 \<and> wakeup_writes l1 = Suc (wakeup_writes l) \<and>
      loop_body (timer_call ops new_addr act) (Inr [(POLLIN, tl_channel l), (POLLIN, wakeupChannel l)], now) l1 = Inl UseAfterFree)"
proof -
  let ?call = "timer_call ops new_addr act"
  have nz: "entry_timer e \<noteq> 0" using tq_invD(7) [OF assms(1), of "entry_timer e"] assms(6) by blast
  have "tq_mem q' (entry_timer e) = None" by (rule handleRead_frees [OF assms(1-7)])
  then have freed: "cancelInLoop q' i = Inl UseAfterFree" using assms(8) nz by (simp add: cancelInLoop_def deref_def)
  let ?l1 = "l\<lparr>pendingFunctors := [CancelTimer i], wakeup_writes := Suc (wakeup_writes l)\<rparr>"
  have queued: "EventLoop_cancel ?call tid i l = Inr ?l1"
    using assms(10,11) by (simp add: EventLoop_cancel_def TimerQueue_cancel_def runInLoop_def queueInLoop_def isInLoopThread_def loop_wakeup_def)
  have "own_channels ?l1" "handleRead ops new_addr act (tl_queue ?l1) = Inr q'" using assms(3,9) by (simp_all add: own_channels_def)
  from timer_round [OF this, of now] obtain l' where l': "tl_queue l' = q'" "pendingFunctors l' = [CancelTimer i]"
    "loop_body ?call (Inr [(POLLIN, tl_channel l), (POLLIN, wakeupChannel l)], now) ?l1 = doPendingFunctors ?call l'" by auto
  then have "loop_body ?call (Inr [(POLLIN, tl_channel l), (POLLIN, wakeupChannel l)], now) ?l1 = Inl UseAfterFree"
    using freed by (simp add: doPendingFunctors_def)
  moreover have "\<exists>l1. EventLoop_cancel ?call (threadId l) i l = Inr l1 \<and> tq_mem (tl_queue l1) (entry_timer e) = Some (timer_cancel t)"
    using assms(6,8) by (simp add: EventLoop_cancel_def TimerQueue_cancel_def runInLoop_def isInLoopThread_def cancelInLoop_def deref_def)
  ultimately show ?thesis using queued by auto
qed

text \<open>The queue \<open>ex_queue\<close> in a loop of thread 7; thread 8 cancels the second timer.\<close>

definition ex_timer_loop :: "(nat, int) timer_loop" where
  "ex_timer_loop = loop.extend
     \<lparr>loop_this = 1, looping = True, loop_quit = False, loop_eventHandling = False, iteration = 0, threadId = 7, pollReturnTime = 0,
      chans = [100 \<mapsto> setReadCallback LoopHandleRead (Channel_init 1 5), 200 \<mapsto> setReadCallback TimerHandleRead (Channel_init 1 6)],
      loop_poller = EpollPoller_init, activeChannels = [], currentActiveChannel = None, wakeupFd = 5, wakeupChannel = 100,
      pendingFunctors = [], wakeup_writes = 0, wakeup_reads = 0\<rparr> (timer_loop.fields ex_queue 6 200)"

lemma ex_timer_loop_state:
  "tl_queue ex_timer_loop = ex_queue" "tl_channel ex_timer_loop = 200" "wakeupChannel ex_timer_loop = 100" "threadId ex_timer_loop = 7"
  "pendingFunctors ex_timer_loop = []" "own_channels ex_timer_loop"
  by (simp_all add: ex_timer_loop_def timer_loop.defs loop.defs own_channels_def setReadCallback_def)

lemma cancel_races_with_expiry_witness:
  "\<exists>l1. EventLoop_cancel (timer_call ex_ops ex_new (\<lambda>_. [])) 8 (TimerId_init 2 2) ex_timer_loop = Inr l1 \<and>
     loop_body (timer_call ex_ops ex_new (\<lambda>_. [])) (Inr [(POLLIN, 200), (POLLIN, 100)], 0) l1 = Inl UseAfterFree"
proof -
  have inv: "tq_inv (0 + batch_adds (\<lambda>_ :: nat. [] :: (nat, int) tq_call list) (tq_mem ex_queue)
      (due_entries (tq_clock ex_queue (tq_reads ex_queue)) (heap_mset (tq_heap ex_queue)))) [] ex_queue"
    by (rule ex_inv) (unfold ex_due, simp add: batch_adds_def ex_queue_def ex_timer_def)
  have "case handleRead ex_ops ex_new (\<lambda>_. []) ex_queue of Inl e \<Rightarrow> False | Inr q' \<Rightarrow> True" by code_simp
  then obtain q' where q': "handleRead ex_ops ex_new (\<lambda>_. []) ex_queue = Inr q'" by (auto split: sum.splits)
  have e: "Entry 6000000 2 \<in># heap_mset (tq_heap ex_queue)" "expiration (Entry 6000000 2) \<le> tq_clock ex_queue (tq_reads ex_queue)"
    unfolding ex_pending by (simp_all add: ex_queue_def)
  have t: "tq_mem ex_queue (entry_timer (Entry 6000000 2)) = Some (ex_timer 1 6000000 0 2)" "\<not> timer_repeat (ex_timer 1 6000000 0 2)"
    "id_timer (TimerId_init 2 2) = entry_timer (Entry 6000000 2)"
    by (simp_all add: ex_queue_def TimerId_init_def) code_simp
  note state = ex_timer_loop_state
  show ?thesis
    using cancel_races_with_expiry [of 0 "\<lambda>_. []" ex_timer_loop ex_new ex_ops q' "Entry 6000000 2" _ "TimerId_init 2 2" 8 0, unfolded state(1-5),
        OF inv ex_new_fresh q' e t state(6)] by auto
qed

end
