(* ===== verification/Buffer.thy ===== *)
theory Buffer
  imports Prelude
begin

text \<open>
  \<open>muduo/net/Buffer.h\<close>, \<open>Buffer.cc\<close>: the byte buffer every connection reads into and
  writes from. One \<open>std::vector<char>\<close> (\<open>store\<close>) and two indices into it: the bytes
  between \<open>readIndex\<close> and \<open>writeIndex\<close> are the readable ones. A pointer into the buffer
  is its index into \<open>store\<close>.
  Contents: the record and its operations; the invariant \<open>buf_ok\<close>; the refinement of a byte
  queue (\<open>content\<close>); the interface \<open>byte_queue\<close> the HTTP and connection code relies on, and
  its interpretation on this model.
\<close>

section \<open>State and operations\<close>

definition kCheapPrepend :: nat where "kCheapPrepend = 8"
definition kInitSize :: nat where "kInitSize = 1024"
definition kCRLF :: string where "kCRLF = [CHR 0x0D, CHR 0x0A]"
definition NUL :: char where "NUL = CHR 0x00"

record buf =
  store :: string
  readIndex :: nat
  writeIndex :: nat

definition Buffer_init :: "nat \<Rightarrow> buf" where
  "Buffer_init initSize =
     \<lparr>store = replicate initSize NUL, readIndex = kCheapPrepend, writeIndex = kCheapPrepend\<rparr>"

definition readableBytes :: "buf \<Rightarrow> nat" where
  "readableBytes b = sz_sub (writeIndex b) (readIndex b)"

definition writableBytes :: "buf \<Rightarrow> nat" where
  "writableBytes b = sz_sub (length (store b)) (writeIndex b)"

definition prependableBytes :: "buf \<Rightarrow> nat" where
  "prependableBytes b = readIndex b"

definition peek :: "buf \<Rightarrow> nat" where
  "peek b = readIndex b"

definition beginWrite :: "buf \<Rightarrow> nat" where
  "beginWrite b = writeIndex b"

text \<open>Reading the bytes between two pointers: the range must lie inside the vector.\<close>

definition read_range :: "buf \<Rightarrow> nat \<Rightarrow> nat \<Rightarrow> string result" where
  "read_range b p q =
     (if p \<le> q \<and> q \<le> length (store b) then Inr (take (q - p) (drop p (store b)))
      else Inl OutOfBounds)"

definition retrieve :: "buf \<Rightarrow> nat \<Rightarrow> buf" where
  "retrieve b len =
     (if len \<le> readableBytes b then b\<lparr>readIndex := readIndex b + len\<rparr>
      else b\<lparr>readIndex := readIndex b + readableBytes b\<rparr>)"

definition retrieveAll :: "buf \<Rightarrow> buf" where
  "retrieveAll b = b\<lparr>readIndex := readIndex b + readableBytes b\<rparr>"

definition retrieveAsString :: "buf \<Rightarrow> nat \<Rightarrow> (string \<times> buf) result" where
  "retrieveAsString b len =
     rbind (assert_ok (len \<le> readableBytes b)) (\<lambda>_.
     rbind (read_range b (peek b) (peek b + len)) (\<lambda>s.
     Inr (s, retrieve b len)))"

definition retrieveAllAsString :: "buf \<Rightarrow> (string \<times> buf) result" where
  "retrieveAllAsString b = retrieveAsString b (readableBytes b)"

text \<open>\<open>std::vector::resize\<close>: shorter, or longer with value-initialised bytes.\<close>

definition vec_resize :: "nat \<Rightarrow> string \<Rightarrow> string result" where
  "vec_resize n v =
     (if vec_max_size < n then Inl LengthError
      else Inr (take n v @ replicate (n - length v) NUL))"

text \<open>\<open>std::copy\<close> of the characters \<open>data\<close> to position \<open>p\<close> of the vector.\<close>

definition copy_at :: "nat \<Rightarrow> string \<Rightarrow> string \<Rightarrow> string result" where
  "copy_at p data v =
     (if p + length data \<le> length v
      then Inr (take p v @ data @ drop (p + length data) v)
      else Inl OutOfBounds)"

definition makeSpace :: "buf \<Rightarrow> nat \<Rightarrow> buf result" where
  "makeSpace b len =
     (if sz_sub (sz_add (writableBytes b) (prependableBytes b)) kCheapPrepend < len
      then rbind (vec_resize (sz_add (writeIndex b) len) (store b)) (\<lambda>v.
           Inr (b\<lparr>store := v\<rparr>))
      else let readable = readableBytes b in
           rbind (read_range b (readIndex b) (writeIndex b)) (\<lambda>moved.
           rbind (copy_at kCheapPrepend moved (store b)) (\<lambda>v.
           Inr (b\<lparr>store := v, readIndex := kCheapPrepend,
                  writeIndex := kCheapPrepend + readable\<rparr>))))"

definition ensureWritableBytes :: "buf \<Rightarrow> nat \<Rightarrow> buf result" where
  "ensureWritableBytes b len =
     (if writableBytes b < len then makeSpace b len else Inr b)"

definition append_buf :: "buf \<Rightarrow> string \<Rightarrow> buf result" where
  "append_buf b data =
     rbind (ensureWritableBytes b (length data)) (\<lambda>b'.
     rbind (copy_at (writeIndex b') data (store b')) (\<lambda>v.
     Inr (b'\<lparr>store := v, writeIndex := writeIndex b' + length data\<rparr>)))"

text \<open>\<open>findCRLF()\<close> returns a pointer to the first CR LF of the readable bytes, or NULL.\<close>

definition findCRLF_from :: "buf \<Rightarrow> nat \<Rightarrow> nat option result" where
  "findCRLF_from b start =
     rbind (assert_ok (peek b \<le> start)) (\<lambda>_.
     rbind (assert_ok (start \<le> beginWrite b)) (\<lambda>_.
     rbind (read_range b start (beginWrite b)) (\<lambda>s.
     let crlf = start + find_sub2 (kCRLF ! 0) (kCRLF ! 1) s in
     Inr (if crlf = beginWrite b then None else Some crlf))))"

definition findCRLF :: "buf \<Rightarrow> nat option result" where
  "findCRLF b =
     rbind (read_range b (peek b) (beginWrite b)) (\<lambda>s.
     let crlf = peek b + find_sub2 (kCRLF ! 0) (kCRLF ! 1) s in
     Inr (if crlf = beginWrite b then None else Some crlf))"

text \<open>
  \<open>readFd\<close> offers the kernel the writable part of the vector and, when that is smaller
  than 65536 bytes, a 65536-byte array on the stack. The argument is what \<open>readv\<close> did: an
  error number, or the bytes it delivered, which fill the first area before the second.
  The result is \<open>readFd\<close>'s \<open>ssize_t\<close>, the \<open>savedErrno\<close> it stores if any, and the buffer.
\<close>

definition extrabuf_size :: nat where "extrabuf_size = 65536"

definition readv_room :: "buf \<Rightarrow> nat" where
  "readv_room b =
     (if writableBytes b < extrabuf_size then writableBytes b + extrabuf_size
      else writableBytes b)"

definition readFd :: "buf \<Rightarrow> int + string \<Rightarrow> (int \<times> int option \<times> buf) result" where
  "readFd b r =
     (case r of
        Inl err \<Rightarrow> Inr (-1, Some err, b)
      | Inr got \<Rightarrow>
          let writable = writableBytes b; n = length got in
          rbind (copy_at (writeIndex b) (take writable got) (store b)) (\<lambda>v.
          let b1 = b\<lparr>store := v\<rparr> in
          if n < writableBytes b1
          then Inr (int n, None, b1\<lparr>writeIndex := writeIndex b1 + n\<rparr>)
          else rbind (append_buf (b1\<lparr>writeIndex := length (store b1)\<rparr>) (drop writable got))
                 (\<lambda>b2. Inr (int n, None, b2))))"

section \<open>Invariant and contents\<close>

definition buf_ok :: "buf \<Rightarrow> bool" where
  "buf_ok b \<longleftrightarrow> kCheapPrepend \<le> readIndex b \<and> readIndex b \<le> writeIndex b \<and>
     writeIndex b \<le> length (store b) \<and> length (store b) \<le> vec_max_size"

definition content :: "buf \<Rightarrow> string" where
  "content b = drop (readIndex b) (take (writeIndex b) (store b))"

lemma buf_okD:
  assumes "buf_ok b"
  shows "kCheapPrepend \<le> readIndex b" "readIndex b \<le> writeIndex b"
    "writeIndex b \<le> length (store b)" "length (store b) \<le> vec_max_size"
  using assms by (simp_all add: buf_ok_def)

lemma length_content: "buf_ok b \<Longrightarrow> length (content b) = writeIndex b - readIndex b"
  by (auto simp: content_def buf_ok_def min_def)

lemma readableBytes_ok [simp]: "buf_ok b \<Longrightarrow> readableBytes b = length (content b)"
  by (simp add: readableBytes_def length_content buf_ok_def)

lemma writableBytes_ok: "buf_ok b \<Longrightarrow> writableBytes b = length (store b) - writeIndex b"
  by (simp add: writableBytes_def buf_ok_def)

lemma read_content:
  "buf_ok b \<Longrightarrow> read_range b (readIndex b) (writeIndex b) = Inr (content b)"
  by (simp add: read_range_def buf_ok_def content_def drop_take)

lemma buf_ok_init: "kCheapPrepend \<le> n \<Longrightarrow> n \<le> vec_max_size \<Longrightarrow> buf_ok (Buffer_init n)"
  by (simp add: buf_ok_def Buffer_init_def)

lemma buf_ok_default [simp]: "buf_ok (Buffer_init kInitSize)"
  by (rule buf_ok_init) (simp_all add: kCheapPrepend_def kInitSize_def vec_max_size_def)

lemma content_init [simp]: "content (Buffer_init n) = []"
  by (simp add: content_def Buffer_init_def)

lemma retrieve_le:
  assumes "buf_ok b" and "n \<le> length (content b)"
  shows "buf_ok (retrieve b n)" and "content (retrieve b n) = drop n (content b)"
  using assms by (auto simp: retrieve_def buf_ok_def length_content content_def add.commute)

lemma buf_ok_retrieve: "buf_ok b \<Longrightarrow> buf_ok (retrieve b n)"
  by (cases "n \<le> length (content b)")
    (auto simp: retrieve_le retrieve_def length_content buf_ok_def)

lemma content_retrieve: "buf_ok b \<Longrightarrow> content (retrieve b n) = drop n (content b)"
proof (cases "n \<le> length (content b)")
  case False
  moreover assume "buf_ok b"
  ultimately show ?thesis
    by (simp add: retrieve_def length_content) (simp add: content_def buf_ok_def)
qed (simp add: retrieve_le)

lemma retrieveAll_ok:
  assumes "buf_ok b"
  shows "buf_ok (retrieveAll b)" and "content (retrieveAll b) = []"
  using assms by (auto simp: retrieveAll_def length_content) (auto simp: buf_ok_def content_def)

lemma writeIndex_retrieve [simp]: "writeIndex (retrieve b n) = writeIndex b"
  by (simp add: retrieve_def)

lemma retrieveAsString_ok:
  assumes "buf_ok b" and "n \<le> length (content b)"
  shows "retrieveAsString b n = Inr (take n (content b), retrieve b n)"
proof -
  have "read_range b (peek b) (peek b + n) = Inr (take n (content b))"
    using assms(2) buf_okD [OF assms(1)] length_content [OF assms(1)]
    by (simp add: read_range_def peek_def content_def drop_take min_def)
  then show ?thesis using assms by (simp add: retrieveAsString_def)
qed

section \<open>Appending\<close>

lemma copy_at_fits:
  "p + length d \<le> length v \<Longrightarrow> copy_at p d v = Inr (take p v @ d @ drop (p + length d) v)"
  by (simp add: copy_at_def)

lemma makeSpace_reuse:
  assumes ok: "buf_ok b" and need: "writableBytes b < n"
    and space: "length (content b) + n + kCheapPrepend \<le> length (store b)"
  obtains b' where "makeSpace b n = Inr b'" "buf_ok b'" "content b' = content b"
    "n \<le> writableBytes b'" "length (store b') = length (store b)"
proof -
  note okD = buf_okD [OF ok]
  let ?c = "content b"
  let ?b = "b\<lparr>store := take kCheapPrepend (store b) @ ?c @
                drop (kCheapPrepend + length ?c) (store b),
              readIndex := kCheapPrepend, writeIndex := kCheapPrepend + length ?c\<rparr>"
  have "writableBytes b + prependableBytes b \<le> length (store b)"
    using okD by (simp add: writableBytes_ok ok prependableBytes_def)
  then have lt: "writableBytes b + prependableBytes b < size_t_mod"
    using okD(4) by (meson le_less_trans order_trans vec_max_size_less)
  have fitc: "kCheapPrepend + length ?c \<le> length (store b)"
    using okD by (simp add: length_content ok)
  have "\<not> writableBytes b + prependableBytes b - kCheapPrepend < n"
    using space okD by (simp add: writableBytes_ok length_content ok prependableBytes_def)
  then have "makeSpace b n = Inr ?b"
    using lt okD fitc ok
    by (simp add: makeSpace_def prependableBytes_def read_content copy_at_fits Let_def)
  moreover have "buf_ok ?b" using okD fitc by (simp add: buf_ok_def)
  moreover have "content ?b = ?c" using okD fitc by (simp add: content_def)
  moreover have "n \<le> writableBytes ?b"
    using space fitc by (simp add: writableBytes_def length_content ok)
  ultimately show thesis using fitc by (intro that [of ?b]) simp_all
qed

lemma makeSpace_grow:
  assumes ok: "buf_ok b" and need: "writableBytes b < n"
    and fits: "writeIndex b + n \<le> vec_max_size"
    and space: "\<not> length (content b) + n + kCheapPrepend \<le> length (store b)"
  obtains b' where "makeSpace b n = Inr b'" "buf_ok b'" "content b' = content b"
    "n \<le> writableBytes b'" "writeIndex b' = writeIndex b" "length (store b') = writeIndex b + n"
proof -
  note okD = buf_okD [OF ok]
  let ?b = "b\<lparr>store := take (writeIndex b + n) (store b) @
              replicate (writeIndex b + n - length (store b)) NUL\<rparr>"
  have "writableBytes b + prependableBytes b \<le> length (store b)"
    using okD by (simp add: writableBytes_ok ok prependableBytes_def)
  then have lt: "writableBytes b + prependableBytes b < size_t_mod"
    using okD(4) by (meson le_less_trans order_trans vec_max_size_less)
  have lt2: "writeIndex b + n < size_t_mod" using fits vec_max_size_less by linarith
  have len: "length (store b) < writeIndex b + n"
    using need okD by (simp add: writableBytes_ok ok)
  have "writableBytes b + prependableBytes b - kCheapPrepend < n"
    using space okD by (simp add: writableBytes_ok length_content ok prependableBytes_def)
  then have "makeSpace b n = Inr ?b"
    using lt lt2 okD fits by (simp add: makeSpace_def prependableBytes_def vec_resize_def)
  moreover have "buf_ok ?b" using okD len fits by (simp add: buf_ok_def)
  moreover have "content ?b = content b" using okD len by (simp add: content_def)
  moreover have "n \<le> writableBytes ?b" using len by (simp add: writableBytes_def)
  ultimately show thesis using len by (intro that [of ?b]) simp_all
qed

lemma append_fits:
  assumes ok: "buf_ok b" and room: "length s \<le> writableBytes b"
  shows "\<exists>b'. append_buf b s = Inr b' \<and> buf_ok b' \<and> content b' = content b @ s \<and>
     writeIndex b' = writeIndex b + length s \<and> length (store b') = length (store b)"
proof -
  note okD = buf_okD [OF ok]
  have "writeIndex b + length s \<le> length (store b)"
    using room okD by (simp add: writableBytes_ok ok)
  then show ?thesis using room okD
    by (simp add: append_buf_def ensureWritableBytes_def copy_at_fits buf_ok_def content_def)
qed

lemma append_buf_ok:
  assumes ok: "buf_ok b" and fits: "writeIndex b + length s \<le> vec_max_size"
  shows "\<exists>b'. append_buf b s = Inr b' \<and> buf_ok b' \<and> content b' = content b @ s \<and>
     length (store b') \<le> max (length (store b)) (writeIndex b + length s)"
proof (cases "writableBytes b < length s")
  case True
  obtain b1 where b1: "makeSpace b (length s) = Inr b1" "buf_ok b1" "content b1 = content b"
    "length s \<le> writableBytes b1"
    "length (store b1) \<le> max (length (store b)) (writeIndex b + length s)"
    by (cases "length (content b) + length s + kCheapPrepend \<le> length (store b)")
      (auto elim: makeSpace_reuse [OF ok True] makeSpace_grow [OF ok True fits])
  have "append_buf b s = append_buf b1 s"
    using True b1(1,4) by (simp add: append_buf_def ensureWritableBytes_def)
  with append_fits [OF b1(2,4)] b1 show ?thesis by auto
next
  case False
  with append_fits [OF ok, of s] show ?thesis by auto
qed

lemma append_buf_cost:
  assumes ok: "buf_ok b" and fits: "length (store b) + length s \<le> vec_max_size"
  shows "\<exists>b'. append_buf b s = Inr b' \<and> buf_ok b' \<and> content b' = content b @ s \<and>
     length (store b') \<le> length (store b) + length s"
proof -
  have "writeIndex b + length s \<le> vec_max_size" using fits buf_okD(3) [OF ok] by linarith
  from append_buf_ok [OF ok this] show ?thesis using buf_okD(3) [OF ok] by fastforce
qed

section \<open>Reading from a descriptor\<close>

text \<open>
  The two ways \<open>readFd\<close> returns after a successful \<open>readv\<close>: everything fitted into the
  vector, or the vector is full and the rest is appended from the stack array.
\<close>

lemma readFd_error [simp]: "readFd b (Inl e) = Inr (-1, Some e, b)"
  by (simp add: readFd_def)

lemma readFd_cases:
  assumes ok: "buf_ok b"
  obtains (fits) b' where "readFd b (Inr got) = Inr (int (length got), None, b')" "buf_ok b'" "content b' = content b @ got"
      "length (store b') = length (store b)"
    | (full) full w where "buf_ok full" "content full = content b @ take w got" "length (store full) = length (store b)"
      "readFd b (Inr got) = rbind (append_buf full (drop w got)) (\<lambda>b'. Inr (int (length got), None, b'))"
proof -
  let ?w = "length (store b) - writeIndex b"
  note okD = buf_okD [OF ok]
  let ?b1 = "b\<lparr>store := take (writeIndex b) (store b) @ take ?w got @
               drop (writeIndex b + length (take ?w got)) (store b)\<rparr>"
  have cp: "copy_at (writeIndex b) (take ?w got) (store b) = Inr (store ?b1)"
    using okD by (simp add: copy_at_def)
  have len: "length (store ?b1) = length (store b)" using okD by simp
  have w1: "writableBytes b = ?w" "writableBytes ?b1 = ?w"
    using okD by (simp_all add: writableBytes_def)
  show ?thesis
  proof (cases "length got < ?w")
    case True
    let ?b' = "?b1\<lparr>writeIndex := writeIndex b + length got\<rparr>"
    have "readFd b (Inr got) = Inr (int (length got), None, ?b')"
      using True cp w1 len by (simp add: readFd_def Let_def)
    moreover have "buf_ok ?b'" using True okD by (simp add: buf_ok_def)
    moreover have "content ?b' = content b @ got" using True okD by (simp add: content_def)
    moreover have "length (store ?b') = length (store b)" using okD by simp
    ultimately show ?thesis by (rule fits)
  next
    case False
    let ?full = "?b1\<lparr>writeIndex := length (store ?b1)\<rparr>"
    have "buf_ok ?full" using okD len by (simp add: buf_ok_def)
    moreover have "content ?full = content b @ take ?w got" using False okD by (simp add: content_def)
    moreover have "length (store ?full) = length (store b)" using len by simp
    moreover have "readFd b (Inr got) = rbind (append_buf ?full (drop ?w got)) (\<lambda>b'. Inr (int (length got), None, b'))"
      using False cp w1 len by (simp add: readFd_def Let_def)
    ultimately show ?thesis by (rule full)
  qed
qed

lemma readFd_ok:
  assumes ok: "buf_ok b" and fits: "length (store b) + length got \<le> vec_max_size"
  shows "\<exists>b'. readFd b (Inr got) = Inr (int (length got), None, b') \<and> buf_ok b' \<and>
     content b' = content b @ got \<and> length (store b') \<le> length (store b) + length got"
proof (cases rule: readFd_cases [OF ok, of got])
  case (2 full w)
  then have "length (store full) + length (drop w got) \<le> vec_max_size" using fits by simp
  from append_buf_cost [OF 2(1) this] 2 show ?thesis by fastforce
qed fastforce

section \<open>Searching for CR LF\<close>

abbreviation crlf_pos :: "string \<Rightarrow> nat" where
  "crlf_pos \<equiv> find_sub2 (CHR 0x0D) (CHR 0x0A)"

lemma findCRLF_ok:
  assumes "buf_ok b"
  shows "findCRLF b = Inr (if crlf_pos (content b) = length (content b) then None
     else Some (readIndex b + crlf_pos (content b)))"
  using assms read_content [OF assms] length_content [OF assms] buf_okD(2) [OF assms]
  by (auto simp: findCRLF_def peek_def beginWrite_def kCRLF_def Let_def)

lemma read_upto:
  assumes "buf_ok b" and "n \<le> length (content b)"
  shows "read_range b (readIndex b) (readIndex b + n) = Inr (take n (content b))"
  using assms(2) buf_okD [OF assms(1)] length_content [OF assms(1)]
  by (simp add: read_range_def content_def drop_take min_def)

section \<open>The interface: a byte queue\<close>

text \<open>
  What the users of a buffer rely on. \<open>cost\<close> is the size of the vector; as long as the bytes still to be written fit below the
  vector's maximal size, \<open>put\<close> succeeds and appends.
\<close>

locale byte_queue =
  fixes ok :: "'b \<Rightarrow> bool"
    and bytes_of :: "'b \<Rightarrow> string"
    and cost :: "'b \<Rightarrow> nat"
    and put :: "'b \<Rightarrow> string \<Rightarrow> 'b result"
    and discard :: "'b \<Rightarrow> nat \<Rightarrow> 'b"
  assumes put_ok: "ok b \<Longrightarrow> cost b + length s \<le> vec_max_size \<Longrightarrow>
      \<exists>b'. put b s = Inr b' \<and> ok b' \<and> bytes_of b' = bytes_of b @ s \<and> cost b' \<le> cost b + length s"
    and discard_ok: "ok b \<Longrightarrow> ok (discard b n)"
    and discard_bytes: "ok b \<Longrightarrow> bytes_of (discard b n) = drop n (bytes_of b)"
    and discard_cost: "cost (discard b n) = cost b"

fun put_all :: "('b \<Rightarrow> string \<Rightarrow> 'b result) \<Rightarrow> 'b \<Rightarrow> string list \<Rightarrow> 'b result" where
  "put_all put b [] = Inr b"
| "put_all put b (s # ss) = rbind (put b s) (\<lambda>b'. put_all put b' ss)"

lemma put_all_append:
  "put_all put b (xs @ ys) = rbind (put_all put b xs) (\<lambda>b'. put_all put b' ys)"
  by (induction xs arbitrary: b) (auto simp: rbind_assoc)

context byte_queue begin

lemma put_all_ok:
  "ok b \<Longrightarrow> cost b + length (concat ss) \<le> vec_max_size \<Longrightarrow>
   \<exists>b'. put_all put b ss = Inr b' \<and> ok b' \<and> bytes_of b' = bytes_of b @ concat ss \<and>
     cost b' \<le> cost b + length (concat ss)"
proof (induction ss arbitrary: b)
  case Nil
  then show ?case by simp
next
  case (Cons s ss)
  from Cons.prems put_ok [of b s] obtain b1 where b1: "put b s = Inr b1" "ok b1"
    "bytes_of b1 = bytes_of b @ s" "cost b1 \<le> cost b + length s" by auto
  with Cons.IH [of b1] Cons.prems show ?case by fastforce
qed

text \<open>First in, first out: what is put behind the current bytes comes out after them.\<close>

lemma put_then_discard:
  assumes "ok b" and "cost b + length s \<le> vec_max_size"
  shows "\<exists>b'. put b s = Inr b' \<and> bytes_of (discard b' (length (bytes_of b))) = s"
proof -
  from put_ok [OF assms] obtain b' where
    "put b s = Inr b'" "ok b'" "bytes_of b' = bytes_of b @ s" by blast
  then show ?thesis by (auto simp: discard_bytes)
qed

end

lemma store_retrieve [simp]: "store (retrieve b n) = store b"
  by (simp add: retrieve_def)

interpretation bq: byte_queue buf_ok content "\<lambda>b. length (store b)" append_buf retrieve
  by unfold_locales (simp_all add: append_buf_cost buf_ok_retrieve content_retrieve)

lemma retrieve_store: "store (retrieve b n) = store b" "store (retrieveAll b) = store b"
  by (simp_all add: retrieve_def retrieveAll_def)

section \<open>Runs of operations\<close>

text \<open>
  A client's use of a buffer as a list of calls, run on the vector (\<open>buf_run\<close>) and on a
  plain string (\<open>queue_run\<close>), with the strings the calls return.
\<close>

datatype buf_op =
    OpAppend string
  | OpRetrieve nat
  | OpRetrieveAll
  | OpRetrieveAsString nat
  | OpReadFd string

fun buf_step :: "buf \<Rightarrow> buf_op \<Rightarrow> (string \<times> buf) result" where
  "buf_step b (OpAppend s) = rbind (append_buf b s) (\<lambda>b'. Inr ([], b'))"
| "buf_step b (OpRetrieve n) = Inr ([], retrieve b n)"
| "buf_step b OpRetrieveAll = Inr ([], retrieveAll b)"
| "buf_step b (OpRetrieveAsString n) = retrieveAsString b n"
| "buf_step b (OpReadFd got) = rbind (readFd b (Inr got)) (\<lambda>(n, err, b'). Inr ([], b'))"

fun queue_step :: "string \<Rightarrow> buf_op \<Rightarrow> (string \<times> string) result" where
  "queue_step q (OpAppend s) = Inr ([], q @ s)"
| "queue_step q (OpRetrieve n) = Inr ([], drop n q)"
| "queue_step q OpRetrieveAll = Inr ([], [])"
| "queue_step q (OpRetrieveAsString n) =
     (if n \<le> length q then Inr (take n q, drop n q) else Inl AssertFail)"
| "queue_step q (OpReadFd got) = Inr ([], q @ got)"

fun buf_run :: "buf \<Rightarrow> buf_op list \<Rightarrow> (string \<times> buf) result" where
  "buf_run b [] = Inr ([], b)"
| "buf_run b (x # xs) =
     rbind (buf_step b x) (\<lambda>(out, b'). rbind (buf_run b' xs) (\<lambda>(outs, b''). Inr (out @ outs, b'')))"

fun queue_run :: "string \<Rightarrow> buf_op list \<Rightarrow> (string \<times> string) result" where
  "queue_run q [] = Inr ([], q)"
| "queue_run q (x # xs) =
     rbind (queue_step q x) (\<lambda>(out, q'). rbind (queue_run q' xs) (\<lambda>(outs, q''). Inr (out @ outs, q'')))"

fun op_bytes :: "buf_op \<Rightarrow> nat" where
  "op_bytes (OpAppend s) = length s"
| "op_bytes (OpReadFd s) = length s"
| "op_bytes _ = 0"

abbreviation view_content :: "(string \<times> buf) result \<Rightarrow> (string \<times> string) result" where
  "view_content \<equiv> map_sum id (map_prod id content)"

lemma retrieveAsString_too_long:
  "buf_ok b \<Longrightarrow> \<not> n \<le> length (content b) \<Longrightarrow> retrieveAsString b n = Inl AssertFail"
  by (simp add: retrieveAsString_def)

lemma buf_step_refines:
  assumes ok: "buf_ok b" and fits: "length (store b) + op_bytes x \<le> vec_max_size"
  shows "view_content (buf_step b x) = queue_step (content b) x \<and>
    (\<forall>out b'. buf_step b x = Inr (out, b') \<longrightarrow>
       buf_ok b' \<and> length (store b') \<le> length (store b) + op_bytes x)"
proof (cases x)
  case (OpAppend s)
  with append_buf_cost [OF ok, of s] fits show ?thesis by auto
next
  case (OpReadFd s)
  with readFd_ok [OF ok, of s] fits show ?thesis by auto
next
  case (OpRetrieveAsString n)
  then show ?thesis using ok
    by (cases "n \<le> length (content b)")
      (auto simp: retrieveAsString_ok retrieveAsString_too_long content_retrieve buf_ok_retrieve)
qed (use ok retrieveAll_ok in \<open>auto simp: content_retrieve buf_ok_retrieve retrieveAll_def\<close>)

text \<open>C18: Any run of append, retrieve, retrieveAll, retrieveAsString and readFd calls on a
  buffer returns the same strings, leaves the same bytes and stops at the same failed
  assertion as the run on a plain first-in first-out string, whatever compactions and
  reallocations happen inside, as long as the bytes fit the vector's maximal size.\<close>

theorem buf_run_refines:
  assumes "buf_ok b" and "length (store b) + sum_list (map op_bytes xs) \<le> vec_max_size"
  shows "view_content (buf_run b xs) = queue_run (content b) xs"
  using assms
proof (induction xs arbitrary: b)
  case Nil
  then show ?case by simp
next
  case (Cons x xs)
  from Cons.prems have "length (store b) + op_bytes x \<le> vec_max_size" by simp
  note step = buf_step_refines [OF Cons.prems(1) this]
  show ?case
  proof (cases "buf_step b x")
    case (Inl e)
    with step have "queue_step (content b) x = Inl e" by (metis map_sum.simps(1) id_apply)
    with Inl show ?thesis by simp
  next
    case (Inr r)
    obtain out b' where r: "r = (out, b')" by (cases r)
    with Inr step have q: "queue_step (content b) x = Inr (out, content b')"
      by (metis map_sum.simps(2) map_prod_simp id_apply)
    have "buf_ok b'" "length (store b') + sum_list (map op_bytes xs) \<le> vec_max_size"
      using step Inr r Cons.prems(2) by fastforce+
    from Cons.IH [OF this] have IH: "queue_run (content b') xs = view_content (buf_run b' xs)" ..
    show ?thesis by (cases "buf_run b' xs") (auto simp: Inr r q IH)
  qed
qed

lemma buf_run_refines_witness:
  "view_content (buf_run (Buffer_init 12)
     [OpAppend ''GET /'', OpRetrieve 4, OpReadFd ''index'', OpRetrieveAsString 3])
   = Inr (''/in'', ''dex'')"
  (is "view_content (buf_run ?b ?xs) = _")
proof -
  have "view_content (buf_run ?b ?xs) = queue_run (content ?b) ?xs"
  proof (rule buf_run_refines)
    show "buf_ok ?b" by (rule buf_ok_init) (simp_all add: kCheapPrepend_def vec_max_size_def)
    show "length (store ?b) + sum_list (map op_bytes ?xs) \<le> vec_max_size"
      by (simp add: Buffer_init_def vec_max_size_def)
  qed
  also have "queue_run (content ?b) ?xs = Inr (''/in'', ''dex'')" by simp
  finally show ?thesis .
qed

text \<open>The space in front of the readable bytes is reused: an append never makes the
  vector longer when the readable bytes, the new bytes and the 8 prependable bytes fit into it.\<close>

theorem append_reuses_space:
  assumes "buf_ok b" and "length (content b) + length s + kCheapPrepend \<le> length (store b)"
  shows "\<exists>b'. append_buf b s = Inr b' \<and> length (store b') = length (store b) \<and>
     content b' = content b @ s"
proof (cases "length s \<le> writableBytes b")
  case True
  then show ?thesis using append_fits [OF assms(1)] by blast
next
  case False
  have need: "writableBytes b < length s" using False by simp
  show ?thesis
  proof (rule makeSpace_reuse [OF assms(1) need assms(2)])
    fix b1 assume b1: "makeSpace b (length s) = Inr b1" "buf_ok b1" "content b1 = content b"
      "length s \<le> writableBytes b1" "length (store b1) = length (store b)"
    then have "append_buf b s = append_buf b1 s"
      using need by (simp add: append_buf_def ensureWritableBytes_def)
    with append_fits [OF b1(2,4)] b1 show ?thesis by auto
  qed
qed

lemma append_reuses_space_witness:
  "\<exists>b'. append_buf \<lparr>store = ''________abcd'', readIndex = 11, writeIndex = 12\<rparr> ''xyz'' = Inr b' \<and>
     length (store b') = length ''________abcd'' \<and> content b' = ''dxyz''"
  using append_reuses_space [of "\<lparr>store = ''________abcd'', readIndex = 11, writeIndex = 12\<rparr>" "''xyz''"]
  by (simp add: buf_ok_def content_def kCheapPrepend_def vec_max_size_def)

definition crlf_at :: "string \<Rightarrow> nat \<Rightarrow> bool" where
  "crlf_at s i \<longleftrightarrow> Suc i < length s \<and> s ! i = CHR 0x0D \<and> s ! Suc i = CHR 0x0A"

text \<open>On a well-formed buffer \<open>findCRLF\<close> never reads outside the readable bytes and
  returns the position of the first CR LF among them, or NULL when there is none.\<close>

theorem findCRLF_first:
  assumes "buf_ok b"
  shows "\<exists>r. findCRLF b = Inr r \<and>
    (case r of
       None \<Rightarrow> \<forall>i. \<not> crlf_at (content b) i
     | Some p \<Rightarrow> \<exists>k. p = readIndex b + k \<and> crlf_at (content b) k \<and>
         (\<forall>i<k. \<not> crlf_at (content b) i))"
proof -
  let ?p = "crlf_pos (content b)"
  note first = find_sub2_spec [of "CHR 0x0D" "CHR 0x0A" "content b"]
  show ?thesis
  proof (cases "?p = length (content b)")
    case True
    then show ?thesis using first by (auto simp: findCRLF_ok [OF assms] crlf_at_def)
  next
    case False
    with find_sub2_found [OF False] first show ?thesis
      by (auto simp: findCRLF_ok [OF assms] crlf_at_def)
  qed
qed

lemma findCRLF_first_witness:
  "\<exists>p. findCRLF \<lparr>store = ''________ab'' @ kCRLF @ ''c'' @ kCRLF, readIndex = 8, writeIndex = 15\<rparr>
       = Inr (Some p) \<and> 8 \<le> p"
proof -
  let ?b = "\<lparr>store = ''________ab'' @ kCRLF @ ''c'' @ kCRLF, readIndex = 8, writeIndex = 15\<rparr>"
  have ok: "buf_ok ?b" by (simp add: buf_ok_def kCheapPrepend_def kCRLF_def vec_max_size_def)
  have "content ?b = ''ab'' @ kCRLF @ ''c'' @ kCRLF" by (simp add: content_def kCRLF_def)
  then have at: "crlf_at (content ?b) 2" by (simp add: crlf_at_def kCRLF_def)
  from findCRLF_first [OF ok] obtain r where r: "findCRLF ?b = Inr r"
    "case r of None \<Rightarrow> \<forall>i. \<not> crlf_at (content ?b) i
     | Some p \<Rightarrow> \<exists>k. p = readIndex ?b + k \<and> crlf_at (content ?b) k \<and>
         (\<forall>i<k. \<not> crlf_at (content ?b) i)" by blast
  with at show ?thesis by (cases r) auto
qed

end
