(* ===== verification/BufferBound.thy ===== *)
theory BufferBound
  imports Buffer
begin

text \<open>
  How much memory a \<open>muduo/net/Buffer\<close> takes. \<open>makeSpace\<close> resizes the vector only when the readable bytes, the
  new ones and the prependable ones do not fit into it, so that it stays within twice the largest
  number of bytes that were readable at once, however many went through the buffer.
\<close>

lemma append_bounded:
  assumes ok: "buf_ok b" and small: "2 * (length (content b) + length s) + 7 \<le> vec_max_size"
  shows "\<exists>b'. append_buf b s = Inr b' \<and> buf_ok b' \<and> content b' = content b @ s \<and>
     length (store b') \<le> max (length (store b)) (2 * length (content b @ s) + 7)"
proof (cases "length s \<le> writableBytes b")
  case True
  then show ?thesis using append_fits [OF ok] by fastforce
next
  case False
  then have need: "writableBytes b < length s" by simp
  obtain b1 where b1: "makeSpace b (length s) = Inr b1" "buf_ok b1" "content b1 = content b" "length s \<le> writableBytes b1"
    "length (store b1) \<le> max (length (store b)) (2 * length (content b @ s) + 7)"
  proof (cases "length (content b) + length s + kCheapPrepend \<le> length (store b)")
    case True
    from makeSpace_reuse [OF ok need this] obtain b1 where "makeSpace b (length s) = Inr b1" "buf_ok b1" "content b1 = content b"
      "length s \<le> writableBytes b1" "length (store b1) = length (store b)" .
    then show ?thesis by (intro that [of b1]) simp_all
  next
    case False
    then have short: "writeIndex b + length s \<le> 2 * length (content b @ s) + 7"
      using buf_okD(3) [OF ok] by (simp add: kCheapPrepend_def)
    then have "writeIndex b + length s \<le> vec_max_size" using small by simp
    from makeSpace_grow [OF ok need this False] obtain b1 where "makeSpace b (length s) = Inr b1" "buf_ok b1" "content b1 = content b"
      "length s \<le> writableBytes b1" "length (store b1) = writeIndex b + length s" .
    then show ?thesis using short by (intro that [of b1]) simp_all
  qed
  have "append_buf b s = append_buf b1 s" using need b1(1,4) by (simp add: append_buf_def ensureWritableBytes_def)
  with append_fits [OF b1(2,4)] b1(3,5) show ?thesis by auto
qed

lemma readFd_bounded:
  assumes ok: "buf_ok b" and small: "2 * (length (content b) + length got) + 7 \<le> vec_max_size"
  shows "\<exists>b'. readFd b (Inr got) = Inr (int (length got), None, b') \<and> buf_ok b' \<and> content b' = content b @ got \<and>
     length (store b') \<le> max (length (store b)) (2 * length (content b @ got) + 7)"
proof (cases rule: readFd_cases [OF ok, of got])
  case (2 full w)
  have same: "content full @ drop w got = content b @ got" by (simp add: 2(2))
  then have "length (content full) + length (drop w got) = length (content b) + length got" by (metis length_append)
  then have "2 * (length (content full) + length (drop w got)) + 7 \<le> vec_max_size" using small by simp
  from append_bounded [OF 2(1) this] 2(3,4) same show ?thesis by auto
qed fastforce

text \<open>The most bytes that are in the queue at once.\<close>

fun peak_bytes :: "string \<Rightarrow> buf_op list \<Rightarrow> nat" where
  "peak_bytes q [] = length q"
| "peak_bytes q (x # xs) = (case queue_step q x of Inl e \<Rightarrow> length q | Inr (out, q') \<Rightarrow> max (length q) (peak_bytes q' xs))"

lemma peak_now: "length q \<le> peak_bytes q xs"
  by (cases xs) (auto split: sum.split prod.split)

lemma step_bounded:
  assumes ok: "buf_ok b" and small: "2 * peak_bytes (content b) (x # xs) + 7 \<le> vec_max_size"
  shows "view_content (buf_step b x) = queue_step (content b) x \<and> (\<forall>out b'. buf_step b x = Inr (out, b') \<longrightarrow>
    buf_ok b' \<and> length (store b') \<le> max (length (store b)) (2 * peak_bytes (content b) (x # xs) + 7))"
proof (cases x)
  case (OpAppend s)
  have "length (content b @ s) \<le> peak_bytes (content b) (x # xs)" using peak_now [of "content b @ s" xs] OpAppend by simp
  moreover from this have "2 * (length (content b) + length s) + 7 \<le> vec_max_size" using small by simp
  from append_bounded [OF ok this] obtain b' where "append_buf b s = Inr b'" "buf_ok b'" "content b' = content b @ s"
    "length (store b') \<le> max (length (store b)) (2 * length (content b @ s) + 7)" by blast
  ultimately show ?thesis using OpAppend by auto
next
  case (OpReadFd s)
  have "length (content b @ s) \<le> peak_bytes (content b) (x # xs)" using peak_now [of "content b @ s" xs] OpReadFd by simp
  moreover from this have "2 * (length (content b) + length s) + 7 \<le> vec_max_size" using small by simp
  from readFd_bounded [OF ok this] obtain b' where "readFd b (Inr s) = Inr (int (length s), None, b')" "buf_ok b'"
    "content b' = content b @ s" "length (store b') \<le> max (length (store b)) (2 * length (content b @ s) + 7)" by blast
  ultimately show ?thesis using OpReadFd by auto
next
  case (OpRetrieveAsString n)
  then show ?thesis using ok
    by (cases "n \<le> length (content b)") (auto simp: retrieveAsString_ok retrieveAsString_too_long content_retrieve buf_ok_retrieve retrieve_store)
qed (use ok retrieveAll_ok in \<open>auto simp: content_retrieve buf_ok_retrieve retrieve_store\<close>)

text \<open>C21: The memory of a buffer is bounded by the bytes it holds at once, not by the bytes that go
  through it: any run of its operations does what the run on a plain byte queue does, and at the end
  the vector is no longer than it was at the start or twice the peak of the queue and 7 bytes.\<close>

theorem buffer_memory_bounded:
  assumes "buf_ok b" "2 * peak_bytes (content b) xs + 7 \<le> vec_max_size"
  shows "view_content (buf_run b xs) = queue_run (content b) xs \<and>
    (\<forall>out b'. buf_run b xs = Inr (out, b') \<longrightarrow>
       length (store b') \<le> max (length (store b)) (2 * peak_bytes (content b) xs + 7))"
  using assms
proof (induction xs arbitrary: b)
  case (Cons x xs)
  note step = step_bounded [OF Cons.prems]
  show ?case
  proof (cases "buf_step b x")
    case (Inl e)
    then have "queue_step (content b) x = Inl e" using step by (metis map_sum.simps(1) id_apply)
    with Inl show ?thesis by simp
  next
    case (Inr r)
    obtain out b' where r: "r = (out, b')" by (cases r)
    have q: "queue_step (content b) x = Inr (out, content b')"
      using Inr r step by (metis map_sum.simps(2) map_prod_simp id_apply)
    have b': "buf_ok b'" "length (store b') \<le> max (length (store b)) (2 * peak_bytes (content b) (x # xs) + 7)"
      using step Inr r by blast+
    have peak: "peak_bytes (content b') xs \<le> peak_bytes (content b) (x # xs)" using q by simp
    then have "2 * peak_bytes (content b') xs + 7 \<le> vec_max_size" using Cons.prems(2) by linarith
    from Cons.IH [OF b'(1) this] have IH: "view_content (buf_run b' xs) = queue_run (content b') xs"
      "\<And>outs b2. buf_run b' xs = Inr (outs, b2) \<Longrightarrow> length (store b2) \<le> max (length (store b')) (2 * peak_bytes (content b') xs + 7)"
      by blast+
    have "view_content (buf_run b (x # xs)) = queue_run (content b) (x # xs)"
      by (cases "buf_run b' xs") (auto simp: Inr r q IH(1) [symmetric])
    moreover have "length (store b2) \<le> max (length (store b)) (2 * peak_bytes (content b) (x # xs) + 7)"
      if "buf_run b (x # xs) = Inr (outs, b2)" for outs b2
    proof -
      from that obtain outs' where "buf_run b' xs = Inr (outs', b2)" by (auto simp: Inr r rbind_eq_Inr)
      from IH(2) [OF this] b'(2) peak show ?thesis by linarith
    qed
    ultimately show ?thesis by blast
  qed
qed simp

lemma buffer_memory_bounded_witness:
  "\<exists>out b'. buf_run (Buffer_init 8) (concat (replicate 9 [OpAppend ''hello'', OpRetrieve 5])) = Inr (out, b') \<and>
     length (store b') \<le> 17"
proof -
  let ?xs = "concat (replicate 9 [OpAppend ''hello'', OpRetrieve 5])"
  have ok: "buf_ok (Buffer_init 8)" by (rule buf_ok_init) (simp_all add: kCheapPrepend_def vec_max_size_def)
  have q: "peak_bytes (content (Buffer_init 8)) ?xs = 5" "queue_run (content (Buffer_init 8)) ?xs = Inr ([], [])" by (simp_all add: numeral_eq_Suc)
  then have "2 * peak_bytes (content (Buffer_init 8)) ?xs + 7 \<le> vec_max_size" by (simp add: vec_max_size_def)
  note run = buffer_memory_bounded [OF ok this, unfolded q]
  obtain out b' where r: "buf_run (Buffer_init 8) ?xs = Inr (out, b')"
    using run by (cases "buf_run (Buffer_init 8) ?xs") auto
  with run have "length (store b') \<le> max (length (store (Buffer_init 8))) 17" by auto
  with r show ?thesis by (simp add: Buffer_init_def)
qed

end
