(* ===== verification/JsonValue.thy ===== *)
theory JsonValue
  imports Prelude Decimal "HOL-Library.Word"
begin

text \<open>
  \<open>muduo/base/JsonValue.h\<close>: JSON values, their LL(1) parser, serialisation, \<open>get\<close> and \<open>insert\<close>.
  A \<open>const char*\<close> into the text is the list of characters from it on, the terminating NUL
  included: reading through the empty list is an access behind the string. The parser's loops do
  not end on every text, so they take fuel and \<open>None\<close> means that it ran out. \<open>double\<close> is opaque
  (\<open>'d\<close>); \<open>strtod\<close> and \<open>std::to_string(double)\<close> are arguments. Keys of \<open>insert\<close> are strings: with an
  integer key the template does not compile (it copies a vector of unique pointers).
\<close>

section \<open>Values\<close>

datatype jtype = kInt | kFloat | kString | kHash | kArray | kBool | kNull

text \<open>The anonymous union: the member written last, if any.\<close>

datatype 'd junion = FloatNum 'd | IntNum int | BoolNum bool | Unset

datatype 'd jvalue =
  JsonVal (jtype_of: jtype) (elements: "'d jvalue list") (jstr: string) (jkey: string) (jnum: "'d junion")

definition JsonValue_init :: "'d jvalue" where
  "JsonValue_init = JsonVal kNull [] [] [] Unset"

text \<open>Move assignment takes \<open>intNum_\<close>, that is the union, along; the source becomes null.\<close>

fun json_move :: "'d jvalue \<Rightarrow> 'd jvalue \<times> 'd jvalue" where
  "json_move (JsonVal t es s k n) = (JsonVal t es s k n, JsonVal kNull [] [] [] n)"

fun json_key :: "'d jvalue \<Rightarrow> string" where
  "json_key v = jkey v"

definition json_toInt :: "'d jvalue \<Rightarrow> int result" where
  "json_toInt v = (case jnum v of IntNum i \<Rightarrow> Inr (signed_take_bit 31 i) | _ \<Rightarrow> Inl Uninitialised)"

definition json_toStr :: "'d jvalue \<Rightarrow> string" where "json_toStr v = jstr v"

definition json_toBool :: "'d jvalue \<Rightarrow> bool result" where
  "json_toBool v = (case jnum v of BoolNum b \<Rightarrow> Inr b | _ \<Rightarrow> Inl Uninitialised)"

section \<open>Parser\<close>

definition char_at :: "string \<Rightarrow> char result" where
  "char_at r = (case r of [] \<Rightarrow> Inl OutOfBounds | c # _ \<Rightarrow> Inr c)"

text \<open>\<open>*begin <= 32\<close> on a signed \<open>char\<close>: also the bytes from 128 on.\<close>

definition is_blank :: "char \<Rightarrow> bool" where
  "is_blank c \<longleftrightarrow> c \<noteq> CHR 0x00 \<and> ((of_char c :: nat) \<le> 32 \<or> 128 \<le> (of_char c :: nat))"

fun skipSpace :: "string \<Rightarrow> string result" where
  "skipSpace [] = Inl OutOfBounds"
| "skipSpace (c # r) = (if is_blank c then skipSpace r else Inr (c # r))"

fun string_loop :: "string \<Rightarrow> string \<Rightarrow> (string \<times> string) result" where
  "string_loop out [] = Inl OutOfBounds"
| "string_loop out (c # r) = (if c = CHR ''\"'' then Inr (out, c # r) else string_loop (out @ [c]) r)"

definition json_parseString :: "string \<Rightarrow> (string \<times> string) result" where
  "json_parseString r =
     rbind (char_at r) (\<lambda>c.
     rbind (assert_ok (c = CHR ''\"'')) (\<lambda>_.
     rbind (skipSpace (tl r)) (\<lambda>r1.
     rbind (string_loop [] r1) (\<lambda>(s, r2).
     rbind (skipSpace (tl r2)) (\<lambda>r3. Inr (s, r3))))))"

text \<open>The loop of \<open>parseNumber\<close>: where the number ends and whether a point was seen behind its
  first character.\<close>

fun number_loop :: "string \<Rightarrow> string \<Rightarrow> bool \<Rightarrow> (string \<times> string \<times> bool) result" where
  "number_loop num [] isFloat = Inl OutOfBounds"
| "number_loop num (c # r) isFloat =
     (if is_digit c \<or> c = CHR ''.''
      then (case r of
              [] \<Rightarrow> Inl OutOfBounds
            | d # _ \<Rightarrow> number_loop (num @ [c]) r (isFloat \<or> d = CHR ''.''))
      else Inr (num, c # r, isFloat))"

definition json_parseNumber :: "(string \<Rightarrow> 'd) \<Rightarrow> string \<Rightarrow> ('d junion \<times> bool \<times> string) result" where
  "json_parseNumber strtod r =
     rbind (number_loop [] r False) (\<lambda>(num, r1, isFloat).
     rbind (if isFloat then Inr (FloatNum (strtod r))
            else if nat_of_digits num < 2 ^ 63 then Inr (IntNum (int (nat_of_digits num)))
            else Inl StdOutOfRange) (\<lambda>n.
     rbind (skipSpace r1) (\<lambda>r2. Inr (n, isFloat, r2))))"

text \<open>The fields the parser writes; all others stay as they are.\<close>

fun set_elems :: "jtype \<Rightarrow> 'd jvalue list \<Rightarrow> 'd jvalue \<Rightarrow> 'd jvalue" where
  "set_elems t es (JsonVal _ _ s k n) = JsonVal t es s k n"

fun set_str :: "string \<Rightarrow> 'd jvalue \<Rightarrow> 'd jvalue" where
  "set_str s (JsonVal _ es _ k n) = JsonVal kString es s k n"

fun set_num :: "jtype \<Rightarrow> 'd junion \<Rightarrow> 'd jvalue \<Rightarrow> 'd jvalue" where
  "set_num t n (JsonVal _ es s k _) = JsonVal t es s k n"

fun set_type :: "jtype \<Rightarrow> 'd jvalue \<Rightarrow> 'd jvalue" where
  "set_type t (JsonVal _ es s k n) = JsonVal t es s k n"

fun set_key :: "string \<Rightarrow> 'd jvalue \<Rightarrow> 'd jvalue" where
  "set_key k (JsonVal t es s _ n) = JsonVal t es s k n"

text \<open>Sequencing of steps that may run out of fuel.\<close>

definition fbind :: "'a result option \<Rightarrow> ('a \<Rightarrow> 'b result option) \<Rightarrow> 'b result option" where
  "fbind m f = (case m of None \<Rightarrow> None | Some (Inl e) \<Rightarrow> Some (Inl e) | Some (Inr x) \<Rightarrow> f x)"

abbreviation lift :: "'a result \<Rightarrow> 'a result option" where "lift \<equiv> Some"

lemma fbind_simps [simp]:
  "fbind None f = None" "fbind (Some (Inl e)) f = Some (Inl e)" "fbind (Some (Inr x)) f = f x"
  by (simp_all add: fbind_def)

text \<open>A comma and the blanks behind it, if there is one.\<close>

definition skip_comma :: "string \<Rightarrow> string result" where
  "skip_comma r = rbind (char_at r) (\<lambda>c. if c = CHR '','' then skipSpace (tl r) else Inr r)"

fun json_parseObject :: "(string \<Rightarrow> 'd) \<Rightarrow> nat \<Rightarrow> string \<Rightarrow> 'd jvalue \<Rightarrow> ('d jvalue \<times> string) result option"
and parseHash_loop :: "(string \<Rightarrow> 'd) \<Rightarrow> nat \<Rightarrow> string \<Rightarrow> 'd jvalue list \<Rightarrow> ('d jvalue list \<times> string) result option"
and parseArray_loop :: "(string \<Rightarrow> 'd) \<Rightarrow> nat \<Rightarrow> string \<Rightarrow> 'd jvalue list \<Rightarrow> ('d jvalue list \<times> string) result option"
where
  "json_parseObject strtod 0 r out = None"
| "json_parseObject strtod (Suc n) r out =
     fbind (lift (skipSpace r)) (\<lambda>r.
     fbind (lift (char_at r)) (\<lambda>c.
     fbind (if c = CHR ''{''
            then fbind (lift (skipSpace (tl r))) (\<lambda>r1.
                 fbind (parseHash_loop strtod n r1 []) (\<lambda>(es, r2). Some (Inr (set_elems kHash es out, r2))))
            else if c = CHR ''[''
            then fbind (lift (skipSpace (tl r))) (\<lambda>r1.
                 fbind (parseArray_loop strtod n r1 []) (\<lambda>(es, r2). Some (Inr (set_elems kArray es out, r2))))
            else if c = CHR ''\"''
            then lift (rbind (json_parseString r) (\<lambda>(s, r1). Inr (set_str s out, r1)))
            else if is_digit c
            then lift (rbind (json_parseNumber strtod r) (\<lambda>(num, isFloat, r1).
                   Inr (set_num (if isFloat then kFloat else kInt) num out, r1)))
            else if take 4 r = ''true''
            then lift (rbind (skipSpace (drop 4 r)) (\<lambda>r1. Inr (set_num kBool (BoolNum True) out, r1)))
            else if take 5 r = ''false''
            then lift (rbind (skipSpace (drop 5 r)) (\<lambda>r1. Inr (set_num kBool (BoolNum False) out, r1)))
            else if map tolower (take 4 r) = ''null''
            then Some (Inr (set_type kNull out, r))
            else Some (Inr (out, r))) (\<lambda>(v, r').
     lift (rbind (skipSpace r') (\<lambda>r''. Inr (v, r''))))))"
| "parseHash_loop strtod 0 r es = None"
| "parseHash_loop strtod (Suc n) r es =
     fbind (lift (char_at r)) (\<lambda>c.
     if c = CHR ''}'' then lift (rbind (skipSpace (tl r)) (\<lambda>r'. Inr (es, r')))
     else fbind (lift (assert_ok (c = CHR ''\"''))) (\<lambda>_.
     fbind (lift (json_parseString r)) (\<lambda>(k, r1).
     fbind (lift (char_at r1)) (\<lambda>c1.
     fbind (lift (assert_ok (c1 = CHR '':''))) (\<lambda>_.
     fbind (json_parseObject strtod n (tl r1) (set_key k JsonValue_init)) (\<lambda>(v, r2).
     fbind (lift (skip_comma r2)) (\<lambda>r3. parseHash_loop strtod n r3 (es @ [v]))))))))"
| "parseArray_loop strtod 0 r es = None"
| "parseArray_loop strtod (Suc n) r es =
     fbind (lift (char_at r)) (\<lambda>c.
     if c = CHR '']'' then lift (rbind (skipSpace (tl r)) (\<lambda>r'. Inr (es, r')))
     else fbind (json_parseObject strtod n r JsonValue_init) (\<lambda>(v, r2).
     fbind (lift (skip_comma r2)) (\<lambda>r3. parseArray_loop strtod n r3 (es @ [v]))))"

text \<open>\<open>fromString\<close> parses the characters of the string and its terminating NUL.\<close>

definition fromString :: "(string \<Rightarrow> 'd) \<Rightarrow> nat \<Rightarrow> string \<Rightarrow> 'd jvalue \<Rightarrow> 'd jvalue result option" where
  "fromString strtod n s this =
     fbind (json_parseObject strtod n (s @ [CHR 0x00]) this) (\<lambda>(v, _). Some (Inr v))"

text \<open>\<open>fromFile\<close> reads the characters of the file without white space (\<open>istream_iterator\<close>).\<close>

definition is_space :: "char \<Rightarrow> bool" where
  "is_space c \<longleftrightarrow> c = CHR '' '' \<or> 9 \<le> (of_char c :: nat) \<and> (of_char c :: nat) \<le> 13"

definition fromFile :: "(string \<Rightarrow> 'd) \<Rightarrow> nat \<Rightarrow> string \<Rightarrow> 'd jvalue \<Rightarrow> 'd jvalue result option" where
  "fromFile strtod n contents this = fromString strtod n (filter (\<lambda>c. \<not> is_space c) contents) this"

section \<open>Serialisation\<close>

definition quoted :: "string \<Rightarrow> string" where
  "quoted s = CHR ''\"'' # s @ [CHR ''\"'']"

abbreviation NL :: string where "NL \<equiv> [CHR 0x0A]"
abbreviation TAB :: char where "TAB \<equiv> CHR 0x09"

text \<open>For an empty container \<open>elements_.size() - 1\<close> wraps and \<open>elements_[0]\<close> is read. An item of a hash is
  written with its key.\<close>

fun serialize_impl :: "('d \<Rightarrow> string) \<Rightarrow> nat \<Rightarrow> 'd jvalue \<Rightarrow> string result"
and serialize_items :: "('d \<Rightarrow> string) \<Rightarrow> nat \<Rightarrow> bool \<Rightarrow> 'd jvalue list \<Rightarrow> string result"
where
  "serialize_impl show_float tabNum (JsonVal t es s k n) =
     (let tab = replicate tabNum TAB in
      case t of
        kHash \<Rightarrow> rbind (serialize_items show_float tabNum True es) (\<lambda>items.
          Inr (''{'' @ NL @ items @ NL @ tab @ ''}''))
      | kArray \<Rightarrow> rbind (serialize_items show_float tabNum False es) (\<lambda>items.
          Inr (''['' @ NL @ items @ NL @ tab @ '']''))
      | kInt \<Rightarrow> (case n of IntNum i \<Rightarrow> Inr (show_int i) | _ \<Rightarrow> Inl Uninitialised)
      | kFloat \<Rightarrow> (case n of FloatNum d \<Rightarrow> Inr (show_float d) | _ \<Rightarrow> Inl Uninitialised)
      | kBool \<Rightarrow> (case n of BoolNum b \<Rightarrow> Inr (if b then ''true'' else ''false'') | _ \<Rightarrow> Inl Uninitialised)
      | kString \<Rightarrow> Inr (quoted s)
      | kNull \<Rightarrow> Inr [])"
| "serialize_items show_float tabNum hash [] = Inl OutOfBounds"
| "serialize_items show_float tabNum hash (v # vs) =
     rbind (serialize_impl show_float (tabNum + 1) v) (\<lambda>text.
     let item = replicate tabNum TAB @ TAB # (if hash then quoted (jkey v) @ '':'' else []) @ text in
     if vs = [] then Inr item
     else rbind (serialize_items show_float tabNum hash vs) (\<lambda>rest. Inr (item @ '','' @ NL @ rest)))"

definition serialize :: "('d \<Rightarrow> string) \<Rightarrow> 'd jvalue \<Rightarrow> string result" where
  "serialize show_float v = serialize_impl show_float 0 v"

section \<open>Access and insertion\<close>

datatype json_index = KeyStr string | KeyInt int

text \<open>A negative index converts to a huge unsigned one in \<open>key < elements_.size()\<close>.\<close>

fun getKey :: "json_index \<Rightarrow> 'd jvalue \<Rightarrow> 'd jvalue option" where
  "getKey (KeyInt i) v =
     (if 0 \<le> i \<and> nat i < length (elements v) \<and> jtype_of v = kArray then Some (elements v ! nat i) else None)"
| "getKey (KeyStr k) v =
     (if jtype_of v \<noteq> kHash then None else find (\<lambda>e. jkey e = k) (elements v))"

fun getKeys :: "json_index list \<Rightarrow> 'd jvalue \<Rightarrow> 'd jvalue option" where
  "getKeys [] v = Some v"
| "getKeys (k # ks) v = (case getKey k v of None \<Rightarrow> None | Some w \<Rightarrow> getKeys ks w)"

datatype 'd json_scalar = ScalarInt int | ScalarFloat 'd | ScalarStr string | ScalarBool bool

fun set_scalar :: "'d json_scalar \<Rightarrow> 'd jvalue \<Rightarrow> 'd jvalue" where
  "set_scalar (ScalarInt i) (JsonVal t es s k n) = JsonVal kInt [] s k (IntNum i)"
| "set_scalar (ScalarFloat d) (JsonVal t es s k n) = JsonVal kFloat [] s k (FloatNum d)"
| "set_scalar (ScalarStr x) (JsonVal t es s k n) = JsonVal kString [] x k n"
| "set_scalar (ScalarBool b) (JsonVal t es s k n) = JsonVal kBool [] s k (BoolNum b)"

fun update_first :: "string \<Rightarrow> ('d jvalue \<Rightarrow> 'd jvalue) \<Rightarrow> 'd jvalue list \<Rightarrow> 'd jvalue list" where
  "update_first k f [] = []"
| "update_first k f (e # es) = (if jkey e = k then f e # es else e # update_first k f es)"

text \<open>\<open>set(val, keys...)\<close>: a key that is not found makes the value an object with this one element.\<close>

fun json_set :: "'d json_scalar \<Rightarrow> string list \<Rightarrow> 'd jvalue \<Rightarrow> 'd jvalue" where
  "json_set x [] v = set_scalar x v"
| "json_set x (k # ks) v =
     (case getKey (KeyStr k) v of
        Some _ \<Rightarrow> set_elems kHash (update_first k (\<lambda>e. json_set x ks e) (elements v)) v
      | None \<Rightarrow> set_elems kHash [set_key k (json_set x ks JsonValue_init)] v)"

definition json_key_eq :: "'d jvalue \<Rightarrow> string \<Rightarrow> bool" where
  "json_key_eq v k \<longleftrightarrow> json_key v = k"

definition json_key_neq :: "'d jvalue \<Rightarrow> string \<Rightarrow> bool" where
  "json_key_neq v k \<longleftrightarrow> json_key v \<noteq> k"

text \<open>The public operations.\<close>

definition json_get :: "json_index list \<Rightarrow> 'd jvalue \<Rightarrow> 'd jvalue option" where
  "json_get keys v = getKeys keys v"

definition json_insert :: "'d json_scalar \<Rightarrow> string list \<Rightarrow> 'd jvalue \<Rightarrow> 'd jvalue" where
  "json_insert val keys v = json_set val keys v"

section \<open>Copying and assigning\<close>

text \<open>The move constructor assigns. The copy constructor copies nothing and leaves \<open>type_\<close> as the memory
  was (\<open>junk\<close>); the copy assignment and the assignment of a scalar run off their end, the
  latter after it has changed the value.\<close>

definition json_move_init :: "'d jvalue \<Rightarrow> 'd jvalue \<times> 'd jvalue" where
  "json_move_init v = json_move v"

definition json_copy_init :: "jtype \<Rightarrow> 'd jvalue \<Rightarrow> 'd jvalue" where
  "json_copy_init junk v = JsonVal junk [] [] [] Unset"

definition json_copy :: "'d jvalue \<Rightarrow> 'd jvalue \<Rightarrow> 'd jvalue result" where
  "json_copy v this = Inl MissingReturn"

definition json_assign :: "'d json_scalar \<Rightarrow> 'd jvalue \<Rightarrow> 'd jvalue result" where
  "json_assign val this = (let this = set_scalar val this in Inl MissingReturn)"

text \<open>What \<open>get\<close> and \<open>toInt\<close> and so on see of a scalar.\<close>

fun is_scalar :: "'d json_scalar \<Rightarrow> 'd jvalue \<Rightarrow> bool" where
  "is_scalar (ScalarInt i) v \<longleftrightarrow> jtype_of v = kInt \<and> jnum v = IntNum i \<and> elements v = []"
| "is_scalar (ScalarFloat d) v \<longleftrightarrow> jtype_of v = kFloat \<and> jnum v = FloatNum d \<and> elements v = []"
| "is_scalar (ScalarStr s) v \<longleftrightarrow> jtype_of v = kString \<and> jstr v = s \<and> elements v = []"
| "is_scalar (ScalarBool b) v \<longleftrightarrow> jtype_of v = kBool \<and> jnum v = BoolNum b \<and> elements v = []"

lemma set_fields [simp]:
  "elements (set_elems t es v) = es" "jtype_of (set_elems t es v) = t" "jkey (set_elems t es v) = jkey v"
  "jkey (set_key k v) = k" "elements (set_key k v) = elements v" "jtype_of (set_key k v) = jtype_of v"
  "jstr (set_key k v) = jstr v" "jnum (set_key k v) = jnum v"
  by (cases v; simp)+

lemma jkey_set_scalar [simp]: "jkey (set_scalar x v) = jkey v"
  by (cases x; cases v) simp_all

lemma is_scalar_set: "is_scalar x (set_scalar x v)"
  by (cases x; cases v) simp_all

lemma is_scalar_set_key [simp]: "is_scalar x (set_key k v) = is_scalar x v"
  by (cases x) simp_all

lemma jkey_json_set [simp]: "jkey (json_set x ks v) = jkey v"
  by (cases ks) (auto split: option.splits)

lemma find_update_first:
  "(\<And>e. jkey (f e) = jkey e) \<Longrightarrow> find (\<lambda>e. jkey e = k') (update_first k f es) =
     (if k' = k then map_option f (find (\<lambda>e. jkey e = k) es) else find (\<lambda>e. jkey e = k') es)"
  by (induction es) auto

lemma getKeys_set_key:
  "getKeys ks (set_key k v) = (if ks = [] then Some (set_key k v) else getKeys ks v)"
  by (cases ks; cases "hd ks") auto

lemma get_set:
  "\<exists>w. getKeys (map KeyStr ks) (json_set x ks v) = Some w \<and> is_scalar x w"
proof (induction ks arbitrary: v)
  case Nil
  then show ?case by (simp add: is_scalar_set)
next
  case (Cons k ks)
  show ?case
  proof (cases "getKey (KeyStr k) v")
    case None
    then show ?thesis using Cons.IH [of JsonValue_init]
      by (cases ks) (auto simp: getKeys_set_key is_scalar_set)
  next
    case (Some e)
    then have "find (\<lambda>e. jkey e = k) (elements v) = Some e" by (simp split: if_splits)
    then show ?thesis using Some Cons.IH [of e] by (simp add: find_update_first)
  qed
qed

text \<open>What was inserted under a path of keys is found under this path. Another key of the object
  keeps its value only if the key existed before: inserting under a new key throws all other
  members of the object away.\<close>

theorem insert_get:
  assumes "k' \<noteq> k"
  shows "(\<exists>w. getKeys (map KeyStr (k # ks)) (json_set x (k # ks) v) = Some w \<and> is_scalar x w) \<and>
    getKey (KeyStr k') (json_set x (k # ks) v) =
      (if getKey (KeyStr k) v = None then None else getKey (KeyStr k') v)"
proof
  show "\<exists>w. getKeys (map KeyStr (k # ks)) (json_set x (k # ks) v) = Some w \<and> is_scalar x w" by (rule get_set)
  show "getKey (KeyStr k') (json_set x (k # ks) v) =
      (if getKey (KeyStr k) v = None then None else getKey (KeyStr k') v)"
    using assms by (auto simp: find_update_first split: option.splits)
qed

lemma insert_get_witness:
  "let v = json_set (ScalarInt 1) [''a''] (JsonValue_init :: int jvalue) in
   getKey (KeyStr ''a'') v \<noteq> None \<and> getKey (KeyStr ''a'') (json_set (ScalarBool True) [''b''] v) = None \<and>
   (\<exists>w. getKeys [KeyStr ''b''] (json_set (ScalarBool True) [''b''] v) = Some w \<and> is_scalar (ScalarBool True) w)"
proof -
  let ?v = "json_set (ScalarInt 1) [''a''] (JsonValue_init :: int jvalue)"
  have ne: "''a'' \<noteq> ''b''" by simp
  have "getKey (KeyStr ''b'') ?v = None" "getKey (KeyStr ''a'') ?v \<noteq> None" by code_simp+
  then show ?thesis using insert_get [OF ne, of "[]" "ScalarBool True" ?v]
    by (simp only: Let_def list.map if_True simp_thms)
qed

section \<open>Round trip\<close>

text \<open>The trees the text represents exactly: no null and no \<open>double\<close>, containers with elements,
  integers from 0, strings without a quote and without a blank in front, array elements without a
  key.\<close>

definition str_ok :: "string \<Rightarrow> bool" where
  "str_ok s \<longleftrightarrow> CHR ''\"'' \<notin> set s \<and> (s \<noteq> [] \<longrightarrow> \<not> is_blank (hd s))"

fun canon :: "'d jvalue \<Rightarrow> bool" and canon_items :: "bool \<Rightarrow> 'd jvalue list \<Rightarrow> bool" where
  "canon (JsonVal t es s k n) = (case t of
     kInt \<Rightarrow> es = [] \<and> s = [] \<and> (case n of IntNum i \<Rightarrow> 0 \<le> i \<and> i < 2 ^ 63 | _ \<Rightarrow> False)
   | kBool \<Rightarrow> es = [] \<and> s = [] \<and> (case n of BoolNum b \<Rightarrow> True | _ \<Rightarrow> False)
   | kString \<Rightarrow> es = [] \<and> (case n of Unset \<Rightarrow> True | _ \<Rightarrow> False) \<and> str_ok s
   | kHash \<Rightarrow> es \<noteq> [] \<and> s = [] \<and> (case n of Unset \<Rightarrow> True | _ \<Rightarrow> False) \<and> canon_items True es
   | kArray \<Rightarrow> es \<noteq> [] \<and> s = [] \<and> (case n of Unset \<Rightarrow> True | _ \<Rightarrow> False) \<and> canon_items False es
   | _ \<Rightarrow> False)"
| "canon_items h [] = True"
| "canon_items h (v # vs) = (canon v \<and> (if h then str_ok (jkey v) else jkey v = []) \<and> canon_items h vs)"

text \<open>Enough fuel to parse a tree.\<close>

fun need :: "'d jvalue \<Rightarrow> nat" and need_items :: "'d jvalue list \<Rightarrow> nat" where
  "need (JsonVal t es s k n) = Suc (need_items es)"
| "need_items [] = 1"
| "need_items (v # vs) = Suc (need v + need_items vs)"

lemma skipSpace_blanks: "(\<And>x. x \<in> set ws \<Longrightarrow> is_blank x) \<Longrightarrow> skipSpace (ws @ r) = skipSpace r"
  by (induction ws) auto

lemma skipSpace_stop [simp]: "\<not> is_blank c \<Longrightarrow> skipSpace (c # r) = Inr (c # r)"
  by simp

lemma skipSpace_again: "skipSpace r = Inr r' \<Longrightarrow> skipSpace r' = Inr r'"
  by (induction r) (auto split: if_splits)

lemma skipSpace_head: "skipSpace r = Inr r' \<Longrightarrow> \<exists>c q. r' = c # q \<and> \<not> is_blank c"
  by (induction r) (auto split: if_splits)

lemma blanks [simp]: "is_blank (CHR 0x0A)" "is_blank (CHR 0x09)" "\<not> is_blank (CHR 0x00)"
  "\<not> is_blank (CHR ''{'')" "\<not> is_blank (CHR ''['')" "\<not> is_blank (CHR ''}'')" "\<not> is_blank (CHR '']'')"
  "\<not> is_blank (CHR 0x22)" "\<not> is_blank (CHR '','')" "\<not> is_blank (CHR '':'')"
  "\<not> is_blank (CHR ''t'')" "\<not> is_blank (CHR ''f'')"
  by (simp_all add: is_blank_def)

lemma digit_not_blank: "is_digit c \<Longrightarrow> \<not> is_blank c"
  by (auto simp: is_blank_def is_digit_code)

lemma string_loop_quote:
  "CHR 0x22 \<notin> set s \<Longrightarrow> string_loop out (s @ CHR 0x22 # r) = Inr (out @ s, CHR 0x22 # r)"
  by (induction s arbitrary: out) auto

lemma parse_quoted:
  assumes "str_ok s" "skipSpace r = Inr r'"
  shows "json_parseString (quoted s @ r) = Inr (s, r')"
proof -
  have "skipSpace (s @ CHR 0x22 # r) = Inr (s @ CHR 0x22 # r)"
    using assms(1) by (cases s) (auto simp: str_ok_def)
  then show ?thesis using assms
    by (simp add: json_parseString_def quoted_def char_at_def str_ok_def string_loop_quote)
qed

lemma number_loop_digits:
  "(\<And>x. x \<in> set ds \<Longrightarrow> is_digit x) \<Longrightarrow> \<not> is_digit c \<Longrightarrow> c \<noteq> CHR ''.'' \<Longrightarrow>
     number_loop num (ds @ c # r) False = Inr (num @ ds, c # r, False)"
proof (induction ds arbitrary: num)
  case Nil
  then show ?case by simp
next
  case (Cons d ds)
  have d: "is_digit d" by (simp add: Cons.prems)
  obtain e q where q: "ds @ c # r = e # q" by (cases ds) auto
  have "e \<noteq> CHR ''.''"
  proof (cases ds)
    case Nil
    then show ?thesis using q Cons.prems by simp
  next
    case (Cons a list)
    then have "is_digit e" using q Cons.prems(1) by simp
    then show ?thesis by auto
  qed
  then have "number_loop num ((d # ds) @ c # r) False = number_loop (num @ [d]) (ds @ c # r) False"
    using d q by simp
  then show ?case using Cons.IH [of "num @ [d]"] Cons.prems by simp
qed

lemma parse_number:
  assumes "0 \<le> i" "i < 2 ^ 63" "\<not> is_digit c" "c \<noteq> CHR ''.''" "skipSpace (c # r) = Inr r'"
  shows "json_parseNumber strtod (show_int i @ c # r) = Inr (IntNum i, False, r')"
proof -
  have "number_loop [] (show_int i @ c # r) False = Inr (show_int i, c # r, False)"
    using number_loop_digits [of "show_int i" c "[]" r] assms show_nat_digits by (auto simp: show_int_def)
  moreover have "nat_of_digits (show_int i) = nat i" using assms by (simp add: show_int_def)
  moreover have "nat i < 2 ^ 63" using assms nat_less_iff by auto
  ultimately show ?thesis using assms by (simp add: json_parseNumber_def)
qed

lemma show_int_cons: "0 \<le> i \<Longrightarrow> \<exists>c q. show_int i = c # q \<and> is_digit c"
  using show_nat_nonempty [of "nat i"] show_nat_digits [of "hd (show_nat (nat i))" "nat i"]
  by (cases "show_nat (nat i)") (auto simp: show_int_def simp del: show_nat.simps)


lemma digit_neq: "is_digit c \<Longrightarrow> c \<noteq> CHR ''{'' \<and> c \<noteq> CHR ''['' \<and> c \<noteq> CHR 0x22 \<and> c \<noteq> CHR ''}'' \<and> c \<noteq> CHR '']''"
  by auto

lemma parse_int_leaf:
  assumes "0 \<le> i" "i < 2 ^ 63" "\<not> is_digit d" "d \<noteq> CHR ''.''" "skipSpace (d # rest) = Inr r2"
  shows "json_parseObject strtod (Suc n) (show_int i @ d # rest) (set_key k JsonValue_init) =
    Some (Inr (JsonVal kInt [] [] k (IntNum i), r2))"
proof -
  obtain c q where c: "show_int i = c # q" "is_digit c" using show_int_cons assms(1) by blast
  have "json_parseNumber strtod (c # q @ d # rest) = Inr (IntNum i, False, r2)"
    using parse_number [OF assms] c by simp
  with c show ?thesis
    by (simp add: char_at_def digit_not_blank digit_neq JsonValue_init_def skipSpace_again [OF assms(5)]
        del: skipSpace.simps)
qed

lemma parse_bool_leaf:
  assumes "skipSpace (d # rest) = Inr r2"
  shows "json_parseObject strtod (Suc n) ((if b then ''true'' else ''false'') @ d # rest) (set_key k JsonValue_init) =
    Some (Inr (JsonVal kBool [] [] k (BoolNum b), r2))"
proof -
  have "\<not> is_digit CHR ''t''" "\<not> is_digit CHR ''f''" by (simp_all add: is_digit_code)
  then show ?thesis
    by (cases b) (simp_all add: char_at_def JsonValue_init_def assms skipSpace_again [OF assms] del: skipSpace.simps)
qed

lemma parse_str_leaf:
  assumes "str_ok s" "skipSpace (d # rest) = Inr r2"
  shows "json_parseObject strtod (Suc n) (quoted s @ d # rest) (set_key k JsonValue_init) =
    Some (Inr (JsonVal kString [] s k Unset, r2))"
proof -
  have "json_parseString (quoted s @ d # rest) = Inr (s, r2)" by (rule parse_quoted [OF assms])
  moreover have "quoted s @ d # rest = CHR 0x22 # s @ CHR 0x22 # d # rest" by (simp add: quoted_def)
  ultimately show ?thesis
    by (simp add: char_at_def JsonValue_init_def skipSpace_again [OF assms(2)] del: skipSpace.simps)
qed

lemma parse_container:
  assumes "skipSpace r = Inr r0"
    and "(if h then parseHash_loop strtod n r0 [] else parseArray_loop strtod n r0 []) = Some (Inr (es, r2))"
    and "skipSpace r2 = Inr r2"
  shows "json_parseObject strtod (Suc n) ((if h then CHR ''{'' else CHR ''['') # r) (set_key k JsonValue_init) =
    Some (Inr (JsonVal (if h then kHash else kArray) es [] k Unset, r2))"
  using assms by (cases h) (simp_all add: char_at_def JsonValue_init_def del: skipSpace.simps)


lemma blank_neq: "is_blank c \<Longrightarrow> \<not> is_digit c \<and> c \<noteq> CHR ''.'' \<and> c \<noteq> CHR '',''"
  by (auto simp: is_blank_def is_digit_code)

lemma skipSpace_total: "x \<in> set r \<Longrightarrow> \<not> is_blank x \<Longrightarrow> \<exists>r'. skipSpace r = Inr r'"
  by (induction r) auto

definition item_loop :: "bool \<Rightarrow> (string \<Rightarrow> 'd) \<Rightarrow> nat \<Rightarrow> string \<Rightarrow> 'd jvalue list \<Rightarrow> ('d jvalue list \<times> string) result option" where
  "item_loop h strtod n r es = (if h then parseHash_loop strtod n r es else parseArray_loop strtod n r es)"

definition closing :: "bool \<Rightarrow> char" where
  "closing h = (if h then CHR ''}'' else CHR '']'')"

lemma closing_char [simp]: "\<not> is_blank (closing h)" "closing h \<noteq> CHR '',''"
  by (simp_all add: closing_def)

abbreviation item_key :: "bool \<Rightarrow> 'd jvalue \<Rightarrow> string" where
  "item_key h v \<equiv> (if h then quoted (jkey v) @ '':'' else [])"

lemma item_loop_end:
  "skipSpace rest = Inr r2 \<Longrightarrow> item_loop h strtod (Suc n) (closing h # rest) es = Some (Inr (es, r2))"
  by (simp add: item_loop_def char_at_def closing_def)

lemma item_loop_step:
  fixes v :: "'d jvalue"
  assumes "if h then str_ok (jkey v) else jkey v = []"
    and "r = c # q" "c \<noteq> CHR '']''"
    and "json_parseObject strtod n r (set_key (jkey v) JsonValue_init) = Some (Inr (v, t))"
    and "skip_comma t = Inr r1"
  shows "item_loop h strtod (Suc n) (item_key h v @ r) es = item_loop h strtod n r1 (es @ [v])"
proof (cases h)
  case True
  have "json_parseString (quoted (jkey v) @ CHR '':'' # r) = Inr (jkey v, CHR '':'' # r)"
    using assms(1) True by (intro parse_quoted) simp_all
  moreover have "quoted (jkey v) @ CHR '':'' # r = CHR 0x22 # jkey v @ CHR 0x22 # CHR '':'' # r"
    by (simp add: quoted_def)
  ultimately show ?thesis using True assms(4,5) by (simp add: item_loop_def char_at_def)
next
  case False
  have "set_key (jkey v) JsonValue_init = (JsonValue_init :: 'd jvalue)" using assms(1) False by (simp add: JsonValue_init_def)
  then have "json_parseObject strtod n r JsonValue_init = Some (Inr (v, t))" using assms(4) by (simp only:)
  then show ?thesis using assms(2,3,5) False by (simp add: item_loop_def char_at_def)
qed

lemma item_loop_head:
  assumes "\<forall>x\<in>set ws. is_blank x" "c \<notin> {CHR '']''}" "\<not> is_blank c"
  shows "skipSpace (ws @ item_key h v @ c # q) = Inr (item_key h v @ c # q)"
  using assms by (simp add: skipSpace_blanks quoted_def)

definition parses_back :: "(string \<Rightarrow> 'd) \<Rightarrow> 'd jvalue \<Rightarrow> string \<Rightarrow> bool" where
  "parses_back strtod v txt \<longleftrightarrow>
     (\<exists>c q. txt = c # q \<and> \<not> is_blank c \<and> c \<noteq> CHR '']'') \<and>
     (\<forall>n d rest r2. need v \<le> n \<longrightarrow> \<not> is_digit d \<longrightarrow> d \<noteq> CHR ''.'' \<longrightarrow> skipSpace (d # rest) = Inr r2 \<longrightarrow>
        json_parseObject strtod n (txt @ d # rest) (set_key (jkey v) JsonValue_init) = Some (Inr (v, r2)))"

definition items_back :: "(string \<Rightarrow> 'd) \<Rightarrow> bool \<Rightarrow> 'd jvalue list \<Rightarrow> string \<Rightarrow> bool" where
  "items_back strtod h es txt \<longleftrightarrow>
     (\<forall>n w ws rest acc r0 r2. need_items es \<le> n \<longrightarrow> (\<forall>x\<in>set (w # ws). is_blank x) \<longrightarrow>
        skipSpace (txt @ w # ws @ closing h # rest) = Inr r0 \<longrightarrow> skipSpace rest = Inr r2 \<longrightarrow>
        item_loop h strtod n r0 acc = Some (Inr (acc @ es, r2)))"

lemma parses_backD:
  assumes "parses_back strtod v txt" "need v \<le> n" "\<not> is_digit d" "d \<noteq> CHR ''.''" "skipSpace (d # rest) = Inr r2"
  shows "json_parseObject strtod n (txt @ d # rest) (set_key (jkey v) JsonValue_init) = Some (Inr (v, r2))"
  using assms unfolding parses_back_def by blast

lemma items_back_last:
  assumes v: "parses_back strtod v txt" and k: "if h then str_ok (jkey v) else jkey v = []"
    and tab: "\<forall>x\<in>set tab. is_blank x"
  shows "items_back strtod h [v] (tab @ item_key h v @ txt)"
  unfolding items_back_def
proof (intro allI impI)
  fix n w ws rest acc r0 r2
  assume n: "need_items [v] \<le> n" and b: "\<forall>x\<in>set (w # ws). is_blank x"
    and r0: "skipSpace ((tab @ item_key h v @ txt) @ w # ws @ closing h # rest) = Inr r0"
    and r2: "skipSpace rest = Inr r2"
  obtain c q where c: "txt = c # q" "\<not> is_blank c" "c \<noteq> CHR '']''" using v by (auto simp: parses_back_def)
  let ?tail = "w # ws @ closing h # rest"
  obtain m where m: "n = Suc (Suc m)" "need v \<le> Suc m" using n by (cases n; cases "n - 1") auto
  have r0': "r0 = item_key h v @ txt @ ?tail"
    using r0 item_loop_head [of tab c h v "q @ ?tail"] tab c by simp
  have "skipSpace ((w # ws) @ closing h # rest) = Inr (closing h # rest)"
    using b by (subst skipSpace_blanks) auto
  then have "json_parseObject strtod (Suc m) (txt @ ?tail) (set_key (jkey v) JsonValue_init) =
      Some (Inr (v, closing h # rest))"
    using m b blank_neq [of w] by (intro parses_backD [OF v]) auto
  moreover have "skip_comma (closing h # rest) = Inr (closing h # rest)"
    by (simp add: skip_comma_def char_at_def)
  ultimately have "item_loop h strtod n r0 acc = item_loop h strtod (Suc m) (closing h # rest) (acc @ [v])"
    unfolding r0' m(1) by (intro item_loop_step [OF k, of _ c "q @ ?tail"]) (use c in auto)
  then show "item_loop h strtod n r0 acc = Some (Inr (acc @ [v], r2))"
    by (simp only: item_loop_end [OF r2])
qed

lemma items_back_cons:
  assumes v: "parses_back strtod v txt" and k: "if h then str_ok (jkey v) else jkey v = []"
    and tab: "\<forall>x\<in>set tab. is_blank x" and vs: "items_back strtod h vs more"
  shows "items_back strtod h (v # vs) ((tab @ item_key h v @ txt) @ CHR '','' # CHR 0x0A # more)"
  unfolding items_back_def
proof (intro allI impI)
  fix n w ws rest acc r0 r2
  assume n: "need_items (v # vs) \<le> n" and b: "\<forall>x\<in>set (w # ws). is_blank x"
    and r0: "skipSpace (((tab @ item_key h v @ txt) @ CHR '','' # CHR 0x0A # more) @ w # ws @ closing h # rest) = Inr r0"
    and r2: "skipSpace rest = Inr r2"
  obtain c q where c: "txt = c # q" "\<not> is_blank c" "c \<noteq> CHR '']''" using v by (auto simp: parses_back_def)
  let ?fin = "w # ws @ closing h # rest"
  let ?tail = "CHR '','' # CHR 0x0A # more @ ?fin"
  obtain m where m: "n = Suc m" "need v \<le> m" "need_items vs \<le> m" using n by (cases n) auto
  have r0': "r0 = item_key h v @ txt @ ?tail"
    using r0 item_loop_head [of tab c h v "q @ ?tail"] tab c by simp
  have "json_parseObject strtod m (txt @ ?tail) (set_key (jkey v) JsonValue_init) = Some (Inr (v, ?tail))"
    using m by (intro parses_backD [OF v]) auto
  moreover obtain r1 where r1: "skipSpace (more @ ?fin) = Inr r1"
    using skipSpace_total [of "closing h" "more @ ?fin"] by auto
  then have "skip_comma ?tail = Inr r1" by (simp add: skip_comma_def char_at_def)
  ultimately have "item_loop h strtod n r0 acc = item_loop h strtod m r1 (acc @ [v])"
    unfolding r0' m(1) by (intro item_loop_step [OF k, of _ c "q @ ?tail"]) (use c in auto)
  then show "item_loop h strtod n r0 acc = Some (Inr (acc @ v # vs, r2))"
    using vs m(3) b r1 r2 by (simp add: items_back_def)
qed

lemma container_back:
  assumes es: "items_back strtod h es txt"
  shows "parses_back strtod (JsonVal (if h then kHash else kArray) es [] k Unset)
    ((if h then CHR ''{'' else CHR ''['') # CHR 0x0A # txt @ CHR 0x0A # replicate tabNum TAB @ [closing h])"
  unfolding parses_back_def
proof (intro conjI allI impI)
  fix n d rest r2
  assume n: "need (JsonVal (if h then kHash else kArray) es [] k Unset) \<le> n" and r2: "skipSpace (d # rest) = Inr r2"
  let ?fin = "CHR 0x0A # replicate tabNum TAB @ closing h # d # rest"
  obtain m where m: "n = Suc m" "need_items es \<le> m" using n by (cases n) auto
  obtain r0 where r0: "skipSpace (txt @ ?fin) = Inr r0" using skipSpace_total [of "closing h" "txt @ ?fin"] by auto
  have "item_loop h strtod m r0 [] = Some (Inr ([] @ es, r2))"
    using es m r0 r2 unfolding items_back_def
    by (elim allE [where x = m] allE [where x = "CHR 0x0A"] allE [where x = "replicate tabNum TAB"]
        allE [where x = "d # rest"] allE [where x = "[]"] allE [where x = r0] allE [where x = r2]) auto
  then have "(if h then parseHash_loop strtod m r0 [] else parseArray_loop strtod m r0 []) = Some (Inr (es, r2))"
    by (simp add: item_loop_def)
  moreover have "skipSpace (CHR 0x0A # txt @ ?fin) = Inr r0" using r0 by simp
  ultimately show "json_parseObject strtod n
      (((if h then CHR ''{'' else CHR ''['') # CHR 0x0A # txt @ CHR 0x0A # replicate tabNum TAB @ [closing h]) @ d # rest)
      (set_key (jkey (JsonVal (if h then kHash else kArray) es [] k Unset)) JsonValue_init) =
      Some (Inr (JsonVal (if h then kHash else kArray) es [] k Unset, r2))"
    unfolding m(1) using parse_container [OF _ _ skipSpace_again [OF r2], of "CHR 0x0A # txt @ ?fin" r0 h strtod m es k]
    by simp
qed simp

lemma leaf_int_back:
  "0 \<le> i \<Longrightarrow> i < 2 ^ 63 \<Longrightarrow> parses_back strtod (JsonVal kInt [] [] k (IntNum i)) (show_int i)"
  unfolding parses_back_def
proof (intro conjI allI impI)
  assume i: "0 \<le> i" "i < 2 ^ 63"
  show "\<exists>c q. show_int i = c # q \<and> \<not> is_blank c \<and> c \<noteq> CHR '']''"
    using show_int_cons [OF i(1)] digit_not_blank digit_neq by blast
  fix n d rest r2
  assume "need (JsonVal kInt [] [] k (IntNum i)) \<le> n" "\<not> is_digit d" "d \<noteq> CHR ''.''" "skipSpace (d # rest) = Inr r2"
  then show "json_parseObject strtod n (show_int i @ d # rest) (set_key (jkey (JsonVal kInt [] [] k (IntNum i))) JsonValue_init) =
      Some (Inr (JsonVal kInt [] [] k (IntNum i), r2))"
    using parse_int_leaf [OF i, of d rest r2 strtod "n - 1" k] by (cases n) (auto simp del: json_parseObject.simps skipSpace.simps)
qed

lemma leaf_bool_back:
  "parses_back strtod (JsonVal kBool [] [] k (BoolNum b)) (if b then ''true'' else ''false'')"
  unfolding parses_back_def
proof (intro conjI allI impI)
  show "\<exists>c q. (if b then ''true'' else ''false'') = c # q \<and> \<not> is_blank c \<and> c \<noteq> CHR '']''"
    by (cases b) simp_all
  fix n d rest r2
  assume "need (JsonVal kBool [] [] k (BoolNum b)) \<le> n" "skipSpace (d # rest) = Inr r2"
  then show "json_parseObject strtod n ((if b then ''true'' else ''false'') @ d # rest)
      (set_key (jkey (JsonVal kBool [] [] k (BoolNum b))) JsonValue_init) = Some (Inr (JsonVal kBool [] [] k (BoolNum b), r2))"
    using parse_bool_leaf [of d rest r2 strtod "n - 1" b k] by (cases n) (auto simp del: json_parseObject.simps skipSpace.simps)
qed

lemma leaf_str_back:
  "str_ok s \<Longrightarrow> parses_back strtod (JsonVal kString [] s k Unset) (quoted s)"
  unfolding parses_back_def
proof (intro conjI allI impI)
  assume s: "str_ok s"
  show "\<exists>c q. quoted s = c # q \<and> \<not> is_blank c \<and> c \<noteq> CHR '']''" by (simp add: quoted_def)
  fix n d rest r2
  assume "need (JsonVal kString [] s k Unset) \<le> n" "skipSpace (d # rest) = Inr r2"
  then show "json_parseObject strtod n (quoted s @ d # rest) (set_key (jkey (JsonVal kString [] s k Unset)) JsonValue_init) =
      Some (Inr (JsonVal kString [] s k Unset, r2))"
    using parse_str_leaf [OF s, of d rest r2 strtod "n - 1" k] by (cases n) (auto simp del: json_parseObject.simps skipSpace.simps)
qed

lemma serialize_back:
  "canon v \<Longrightarrow> \<exists>txt. serialize_impl show_float tabNum v = Inr txt \<and> parses_back strtod v txt"
  "canon_items h es \<Longrightarrow> es \<noteq> [] \<Longrightarrow> \<exists>txt. serialize_items show_float tabNum h es = Inr txt \<and> items_back strtod h es txt"
proof (induction show_float tabNum v and show_float tabNum h es rule: serialize_impl_serialize_items.induct)
  case (1 show_float tabNum t es s k n)
  show ?case
  proof (cases t)
    case kInt
    then show ?thesis using "1.prems" leaf_int_back by (auto split: junion.splits)
  next
    case kFloat
    then show ?thesis using "1.prems" by simp
  next
    case kString
    then show ?thesis using "1.prems" leaf_str_back by (auto split: junion.splits)
  next
    case kHash
    then have c: "es \<noteq> []" "s = []" "n = Unset" "canon_items True es" using "1.prems" by (auto split: junion.splits)
    obtain items where i: "serialize_items show_float tabNum True es = Inr items" "items_back strtod True es items"
      using "1.IH"(1) kHash c by blast
    show ?thesis using container_back [OF i(2), of k tabNum] i(1) kHash c by (simp add: closing_def)
  next
    case kArray
    then have c: "es \<noteq> []" "s = []" "n = Unset" "canon_items False es" using "1.prems" by (auto split: junion.splits)
    obtain items where i: "serialize_items show_float tabNum False es = Inr items" "items_back strtod False es items"
      using "1.IH"(2) kArray c by blast
    show ?thesis using container_back [OF i(2), of k tabNum] i(1) kArray c by (simp add: closing_def)
  next
    case kBool
    then obtain b where "es = []" "s = []" "n = BoolNum b" using "1.prems" by (auto split: junion.splits)
    then show ?thesis using kBool leaf_bool_back [of strtod k b] by simp
  next
    case kNull
    then show ?thesis using "1.prems" by simp
  qed
next
  case (2 show_float tabNum hash)
  then show ?case by simp
next
  case (3 show_float tabNum hash v vs)
  have c: "canon v" "if hash then str_ok (jkey v) else jkey v = []" "canon_items hash vs"
    using "3.prems" by (simp_all split: if_splits)
  obtain out where t: "serialize_impl show_float (tabNum + 1) v = Inr out" "parses_back strtod v out"
    using "3.IH"(1) c(1) by blast
  let ?tab = "replicate tabNum TAB @ [TAB]"
  have tab: "\<forall>x\<in>set ?tab. is_blank x" by simp
  show ?case
  proof (cases "vs = []")
    case True
    then show ?thesis using t(1) items_back_last [OF t(2) c(2) tab] by simp
  next
    case False
    then obtain more where m: "serialize_items show_float tabNum hash vs = Inr more" "items_back strtod hash vs more"
      using "3.IH"(2) t(1) c(3) by blast
    show ?thesis using False t(1) m(1) items_back_cons [OF t(2) c(2) tab m(2)] by simp
  qed
qed

text \<open>C19: Let a tree have no null and no \<open>double\<close>, only integers from 0 to \<open>2 ^ 63 - 1\<close>, no empty container, strings and keys without a
  quote and without a blank in front, and array elements and a root without a key (\<open>canon\<close>). What \<open>serialize\<close> writes for such a
  tree, \<open>fromString\<close> reads back as the same tree, with \<open>need v\<close> units of fuel or more. (Outside these conditions it does not: the
  text of an array with -1 in front is one that \<open>json_array_endless\<close> is about.)\<close>

theorem json_roundtrip:
  assumes "canon v" "jkey v = []"
  shows "\<exists>txt. serialize show_float v = Inr txt \<and>
    (\<forall>n \<ge> need v. fromString strtod n txt JsonValue_init = Some (Inr v))"
proof -
  obtain out where t: "serialize_impl show_float 0 v = Inr out" "parses_back strtod v out"
    using serialize_back(1) [OF assms(1)] by blast
  have "fromString strtod n out JsonValue_init = Some (Inr v)" if "need v \<le> n" for n
    using parses_backD [OF t(2) that, of "CHR 0x00" "[]"] assms(2) by (simp add: fromString_def JsonValue_init_def)
  then show ?thesis using t(1) by (auto simp: serialize_def)
qed

definition json_sample :: "int jvalue" where
  "json_sample = JsonVal kHash [JsonVal kArray [JsonVal kInt [] [] [] (IntNum 12), JsonVal kBool [] [] [] (BoolNum True)] [] ''list'' Unset,
     JsonVal kString [] ''it is'' ''text'' Unset] [] [] Unset"

lemma json_roundtrip_witness:
  "\<exists>txt. serialize (\<lambda>_. []) json_sample = Inr txt \<and>
    (\<forall>n \<ge> need json_sample. fromString (\<lambda>_. 0) n txt JsonValue_init = Some (Inr json_sample))"
proof (rule json_roundtrip)
  show "canon json_sample" by code_simp
  show "jkey json_sample = []" by code_simp
qed

section \<open>Where the parser does not end\<close>

text \<open>A text at which \<open>parseObject\<close> consumes nothing: no character a value starts with, a null, or the
  terminating NUL.\<close>

definition not_consumed :: "string \<Rightarrow> bool" where
  "not_consumed r \<longleftrightarrow> (case r of [] \<Rightarrow> False | c # _ \<Rightarrow>
     \<not> is_blank c \<and> \<not> is_digit c \<and> c \<notin> {CHR ''{'', CHR ''['', CHR 0x22, CHR '']'', CHR '',''} \<and>
     take 4 r \<noteq> ''true'' \<and> take 5 r \<noteq> ''false'')"

lemma parseObject_not_consumed:
  "not_consumed r \<Longrightarrow> json_parseObject strtod (Suc n) r JsonValue_init = Some (Inr (JsonValue_init, r))"
  by (cases r) (auto simp: not_consumed_def char_at_def JsonValue_init_def)

lemma parseArray_not_consumed: "not_consumed r \<Longrightarrow> parseArray_loop strtod n r es = None"
proof (induction n arbitrary: es)
  case (Suc n)
  have r: "char_at r = Inr (hd r)" "hd r \<noteq> CHR '']''" "skip_comma r = Inr r"
    using Suc.prems by (cases r; simp add: not_consumed_def char_at_def skip_comma_def)+
  show ?case
  proof (cases n)
    case 0
    then show ?thesis using r by simp
  next
    case (Suc m)
    have "json_parseObject strtod n r JsonValue_init = Some (Inr (JsonValue_init, r))"
      unfolding Suc by (rule parseObject_not_consumed [OF Suc.prems])
    then show ?thesis using r Suc.IH [OF Suc.prems] by simp
  qed
qed simp

text \<open>C39: Parsing an array never ends when its first element, right behind the bracket, is one that \<open>parseObject\<close> does not consume: a
  null, a minus sign or any other character that no value starts with (but a blank, a comma or the closing bracket, which are
  skipped or end the array), or the end of the text, as in \<open>[null]\<close>, \<open>[-1]\<close> or \<open>[\<close>. Nothing is consumed
  and elements are added for ever.\<close>

theorem json_array_endless:
  assumes "not_consumed (s @ [CHR 0x00])"
  shows "fromString strtod n (CHR ''['' # s) this = None"
proof -
  have "skipSpace (s @ [CHR 0x00]) = Inr (s @ [CHR 0x00])"
    using assms by (cases s) (simp_all add: not_consumed_def)
  then show ?thesis
    by (cases n) (simp_all add: fromString_def char_at_def parseArray_not_consumed [OF assms])
qed

lemma json_array_endless_witness:
  "\<forall>n. fromString (\<lambda>_. 0 :: int) n ''[null]'' JsonValue_init = None \<and>
     fromString (\<lambda>_. 0 :: int) n ''[-1]'' JsonValue_init = None \<and>
     fromString (\<lambda>_. 0 :: int) n ''['' JsonValue_init = None"
proof -
  have "not_consumed (''null]'' @ [CHR 0x00])" "not_consumed (''-1]'' @ [CHR 0x00])" "not_consumed ([] @ [CHR 0x00])"
    by code_simp+
  then show ?thesis by (simp add: json_array_endless [of "''null]''"] json_array_endless [of "''-1]''"] json_array_endless [of "[]"])
qed

end
