(* ===== verification/JsonTyped.thy ===== *)
theory JsonTyped
  imports JsonValue
begin

text \<open>
  Typing of the JSON values of \<open>muduo/base/JsonValue.h\<close>: the tag \<open>type_\<close> and the union agree in every value that
  the parser, \<open>insert\<close>, moving and \<open>get\<close> give, so that the accessors and \<open>serialize\<close> read
  the member that was written last.
\<close>

section \<open>Well-typed values\<close>

definition int64 :: "int \<Rightarrow> bool" where
  "int64 i \<longleftrightarrow> - (2 ^ 63) \<le> i \<and> i < 2 ^ 63"

fun num_typed :: "jtype \<Rightarrow> 'd junion \<Rightarrow> bool" where
  "num_typed kInt n = (case n of IntNum i \<Rightarrow> int64 i | _ \<Rightarrow> False)"
| "num_typed kFloat n = (case n of FloatNum _ \<Rightarrow> True | _ \<Rightarrow> False)"
| "num_typed kBool n = (case n of BoolNum _ \<Rightarrow> True | _ \<Rightarrow> False)"
| "num_typed t n = True"

fun well_typed :: "'d jvalue \<Rightarrow> bool" where
  "well_typed (JsonVal t es s k n) \<longleftrightarrow> num_typed t n \<and> list_all well_typed es"

fun scalar_typed :: "'d json_scalar \<Rightarrow> bool" where
  "scalar_typed (ScalarInt i) = int64 i"
| "scalar_typed x = True"

text \<open>No container, however deep, is empty.\<close>

fun no_empty :: "'d jvalue \<Rightarrow> bool" where
  "no_empty (JsonVal t es s k n) \<longleftrightarrow> (t = kHash \<or> t = kArray \<longrightarrow> es \<noteq> [] \<and> list_all no_empty es)"

lemma well_typed_iff: "well_typed v \<longleftrightarrow> num_typed (jtype_of v) (jnum v) \<and> (\<forall>e \<in> set (elements v). well_typed e)"
  by (cases v) (simp add: list_all_iff)

lemma well_typed_init [simp]: "well_typed JsonValue_init"
  by (simp add: JsonValue_init_def)

lemma well_typed_fields [simp]:
  "well_typed v \<Longrightarrow> list_all well_typed es \<Longrightarrow> t = kHash \<or> t = kArray \<Longrightarrow> well_typed (set_elems t es v)"
  "well_typed v \<Longrightarrow> well_typed (set_str x v)"
  "well_typed v \<Longrightarrow> num_typed t n \<Longrightarrow> well_typed (set_num t n v)"
  "well_typed v \<Longrightarrow> well_typed (set_type kNull v)"
  "well_typed (set_key k v) = well_typed v"
  by (cases v; auto)+

lemma well_typed_scalar [simp]: "scalar_typed x \<Longrightarrow> well_typed (set_scalar x v)"
  by (cases v; cases x) simp_all

lemma fbind_eq_Inr: "fbind m f = Some (Inr y) \<longleftrightarrow> (\<exists>x. m = Some (Inr x) \<and> f x = Some (Inr y))"
  by (auto simp: fbind_def split: option.splits sum.splits)

section \<open>Every operation keeps the types\<close>

lemma number_typed: "json_parseNumber strtod r = Inr (n, isFloat, r') \<Longrightarrow> num_typed (if isFloat then kFloat else kInt) n"
  by (auto simp: json_parseNumber_def rbind_eq_Inr int64_def nat_less_iff split: if_splits)

text \<open>What \<open>parseObject\<close> has stored when it returns.\<close>

lemma parseObject_stores:
  assumes "json_parseObject strtod (Suc n) r out = Some (Inr (v, r'))"
  obtains (hash) q es q' where "parseHash_loop strtod n q [] = Some (Inr (es, q'))" "v = set_elems kHash es out"
  | (array) q es q' where "parseArray_loop strtod n q [] = Some (Inr (es, q'))" "v = set_elems kArray es out"
  | (str) s where "v = set_str s out"
  | (num) t num where "v = set_num t num out" "num_typed t num"
  | (null) "v = set_type kNull out"
  | (same) "v = out"
proof -
  from assms obtain r0 c where r0: "skipSpace r = Inr r0" "char_at r0 = Inr c" by (auto simp: fbind_eq_Inr)
  note run = assms [unfolded json_parseObject.simps r0 fbind_simps]
  consider "c = CHR ''{''" | "c = CHR ''[''" | "c = CHR 0x22" | "is_digit c" "c \<noteq> CHR ''{''" "c \<noteq> CHR ''[''" "c \<noteq> CHR 0x22"
    | "\<not> is_digit c" "c \<noteq> CHR ''{''" "c \<noteq> CHR ''[''" "c \<noteq> CHR 0x22" by blast
  then show ?thesis
  proof cases
    case 1
    then show ?thesis using run hash by (auto simp: fbind_eq_Inr rbind_eq_Inr)
  next
    case 2
    then show ?thesis using run array by (auto simp: fbind_eq_Inr rbind_eq_Inr)
  next
    case 3
    then show ?thesis using run str by (auto simp: fbind_eq_Inr rbind_eq_Inr)
  next
    case 4
    then obtain x isFloat r1 where "json_parseNumber strtod r0 = Inr (x, isFloat, r1)" "v = set_num (if isFloat then kFloat else kInt) x out"
      using run by (auto simp: fbind_eq_Inr rbind_eq_Inr)
    then show ?thesis using num number_typed by blast
  next
    case 5
    then show ?thesis using run num null same by (auto simp: fbind_eq_Inr rbind_eq_Inr split: if_splits)
  qed
qed

lemma parse_typed:
  fixes out :: "'d jvalue"
  shows "json_parseObject strtod n r out = Some (Inr (v, r')) \<Longrightarrow> well_typed out \<Longrightarrow> well_typed v"
    "parseHash_loop strtod n r es = Some (Inr (es', r')) \<Longrightarrow> list_all well_typed es \<Longrightarrow> list_all well_typed es'"
    "parseArray_loop strtod n r es = Some (Inr (es', r')) \<Longrightarrow> list_all well_typed es \<Longrightarrow> list_all well_typed es'"
proof (induction n arbitrary: r out v r' es es')
  case (Suc n)
  {
    case 1
    note typed = 1(2)
    from 1(1) show ?case
    proof (cases rule: parseObject_stores)
      case (hash q es q')
      then show ?thesis using Suc.IH(2) [OF hash(1)] typed by simp
    next
      case (array q es q')
      then show ?thesis using Suc.IH(3) [OF array(1)] typed by simp
    qed (use typed in simp_all)
  next
    case 2
    then show ?case using Suc.IH(1,2) by (auto simp: fbind_eq_Inr rbind_eq_Inr split: if_splits)
  next
    case 3
    then show ?case using Suc.IH(1,3) by (auto simp: fbind_eq_Inr rbind_eq_Inr split: if_splits)
  }
qed simp_all

lemma update_first_typed:
  "list_all well_typed es \<Longrightarrow> (\<And>e. well_typed e \<Longrightarrow> well_typed (f e)) \<Longrightarrow> list_all well_typed (update_first k f es)"
  by (induction es) simp_all

lemma typed_elements: "well_typed v \<Longrightarrow> list_all well_typed (elements v)"
  by (cases v) simp

lemma set_typed: "scalar_typed x \<Longrightarrow> well_typed v \<Longrightarrow> well_typed (json_set x ks v)"
proof (induction ks arbitrary: v)
  case (Cons k ks)
  show ?case
  proof (cases "getKey (KeyStr k) v")
    case None
    have "list_all well_typed [set_key k (json_set x ks JsonValue_init)]" using Cons.IH [of JsonValue_init] Cons.prems(1) by simp
    then show ?thesis using None Cons.prems(2) well_typed_fields(1) [of v _ kHash] by simp
  next
    case (Some w)
    have "list_all well_typed (update_first k (json_set x ks) (elements v))"
      using Cons.IH Cons.prems by (intro update_first_typed typed_elements) simp_all
    then show ?thesis using Some Cons.prems(2) well_typed_fields(1) [of v _ kHash] by simp
  qed
qed simp

lemma getKey_typed: "getKey k v = Some w \<Longrightarrow> well_typed v \<Longrightarrow> well_typed w"
  using typed_elements [of v] by (cases k) (auto simp: list_all_iff find_Some_iff split: if_splits)

lemma getKeys_typed: "getKeys ks v = Some w \<Longrightarrow> well_typed v \<Longrightarrow> well_typed w"
  by (induction ks arbitrary: v) (auto split: option.splits dest: getKey_typed)

lemma move_typed: "well_typed v \<Longrightarrow> well_typed (fst (json_move v)) \<and> well_typed (snd (json_move v))"
  by (cases v) simp

lemma fromString_typed: "fromString strtod n s v = Some (Inr v') \<Longrightarrow> well_typed v \<Longrightarrow> well_typed v'"
  by (auto simp: fromString_def fbind_eq_Inr dest: parse_typed(1))

text \<open>The values a program can build from the constructor with the operations that return.\<close>

inductive json_built :: "(string \<Rightarrow> 'd) \<Rightarrow> 'd jvalue \<Rightarrow> bool" for strtod where
  fresh: "json_built strtod JsonValue_init"
| insert: "json_built strtod v \<Longrightarrow> scalar_typed x \<Longrightarrow> json_built strtod (json_insert x ks v)"
| parse: "json_built strtod v \<Longrightarrow> fromString strtod n s v = Some (Inr v') \<Longrightarrow> json_built strtod v'"
| target: "json_built strtod v \<Longrightarrow> json_built strtod (fst (json_move v))"
| source: "json_built strtod v \<Longrightarrow> json_built strtod (snd (json_move v))"
| element: "json_built strtod v \<Longrightarrow> json_get ks v = Some w \<Longrightarrow> json_built strtod w"

lemma built_typed: "json_built strtod v \<Longrightarrow> well_typed v"
  by (induction rule: json_built.induct)
    (auto simp: json_insert_def json_get_def set_typed move_typed dest: fromString_typed getKeys_typed)

section \<open>Reading\<close>

definition written_if :: "bool \<Rightarrow> string result \<Rightarrow> bool" where
  "written_if ok r \<longleftrightarrow> (if ok then \<exists>s. r = Inr s else r = Inl OutOfBounds)"

lemma items_written:
  assumes "\<And>v t. v \<in> set es \<Longrightarrow> written_if (no_empty v) (serialize_impl f t v)"
  shows "written_if (es \<noteq> [] \<and> list_all no_empty es) (serialize_items f t h es)"
  using assms
proof (induction es)
  case (Cons v vs)
  have v: "written_if (no_empty v) (serialize_impl f (Suc t) v)" using Cons.prems by simp
  moreover have "written_if (vs \<noteq> [] \<and> list_all no_empty vs) (serialize_items f t h vs)" using Cons by simp
  ultimately show ?case by (cases "vs = []") (auto simp: written_if_def Let_def split: if_splits)
qed (simp add: written_if_def)

lemma serialize_typed: "well_typed v \<Longrightarrow> written_if (no_empty v) (serialize_impl f t v)"
proof (induction v arbitrary: t)
  case (JsonVal ty es s k n)
  have "written_if (es \<noteq> [] \<and> list_all no_empty es) (serialize_items f t h es)" for h
    using JsonVal by (intro items_written) (auto simp: list_all_iff)
  note items = this [of True] this [of False]
  then show ?case using JsonVal.prems by (cases ty; cases n) (auto simp: written_if_def split: if_splits)
qed

text \<open>C20: Type safety of JSON values: in every value a program builds with the constructor, \<open>insert\<close>, the
  parser, moving and \<open>get\<close>, the tag and the union agree. So the accessors read the member that was
  written last, and serialising never reads another: it succeeds unless an empty
  container is reached, where it reads behind the vector.\<close>

theorem json_type_safety:
  assumes "json_built strtod v"
  shows "(jtype_of v = kInt \<longrightarrow> (\<exists>i. int64 i \<and> jnum v = IntNum i \<and> json_toInt v = Inr (signed_take_bit 31 i))) \<and>
    (jtype_of v = kBool \<longrightarrow> (\<exists>b. jnum v = BoolNum b \<and> json_toBool v = Inr b)) \<and>
    (jtype_of v = kFloat \<longrightarrow> (\<exists>d. jnum v = FloatNum d)) \<and>
    (if no_empty v then \<exists>s. serialize show_float v = Inr s else serialize show_float v = Inl OutOfBounds)"
proof -
  have typed: "well_typed v" by (rule built_typed [OF assms])
  have "num_typed (jtype_of v) (jnum v)" using typed by (cases v) simp
  moreover have "written_if (no_empty v) (serialize show_float v)"
    unfolding serialize_def by (rule serialize_typed [OF typed])
  ultimately show ?thesis
    by (cases "jnum v") (auto simp: written_if_def json_toInt_def json_toBool_def)
qed

lemma json_type_safety_witness:
  "let v = json_insert (ScalarBool True) [''a'', ''b''] (JsonValue_init :: int jvalue);
       w = the (json_get [KeyStr ''a'', KeyStr ''b''] v) in
   jtype_of w = kBool \<and> json_toBool w = Inr True \<and> (\<exists>s. serialize (\<lambda>d. []) w = Inr s)"
proof -
  let ?v = "json_insert (ScalarBool True) [''a'', ''b''] (JsonValue_init :: int jvalue)"
  let ?w = "the (json_get [KeyStr ''a'', KeyStr ''b''] ?v)"
  have get: "json_get [KeyStr ''a'', KeyStr ''b''] ?v = Some ?w" and w: "jtype_of ?w = kBool" "jnum ?w = BoolNum True" "no_empty ?w"
    by code_simp+
  have "json_built (\<lambda>_. 0) ?v" by (intro json_built.insert json_built.fresh) simp
  from json_type_safety [OF json_built.element [OF this get], of "\<lambda>d. []"] w show ?thesis by (auto simp: Let_def)
qed

end
