(* ===== verification/LoopQueue.thy ===== *)
theory LoopQueue
  imports EventLoop
begin

text \<open>
  The functor queue of \<open>muduo/net/EventLoop.cc\<close> under concurrency. \<open>queueInLoop\<close> of another thread is two
  atomic steps, \<open>push_back\<close> under the mutex and the write to the \<open>eventfd\<close>; the loop's thread waits in
  \<open>epoll_wait\<close>, handles events (reading the \<open>eventfd\<close> if it was ready), swaps the queue and runs
  the functors, which may queue more. Before \<open>loop\<close> is called the loop's own thread may queue functors, too
  (a server does when it is started), and so may the other threads. A functor is tagged with who queued it.
  \<open>lq_pushed\<close> and \<open>lq_done\<close> record what was queued and run, in order.
\<close>

section \<open>State and steps\<close>

datatype origin = BeforeLoop | OtherThread | EventHandler | Functor

datatype 'f loop_pc =
    Starting
  | Waiting
  | Handling bool
  | Running "(origin \<times> 'f) list"

record 'f loop_queue =
  lq_pending :: "(origin \<times> 'f) list"
  lq_counter :: nat
  lq_writers :: nat
  lq_pc :: "'f loop_pc"
  lq_pushed :: "(origin \<times> 'f) list"
  lq_done :: "(origin \<times> 'f) list"

definition lq_init :: "'f loop_queue" where
  "lq_init = \<lparr>lq_pending = [], lq_counter = 0, lq_writers = 0, lq_pc = Starting, lq_pushed = [], lq_done = []\<rparr>"

definition lq_push :: "origin \<Rightarrow> 'f \<Rightarrow> 'f loop_queue \<Rightarrow> 'f loop_queue" where
  "lq_push src f s = s\<lparr>lq_pending := lq_pending s @ [(src, f)], lq_pushed := lq_pushed s @ [(src, f)]\<rparr>"

text \<open>The loop's thread does not write the \<open>eventfd\<close> when it queues a functor, whether it has not started to
  loop, handles events or runs functors. \<open>start_loop\<close> is the call of \<open>loop\<close>, whose first round polls.\<close>

inductive lq_step :: "'f loop_queue \<Rightarrow> 'f loop_queue \<Rightarrow> bool" where
  start_push: "lq_pc s = Starting \<Longrightarrow> lq_step s (lq_push BeforeLoop f s)"
| start_loop: "lq_pc s = Starting \<Longrightarrow> lq_step s (s\<lparr>lq_pc := Waiting\<rparr>)"
| other_push: "lq_step s (lq_push OtherThread f s\<lparr>lq_writers := Suc (lq_writers s)\<rparr>)"
| other_wakeup: "lq_writers s = Suc n \<Longrightarrow> lq_step s (s\<lparr>lq_writers := n, lq_counter := Suc (lq_counter s)\<rparr>)"
| poll_wakeup: "lq_pc s = Waiting \<Longrightarrow> 0 < lq_counter s \<Longrightarrow> lq_step s (s\<lparr>lq_pc := Handling True\<rparr>)"
| poll_other: "lq_pc s = Waiting \<Longrightarrow> lq_step s (s\<lparr>lq_pc := Handling False\<rparr>)"
| read_eventfd: "lq_pc s = Handling True \<Longrightarrow> lq_step s (s\<lparr>lq_pc := Handling False, lq_counter := 0\<rparr>)"
| handler_push: "lq_pc s = Handling b \<Longrightarrow> lq_step s (lq_push EventHandler f s)"
| swap: "lq_pc s = Handling False \<Longrightarrow> lq_step s (s\<lparr>lq_pc := Running (lq_pending s), lq_pending := []\<rparr>)"
| functor_push: "lq_pc s = Running fs \<Longrightarrow> lq_step s (lq_push Functor f s)"
| run: "lq_pc s = Running (f # fs) \<Longrightarrow> lq_step s (s\<lparr>lq_pc := Running fs, lq_done := lq_done s @ [f]\<rparr>)"
| again: "lq_pc s = Running [] \<Longrightarrow> lq_step s (s\<lparr>lq_pc := Waiting\<rparr>)"

inductive lq_reach :: "'f loop_queue \<Rightarrow> bool" where
  init: "lq_reach lq_init"
| step: "lq_reach s \<Longrightarrow> lq_step s s' \<Longrightarrow> lq_reach s'"

inductive_cases lq_stepE: "lq_step s s'"

section \<open>Invariants\<close>

fun pc_rest :: "'f loop_pc \<Rightarrow> (origin \<times> 'f) list" where
  "pc_rest (Running fs) = fs"
| "pc_rest _ = []"

fun pc_before :: "'f loop_pc \<Rightarrow> bool" where
  "pc_before (Running fs) = False"
| "pc_before _ = True"

fun pc_handling :: "'f loop_pc \<Rightarrow> bool" where
  "pc_handling (Handling b) = True"
| "pc_handling _ = False"

definition lq_inv :: "'f loop_queue \<Rightarrow> bool" where
  "lq_inv s \<longleftrightarrow> lq_pushed s = lq_done s @ pc_rest (lq_pc s) @ lq_pending s \<and>
     (lq_pc s = Starting \<longrightarrow> lq_done s = []) \<and>
     (\<forall>f \<in> set (lq_pending s). fst f = BeforeLoop \<longrightarrow> lq_done s = [] \<and> pc_before (lq_pc s)) \<and>
     (\<forall>f \<in> set (lq_pending s). fst f = Functor \<or> fst f = BeforeLoop \<or>
        fst f = OtherThread \<and> (0 < lq_counter s \<or> 0 < lq_writers s) \<or> pc_handling (lq_pc s))"

lemma lq_inv_step: "lq_step s s' \<Longrightarrow> lq_inv s \<Longrightarrow> lq_inv s'"
  by (elim lq_stepE) (auto simp: lq_inv_def lq_push_def)

lemma lq_inv_reach: "lq_reach s \<Longrightarrow> lq_inv s"
proof (induction rule: lq_reach.induct)
  case init
  then show ?case by (simp add: lq_inv_def lq_init_def)
next
  case (step s s')
  then show ?case using lq_inv_step by blast
qed

text \<open>A run in which a functor queues another one.\<close>

definition lq_asleep :: "'f \<Rightarrow> 'f \<Rightarrow> 'f loop_queue" where
  "lq_asleep f g = \<lparr>lq_pending = [(Functor, f)], lq_counter = 0, lq_writers = 0, lq_pc = Waiting,
     lq_pushed = [(OtherThread, g), (Functor, f)], lq_done = [(OtherThread, g)]\<rparr>"

lemma lq_asleep_reach: "lq_reach (lq_asleep f g)"
proof -
  let ?s0 = "lq_init :: 'a loop_queue"
  let ?i = "?s0\<lparr>lq_pc := Waiting\<rparr>"
  let ?s1 = "lq_push OtherThread g ?i\<lparr>lq_writers := Suc 0\<rparr>"
  let ?s2 = "?s1\<lparr>lq_writers := 0, lq_counter := Suc 0\<rparr>"
  let ?s3 = "?s2\<lparr>lq_pc := Handling True\<rparr>"
  let ?s4 = "?s3\<lparr>lq_pc := Handling False, lq_counter := 0\<rparr>"
  let ?s5 = "?s4\<lparr>lq_pc := Running (lq_pending ?s4), lq_pending := []\<rparr>"
  let ?s6 = "lq_push Functor f ?s5"
  let ?s7 = "?s6\<lparr>lq_pc := Running [], lq_done := lq_done ?s6 @ [(OtherThread, g)]\<rparr>"
  let ?s8 = "?s7\<lparr>lq_pc := Waiting\<rparr>"
  note defs = lq_init_def lq_push_def
  have 0: "lq_reach ?i" by (rule lq_reach.step [OF lq_reach.init lq_step.start_loop]) (simp add: defs)
  have 1: "lq_reach ?s1" using lq_reach.step [OF 0 lq_step.other_push [of ?i g]] by (simp add: defs)
  have 2: "lq_reach ?s2" using lq_reach.step [OF 1 lq_step.other_wakeup [of ?s1 0]] by (simp add: defs)
  have 3: "lq_reach ?s3" by (rule lq_reach.step [OF 2 lq_step.poll_wakeup]) (simp_all add: defs)
  have 4: "lq_reach ?s4" by (rule lq_reach.step [OF 3 lq_step.read_eventfd]) (simp add: defs)
  have 5: "lq_reach ?s5" by (rule lq_reach.step [OF 4 lq_step.swap]) (simp add: defs)
  have 6: "lq_reach ?s6" by (rule lq_reach.step [OF 5 lq_step.functor_push]) (simp add: defs)
  have 7: "lq_reach ?s7" by (rule lq_reach.step [OF 6 lq_step.run]) (simp add: defs)
  have 8: "lq_reach ?s8" by (rule lq_reach.step [OF 7 lq_step.again]) (simp add: defs)
  then show ?thesis by (simp add: defs lq_asleep_def)
qed

text \<open>The loop's thread queues a functor and then calls \<open>loop\<close>.\<close>

definition lq_started :: "'f \<Rightarrow> 'f loop_queue" where
  "lq_started f = \<lparr>lq_pending = [(BeforeLoop, f)], lq_counter = 0, lq_writers = 0, lq_pc = Waiting,
     lq_pushed = [(BeforeLoop, f)], lq_done = []\<rparr>"

lemma lq_started_reach: "lq_reach (lq_started f)"
proof -
  let ?s0 = "lq_init :: 'a loop_queue"
  let ?s1 = "lq_push BeforeLoop f ?s0"
  have 1: "lq_reach ?s1" by (rule lq_reach.step [OF lq_reach.init lq_step.start_push]) (simp add: lq_init_def)
  have "lq_reach (?s1\<lparr>lq_pc := Waiting\<rparr>)"
    by (rule lq_reach.step [OF 1 lq_step.start_loop]) (simp add: lq_init_def lq_push_def)
  then show ?thesis by (simp add: lq_init_def lq_push_def lq_started_def)
qed

text \<open>C14: However the threads interleave, before \<open>loop\<close> is called and in it, the functors are run in the
  order they were queued, each once. And the wakeups written are enough for every functor queued by another
  thread or by an event handler: when the loop waits, the \<open>eventfd\<close> is not ready and no thread is about to
  make it ready, then every functor still in the queue was queued by a functor, or else by the loop's own
  thread before it called \<open>loop\<close>, and then no functor has been run at all.\<close>

theorem no_lost_wakeup:
  assumes "lq_reach s"
  shows "lq_pushed s = lq_done s @ pc_rest (lq_pc s) @ lq_pending s \<and>
    (lq_pc s = Waiting \<and> lq_counter s = 0 \<and> lq_writers s = 0 \<longrightarrow>
      (\<forall>f \<in> set (lq_pending s). fst f = Functor \<or> fst f = BeforeLoop \<and> lq_done s = []))"
  using lq_inv_reach [OF assms] by (auto simp: lq_inv_def)

lemma no_lost_wakeup_witness:
  "let s = lq_asleep (1 :: nat) 2 in lq_reach s \<and> lq_pushed s = lq_done s @ pc_rest (lq_pc s) @ lq_pending s"
  using no_lost_wakeup [OF lq_asleep_reach [of "1 :: nat" 2]] lq_asleep_reach [of "1 :: nat" 2] by (simp add: Let_def)

text \<open>Both exceptions of the property above occur. A functor queued by a functor is not announced: there is a run that leaves the loop waiting with
  this functor in the queue and nothing that will wake it up (only another event or the poll's ten
  second limit does).\<close>

theorem functor_sleeps:
  "\<exists>s. lq_reach s \<and> lq_pc s = Waiting \<and> lq_counter s = 0 \<and> lq_writers s = 0 \<and> lq_pending s = [(Functor, f)] \<and>
     lq_done s = [(OtherThread, g)]"
  using lq_asleep_reach [of f g] by (intro exI [of _ "lq_asleep f g"]) (simp add: lq_asleep_def)

text \<open>Neither is a functor that the loop's own thread queues before it calls \<open>loop\<close>.\<close>

theorem functor_before_loop_sleeps:
  "\<exists>s. lq_reach s \<and> lq_pc s = Waiting \<and> lq_counter s = 0 \<and> lq_writers s = 0 \<and> lq_pending s = [(BeforeLoop, f)]"
  using lq_started_reach [of f] by (intro exI [of _ "lq_started f"]) (simp add: lq_started_def)

end
