(* ===== verification/StrMap.thy ===== *)
theory StrMap
  imports Prelude
begin

text \<open>
  \<open>std::map<std::string, std::string>\<close> as the HTTP code uses it: an association list in strictly
  ascending order of keys (strings compare by their unsigned bytes), with \<open>m[k] = v\<close>
  (\<open>smap_put\<close>), \<open>find\<close> (\<open>smap_get\<close>) and iteration, which is the list itself.
\<close>

type_synonym smap = "(string \<times> string) list"

fun smap_put :: "string \<Rightarrow> string \<Rightarrow> smap \<Rightarrow> smap" where
  "smap_put k v [] = [(k, v)]"
| "smap_put k v ((k', v') # m) =
     (if k < k' then (k, v) # (k', v') # m
      else if k = k' then (k, v) # m
      else (k', v') # smap_put k v m)"

definition smap_get :: "smap \<Rightarrow> string \<Rightarrow> string option" where
  "smap_get m k = map_of m k"

definition smap_ok :: "smap \<Rightarrow> bool" where
  "smap_ok m \<longleftrightarrow> sorted_wrt (<) (map fst m)"

lemma smap_ok_Nil [simp]: "smap_ok []"
  by (simp add: smap_ok_def)

lemma smap_get_Nil [simp]: "smap_get [] k = None"
  by (simp add: smap_get_def)

lemma keys_put: "fst ` set (smap_put k v m) = insert k (fst ` set m)"
  by (induction k v m rule: smap_put.induct) auto

lemma smap_put_ok [simp]: "smap_ok m \<Longrightarrow> smap_ok (smap_put k v m)"
proof (induction k v m rule: smap_put.induct)
  case (2 k v k' v' m)
  then have m: "smap_ok m" "\<forall>y \<in> fst ` set m. k' < y" by (auto simp: smap_ok_def)
  consider "k < k'" | "k = k'" | "k' < k" by (rule linorder_less_linear [THEN disjE]) auto
  then show ?case
  proof cases
    case 3
    have "smap_ok (smap_put k v m)" using 3 m(1) "2.IH" by auto
    moreover have "\<forall>y \<in> fst ` set (smap_put k v m). k' < y" using keys_put [of k v m] m(2) 3 by simp
    ultimately show ?thesis using 3 by (auto simp: smap_ok_def)
  qed (use 2 m in \<open>auto simp: smap_ok_def\<close>)
qed (simp add: smap_ok_def)

lemma smap_get_put: "smap_ok m \<Longrightarrow> smap_get (smap_put k v m) k' = (if k' = k then Some v else smap_get m k')"
proof (induction k v m rule: smap_put.induct)
  case (2 k v k1 v1 m)
  then show ?case by (auto simp: smap_ok_def smap_get_def)
qed (simp add: smap_get_def)

text \<open>Two maps with the same entries are the same list.\<close>

lemma smap_eqI:
  assumes "smap_ok m" "smap_ok m'" and "\<And>k. smap_get m k = smap_get m' k"
  shows "m = m'"
proof -
  have ok: "distinct (map fst m)" "distinct (map fst m')"
    using assms(1,2) by (auto simp: smap_ok_def strict_sorted_iff)
  have "map_of m = map_of m'" using assms(3) by (auto simp: smap_get_def)
  then have "set m = set m'" using map_of_inject_set [OF ok] by simp
  then have "map fst m = map fst m'"
    using assms(1,2) by (intro sorted_distinct_set_unique)
      (auto simp: smap_ok_def strict_sorted_iff)
  then show ?thesis using ok \<open>map_of m = map_of m'\<close> by (metis map_of_zip_inject zip_map_fst_snd length_map)
qed

end
