(* ===== verification/HttpResponse.thy ===== *)
theory HttpResponse
  imports StrMap Buffer Decimal
begin

text \<open>
  \<open>muduo/net/http/HttpResponse.h\<close>, \<open>HttpResponse.cc\<close> and \<open>muduo/net/File.h\<close>: the response a
  handler fills in, and how it is written to a buffer. \<open>open\<close> and \<open>fstat\<close> are arguments of \<open>File_init\<close>.
  The constructor leaves \<open>statusCode_\<close> unset (\<open>None\<close>); writing such a response uses an
  indeterminate value.
\<close>

section \<open>Files\<close>

record send_file =
  file_fd :: int
  fileSize :: nat

definition File_init :: "(string \<Rightarrow> int) \<Rightarrow> (int \<Rightarrow> nat) \<Rightarrow> string \<Rightarrow> send_file" where
  "File_init open_file stat_size name =
     (let fd = open_file name in \<lparr>file_fd = fd, fileSize = (if 0 \<le> fd then stat_size fd else 0)\<rparr>)"

section \<open>Responses\<close>

record http_response =
  closeConnection :: bool
  statusCode :: "int option"
  statusString :: string
  resp_header :: smap
  resp_body :: string
  isSendFile :: bool
  resp_file :: "send_file option"

definition HttpResponse_init :: "bool \<Rightarrow> http_response" where
  "HttpResponse_init closed = \<lparr>closeConnection = closed, statusCode = None, statusString = [],
     resp_header = [], resp_body = [], isSendFile = False, resp_file = None\<rparr>"

definition setHttpStatusCode :: "int \<Rightarrow> http_response \<Rightarrow> http_response" where
  "setHttpStatusCode code r = r\<lparr>statusCode := Some code\<rparr>"

definition setStatusString :: "string \<Rightarrow> http_response \<Rightarrow> http_response" where
  "setStatusString s r = r\<lparr>statusString := s\<rparr>"

definition resp_addHeader :: "string \<Rightarrow> string \<Rightarrow> http_response \<Rightarrow> http_response" where
  "resp_addHeader k v r = r\<lparr>resp_header := smap_put k v (resp_header r)\<rparr>"

definition setContentType :: "string \<Rightarrow> http_response \<Rightarrow> http_response" where
  "setContentType t r = resp_addHeader ''Content-Type'' t r"

definition setCloseConnection :: "bool \<Rightarrow> http_response \<Rightarrow> http_response" where
  "setCloseConnection on r = r\<lparr>closeConnection := on\<rparr>"

definition resp_setBody :: "string \<Rightarrow> http_response \<Rightarrow> http_response" where
  "resp_setBody b r = r\<lparr>resp_body := b\<rparr>"

definition resp_sendFile :: "(string \<Rightarrow> int) \<Rightarrow> (int \<Rightarrow> nat) \<Rightarrow> string \<Rightarrow> http_response \<Rightarrow> http_response" where
  "resp_sendFile open_file stat_size name r =
     r\<lparr>isSendFile := True, resp_file := Some (File_init open_file stat_size name)\<rparr>"

text \<open>
  \<open>appendToBuffer\<close>: its appends in order. The two \<open>snprintf\<close> calls share a buffer of 32 bytes; \<open>%zd\<close>
  prints the size as a signed number.
\<close>

definition show_zd :: "nat \<Rightarrow> string" where
  "show_zd n = show_int (if n < 2 ^ 63 then int n else int n - 2 ^ 64)"

definition content_length_line :: "nat \<Rightarrow> string" where
  "content_length_line n = snprintf_trunc 32 (''Content-Length: '' @ show_zd n @ kCRLF)"

definition header_pieces :: "smap \<Rightarrow> string list" where
  "header_pieces m = concat (map (\<lambda>(k, v). [k, '': '', v, kCRLF]) m)"

definition response_pieces :: "http_response \<Rightarrow> string list result" where
  "response_pieces r =
     (case statusCode r of
        None \<Rightarrow> Inl Uninitialised
      | Some code \<Rightarrow>
          rbind (if closeConnection r then Inr [''Connection: close'' @ kCRLF]
                 else rbind (if isSendFile r
                             then case resp_file r of None \<Rightarrow> Inl NullDeref | Some f \<Rightarrow> Inr (fileSize f)
                             else Inr (length (resp_body r))) (\<lambda>len.
                      Inr [content_length_line len, ''Connection: Keep-Alive'' @ kCRLF])) (\<lambda>conn.
          Inr ([snprintf_trunc 32 (''HTTP/1.1 '' @ show_int code @ '' ''), statusString r, kCRLF] @ conn @
               header_pieces (resp_header r) @ [kCRLF, resp_body r])))"

definition appendToBuffer :: "http_response \<Rightarrow> buf \<Rightarrow> buf result" where
  "appendToBuffer r b = rbind (response_pieces r) (put_all append_buf b)"

section \<open>What is written\<close>

definition render_resp_headers :: "smap \<Rightarrow> string" where
  "render_resp_headers m = concat (map (\<lambda>(k, v). k @ '': '' @ v @ kCRLF) m)"

text \<open>The response as a protocol message: status line, connection headers, headers, body.\<close>

definition render_response :: "int \<Rightarrow> http_response \<Rightarrow> nat \<Rightarrow> string" where
  "render_response code r len =
     ''HTTP/1.1 '' @ show_int code @ '' '' @ statusString r @ kCRLF @
     (if closeConnection r then ''Connection: close'' @ kCRLF
      else ''Content-Length: '' @ show_nat len @ kCRLF @ ''Connection: Keep-Alive'' @ kCRLF) @
     render_resp_headers (resp_header r) @ kCRLF @ resp_body r"

definition body_length :: "http_response \<Rightarrow> nat" where
  "body_length r = (if isSendFile r then (case resp_file r of Some f \<Rightarrow> fileSize f | None \<Rightarrow> 0)
     else length (resp_body r))"

lemma concat_header_pieces: "concat (header_pieces m) = render_resp_headers m"
  by (induction m) (auto simp: header_pieces_def render_resp_headers_def)

lemma content_length_short:
  assumes "n < 10 ^ 13"
  shows "content_length_line n = ''Content-Length: '' @ show_nat n @ kCRLF"
proof -
  have "n < 10 ^ Suc 12" using assms by simp
  then have "length (show_nat n) \<le> 13" using length_show_nat [of n 12] by simp
  then show ?thesis using assms
    by (simp add: content_length_line_def show_zd_def show_int_def snprintf_fits kCRLF_def)
qed

lemma status_line_fits:
  assumes "\<bar>code\<bar> < 10 ^ 10"
  shows "snprintf_trunc 32 (''HTTP/1.1 '' @ show_int code @ '' '') = ''HTTP/1.1 '' @ show_int code @ '' ''"
proof -
  have "nat \<bar>code\<bar> < 10 ^ Suc 9" using assms by simp
  then have "length (show_nat (nat \<bar>code\<bar>)) \<le> Suc 9" by (rule length_show_nat)
  then have "length (show_int code) \<le> 11" by (auto simp: show_int_def abs_if split: if_splits)
  then show ?thesis by (intro snprintf_fits) simp
qed

lemma response_pieces_ok:
  assumes "statusCode r = Some code" and "\<bar>code\<bar> < 10 ^ 10" and "body_length r < 10 ^ 13"
    and "isSendFile r \<longrightarrow> resp_file r \<noteq> None"
  shows "\<exists>ss. response_pieces r = Inr ss \<and> concat ss = render_response code r (body_length r)"
  using assms status_line_fits [OF assms(2)] content_length_short [OF assms(3)]
  by (auto simp: response_pieces_def render_response_def concat_header_pieces body_length_def)

text \<open>\<open>appendToBuffer\<close> appends exactly the response as a protocol message behind what the buffer holds:
  status line, Content-Length (of the body, or of the file to send) and Connection headers, the
  handler's headers in ascending order of names, a blank line and the body.\<close>

theorem appendToBuffer_renders:
  assumes "statusCode r = Some code" and "\<bar>code\<bar> < 10 ^ 10" and "body_length r < 10 ^ 13"
    and "isSendFile r \<longrightarrow> resp_file r \<noteq> None" and "buf_ok b"
    and "length (store b) + length (render_response code r (body_length r)) \<le> vec_max_size"
  shows "\<exists>b'. appendToBuffer r b = Inr b' \<and> buf_ok b' \<and>
    content b' = content b @ render_response code r (body_length r)"
proof -
  from response_pieces_ok [OF assms(1-4)] obtain ss where ss: "response_pieces r = Inr ss"
    "concat ss = render_response code r (body_length r)" by blast
  from bq.put_all_ok [OF assms(5), of ss] ss assms(6) show ?thesis by (auto simp: appendToBuffer_def)
qed

lemma appendToBuffer_renders_witness:
  "\<exists>b'. appendToBuffer (resp_setBody ''hi'' (setContentType ''text/plain''
      (setStatusString ''OK'' (setHttpStatusCode 200 (HttpResponse_init False))))) (Buffer_init kInitSize) = Inr b' \<and>
    content b' = ''HTTP/1.1 200 OK'' @ kCRLF @ ''Content-Length: 2'' @ kCRLF @ ''Connection: Keep-Alive'' @ kCRLF @
      ''Content-Type: text/plain'' @ kCRLF @ kCRLF @ ''hi''"
proof -
  let ?r = "resp_setBody ''hi'' (setContentType ''text/plain''
      (setStatusString ''OK'' (setHttpStatusCode 200 (HttpResponse_init False))))"
  have code: "statusCode ?r = Some 200" by code_simp
  have len: "body_length ?r = 2" by code_simp
  have render: "render_response 200 ?r 2 = ''HTTP/1.1 200 OK'' @ kCRLF @ ''Content-Length: 2'' @ kCRLF @
      ''Connection: Keep-Alive'' @ kCRLF @ ''Content-Type: text/plain'' @ kCRLF @ kCRLF @ ''hi''" by code_simp
  have sent: "isSendFile ?r \<longrightarrow> resp_file ?r \<noteq> None" by code_simp
  have st: "length (store (Buffer_init kInitSize)) = 1024" by (simp add: Buffer_init_def kInitSize_def)
  have "length (render_response 200 ?r 2) < 1000" unfolding render by code_simp
  then have room: "length (store (Buffer_init kInitSize)) + length (render_response 200 ?r (body_length ?r)) \<le> vec_max_size"
    unfolding st len by (simp add: vec_max_size_def)
  have small: "\<bar>200::int\<bar> < 10 ^ 10" "body_length ?r < 10 ^ 13" unfolding len by simp_all
  from appendToBuffer_renders [OF code small sent buf_ok_default room] obtain b' where
    "appendToBuffer ?r (Buffer_init kInitSize) = Inr b'"
    "content b' = content (Buffer_init kInitSize) @ render_response 200 ?r (body_length ?r)" by blast
  then show ?thesis unfolding len render content_init append_Nil by blast
qed

text \<open>For a file of ten terabytes or more the header line no longer fits the 32 bytes: the line
  that is written ends with a digit or inside its line end, so that the next header is glued to it.\<close>

theorem content_length_truncated:
  assumes "10 ^ 13 \<le> n" and "n < 2 ^ 63"
  shows "length (content_length_line n) = 31 \<and>
    \<not> (\<exists>s. content_length_line n = s @ kCRLF)"
proof -
  have digits: "14 \<le> length (show_nat n)"
  proof (rule ccontr)
    assume "\<not> ?thesis"
    then have "length (show_nat n) \<le> 13" by simp
    moreover have "n < 10 ^ length (show_nat n)" by (rule show_nat_bound)
    ultimately have "n < 10 ^ 13" by (meson order_less_le_trans power_increasing one_le_numeral)
    with assms(1) show False by simp
  qed
  let ?s = "''Content-Length: '' @ show_nat n @ kCRLF"
  have line: "content_length_line n = take 31 ?s"
    using assms(2) by (simp add: content_length_line_def show_zd_def show_int_def snprintf_trunc_def)
  have len: "length (take 31 ?s) = 31" using digits by (simp add: kCRLF_def)
  have "take 31 ?s ! 29 \<noteq> CHR 0x0D"
  proof -
    have "take 31 ?s ! 29 = show_nat n ! 13" using digits by (simp add: nth_append)
    moreover have "is_digit (show_nat n ! 13)" using digits by (intro show_nat_digits [of _ n] nth_mem) simp
    ultimately show ?thesis by (auto simp: is_digit_code)
  qed
  then have "take 31 ?s \<noteq> s @ kCRLF" for s
  proof (rule contrapos_nn)
    assume eq: "take 31 ?s = s @ kCRLF"
    then have "length s = 29" using len by (simp add: kCRLF_def)
    then show "take 31 ?s ! 29 = CHR 0x0D" unfolding eq by (simp add: nth_append kCRLF_def)
  qed
  then show ?thesis using line len by auto
qed

lemma content_length_truncated_witness:
  "length (content_length_line 10000000000000) = 31 \<and>
   \<not> (\<exists>s. content_length_line 10000000000000 = s @ kCRLF)"
  by (rule content_length_truncated) simp_all

end
