(* ===== verification/AnyValue.thy ===== *)
theory AnyValue
  imports Prelude
begin

text \<open>
  \<open>muduo/base/Any.h\<close>: a holder of one value of any type. The types an application stores are the
  cases of a type \<open>'v\<close> of its own; \<open>None\<close> is the null pointer of an empty holder. \<open>cast\<close> is an
  unchecked \<open>static_cast\<close>: \<open>as_type\<close> is the view of a stored value at the type asked for, and
  a value of another type (\<open>None\<close>) or an empty holder makes the cast undefined behaviour.
\<close>

type_synonym 'v any = "'v option"

definition Any_default :: "'v any" where "Any_default = None"

definition any_of :: "'v \<Rightarrow> 'v any" where "any_of v = Some v"

text \<open>The copy constructor clones what there is; the move constructor leaves the source empty.\<close>

definition any_copy :: "'v any \<Rightarrow> 'v any" where
  "any_copy that = (case that of Some v \<Rightarrow> Some v | None \<Rightarrow> Any_default)"

definition any_move :: "'v any \<Rightarrow> 'v any \<times> 'v any" where
  "any_move that = (that, None)"

text \<open>Copy assignment assigns only when the source holds something.\<close>

definition any_assign :: "'v any \<Rightarrow> 'v any \<Rightarrow> 'v any" where
  "any_assign this that = (case that of Some v \<Rightarrow> Some v | None \<Rightarrow> this)"

definition any_assign_move :: "'v any \<Rightarrow> 'v any \<Rightarrow> 'v any \<times> 'v any" where
  "any_assign_move this that = (that, None)"

definition any_set :: "'v any \<Rightarrow> 'v \<Rightarrow> 'v any" where
  "any_set this v = any_of v"

definition any_empty :: "'v any \<Rightarrow> bool" where
  "any_empty a \<longleftrightarrow> a = None"

definition any_cast :: "('v \<Rightarrow> 'a option) \<Rightarrow> 'v any \<Rightarrow> 'a result" where
  "any_cast as_type a =
     (case a of
        None \<Rightarrow> Inl NullDeref
      | Some v \<Rightarrow> (case as_type v of Some x \<Rightarrow> Inr x | None \<Rightarrow> Inl OutOfBounds))"

lemma any_cast_set [simp]: "as_type v = Some x \<Longrightarrow> any_cast as_type (any_set a v) = Inr x"
  by (simp add: any_cast_def any_set_def any_of_def)

text \<open>Assignment copies a value, but assigning an empty holder does nothing: the target keeps what it
  held before, where an assignment should make it equal to its source; a copy-constructed holder
  and a moved one do equal their source.\<close>

theorem any_assign_keeps_old:
  "any_assign this that = (if any_empty that then this else that) \<and>
   any_assign (any_of v) Any_default \<noteq> Any_default \<and>
   any_copy that = that \<and> any_assign_move this that = (that, Any_default)"
  by (auto simp: any_assign_def any_empty_def any_of_def any_copy_def any_assign_move_def Any_default_def
      split: option.splits)

end
