(* ===== verification/TcpConnection.thy ===== *)
theory TcpConnection
  imports EventLoop Buffer HttpResponse AnyValue
begin

text \<open>
  \<open>muduo/net/TcpConnection.h\<close>, \<open>TcpConnection.cc\<close>: one connection in the loop that owns it. The record
  \<open>world\<close> extends the loop by the connection and by the system calls made on its socket, in order
  (\<open>w_sys\<close>). What a system call returns is the environment's (\<open>sys_ret\<close>, \<open>sys_readv\<close>, which see the
  calls before it); so is what an application callback does (\<open>user\<close>), which may change anything.
  The type \<open>'u\<close> stands for what the application hands over without its type: the targets of its
  \<open>std::function\<close>s and the contexts in \<open>Any\<close>. \<open>c_wcSet\<close> counts the assignments to
  \<open>writeCompleteCallback_\<close>: an assignment destroys the target stored before, and the arguments bound in it.
  \<open>file_fd\<close> and \<open>fileSize\<close> of a file are those of \<open>HttpResponse\<close>. A \<open>const void*\<close> is a region of memory
  and an offset into it; a closure that has bound one keeps the pointer, not the bytes, and \<open>region_then\<close> says what the
  region holds when the closure runs, or that it is gone. \<open>size_t\<close> values are 64-bit words where the code lets them wrap around.
\<close>

section \<open>State\<close>

datatype conn_state = kConnecting | kConnected | kDisConnecting | kDisConnected

datatype syscall =
    SysReadv int
  | SysWrite int string
  | SysSendfile int int nat
  | SysShutdown int
  | SysClose int

text \<open>The closures a connection binds; \<open>WakeupRead\<close> is the callback of the loop's own channel, \<open>EventLoop::handleRead\<close>.\<close>

datatype 'u closure =
    ConnHandleRead | ConnHandleWrite | ConnHandleError | ConnHandleClose
  | ConnSendString string
  | ConnSendRaw string nat nat
  | ConnSendFileIn send_file
  | ConnShutdownIn
  | ConnEstablished
  | ConnDestroyed
  | WakeupRead
  | Application 'u

record 'u conn =
  c_state :: conn_state
  c_reading :: bool
  c_file :: "send_file option"
  c_fileWrote :: "64 word"
  c_name :: string
  c_socket :: int
  c_channel :: addr
  messageCallback :: "'u option"
  connectionCallback :: "'u option"
  c_closeCallback :: "'u option"
  writeCompleteCallback :: "'u option"
  inputBuffer :: buf
  outputBuffer :: buf
  c_context :: "'u any"
  c_wcSet :: nat

record 'u world = "'u closure loop" +
  w_conn :: "'u conn"
  w_sys :: "syscall list"

record 'u env =
  sys_ret :: "syscall list \<Rightarrow> syscall \<Rightarrow> int \<times> int"
  sys_readv :: "syscall list \<Rightarrow> int + string"
  region_then :: "syscall list \<Rightarrow> string \<Rightarrow> string option"
  user :: "'u \<Rightarrow> 'u world \<Rightarrow> 'u world result"

definition EPIPE :: int where "EPIPE = 32"
definition ECONNRESET :: int where "ECONNRESET = 104"

text \<open>The constructor, with the address of the new channel.\<close>

definition TcpConnection_init :: "string \<Rightarrow> int \<Rightarrow> addr \<Rightarrow> 'u conn" where
  "TcpConnection_init name sockfd a =
     \<lparr>c_state = kConnecting, c_reading = True, c_file = None, c_fileWrote = 0, c_name = name, c_socket = sockfd,
      c_channel = a, messageCallback = None, connectionCallback = None, c_closeCallback = None,
      writeCompleteCallback = None, inputBuffer = Buffer_init kInitSize, outputBuffer = Buffer_init kInitSize,
      c_context = Any_default, c_wcSet = 0\<rparr>"

definition conn_channel :: "'u closure channel \<Rightarrow> 'u closure channel" where
  "conn_channel c = setWriteCallback ConnHandleWrite (setCloseCallback ConnHandleClose
     (setErrorCallback ConnHandleError (setReadCallback ConnHandleRead c)))"

section \<open>Access to the state\<close>

definition with_conn :: "('u conn \<Rightarrow> 'u conn) \<Rightarrow> 'u world \<Rightarrow> 'u world" where
  "with_conn f w = w\<lparr>w_conn := f (w_conn w)\<rparr>"

definition conn_setConnectionCallback :: "'u option \<Rightarrow> 'u world \<Rightarrow> 'u world" where
  "conn_setConnectionCallback cb = with_conn (\<lambda>c. c\<lparr>connectionCallback := cb\<rparr>)"

definition conn_setCloseCallback :: "'u option \<Rightarrow> 'u world \<Rightarrow> 'u world" where
  "conn_setCloseCallback cb = with_conn (\<lambda>c. c\<lparr>c_closeCallback := cb\<rparr>)"

definition conn_setMessageCallback :: "'u option \<Rightarrow> 'u world \<Rightarrow> 'u world" where
  "conn_setMessageCallback cb = with_conn (\<lambda>c. c\<lparr>messageCallback := cb\<rparr>)"

definition conn_setWriteCompleteCallback :: "'u option \<Rightarrow> 'u world \<Rightarrow> 'u world" where
  "conn_setWriteCompleteCallback cb = with_conn (\<lambda>c. c\<lparr>writeCompleteCallback := cb, c_wcSet := Suc (c_wcSet c)\<rparr>)"

definition conn_connected :: "'u world \<Rightarrow> bool" where
  "conn_connected w \<longleftrightarrow> c_state (w_conn w) = kConnected"

definition getContext :: "'u world \<Rightarrow> 'u any" where
  "getContext w = c_context (w_conn w)"

definition setContext :: "'u \<Rightarrow> 'u world \<Rightarrow> 'u world" where
  "setContext v = with_conn (\<lambda>c. c\<lparr>c_context := any_set (c_context c) v\<rparr>)"

text \<open>A reference to an argument bound in the write-complete callback, taken after \<open>g\<close> assignments to it.\<close>

definition bound_arg :: "nat \<Rightarrow> 'a \<Rightarrow> 'u world \<Rightarrow> 'a result" where
  "bound_arg g x w = (if c_wcSet (w_conn w) = g then Inr x else Inl UseAfterFree)"

definition sock_channel :: "'u world \<Rightarrow> 'u closure channel result" where
  "sock_channel w = chan_deref (chans w) (c_channel (w_conn w))"

definition sys_call :: "'u env \<Rightarrow> syscall \<Rightarrow> 'u world \<Rightarrow> int \<times> int \<times> 'u world" where
  "sys_call env sc w =
     (let (r, err) = sys_ret env (w_sys w) sc in (r, err, w\<lparr>w_sys := w_sys w @ [sc]\<rparr>))"

text \<open>Calling a \<open>std::function\<close>; the code calls \<open>writeCompleteCallback_\<close> only when it is set.\<close>

definition call_user :: "'u env \<Rightarrow> 'u option \<Rightarrow> 'u world \<Rightarrow> 'u world result" where
  "call_user env cb w = (case cb of Some u \<Rightarrow> user env u w | None \<Rightarrow> Inl BadFunctionCall)"

definition call_write_complete :: "'u env \<Rightarrow> 'u world \<Rightarrow> 'u world result" where
  "call_write_complete env w =
     (case writeCompleteCallback (w_conn w) of Some u \<Rightarrow> user env u w | None \<Rightarrow> Inr w)"

text \<open>Reading \<open>n\<close> bytes at an offset of a region.\<close>

definition mem_read :: "string \<Rightarrow> nat \<Rightarrow> nat \<Rightarrow> string result" where
  "mem_read region off n =
     (if off + n \<le> length region then Inr (take n (drop off region)) else Inl OutOfBounds)"

section \<open>Establishing and closing\<close>

definition connectEstablished :: "'u env \<Rightarrow> int \<Rightarrow> 'u world \<Rightarrow> 'u world result" where
  "connectEstablished env tid w =
     rbind (assert_ok (isInLoopThread tid w)) (\<lambda>_.
     let w = with_conn (\<lambda>c. c\<lparr>c_state := kConnected\<rparr>) w in
     rbind (enableReading tid (c_channel (w_conn w)) w) (\<lambda>w.
     call_user env (connectionCallback (w_conn w)) w))"

definition connectDestroyed :: "'u env \<Rightarrow> int \<Rightarrow> 'u world \<Rightarrow> 'u world result" where
  "connectDestroyed env tid w =
     (let w = assertInLoopThread tid w in
      rbind (if c_state (w_conn w) = kConnected
             then let w = with_conn (\<lambda>c. c\<lparr>c_state := kDisConnected\<rparr>) w in
               rbind (disableAll tid (c_channel (w_conn w)) w) (\<lambda>w.
               call_user env (connectionCallback (w_conn w)) w)
             else Inr w) (\<lambda>w.
      Channel_remove tid (c_channel (w_conn w)) w))"

definition conn_handleClose :: "'u env \<Rightarrow> int \<Rightarrow> 'u world \<Rightarrow> 'u world result" where
  "conn_handleClose env tid w =
     (let w = with_conn (\<lambda>c. c\<lparr>c_state := kDisConnected\<rparr>) w in
      rbind (disableAll tid (c_channel (w_conn w)) w) (\<lambda>w.
      rbind (call_user env (connectionCallback (w_conn w)) w) (\<lambda>w.
      call_user env (c_closeCallback (w_conn w)) w)))"

definition conn_handleError :: "'u world \<Rightarrow> 'u world" where
  "conn_handleError w = w"

section \<open>Reading\<close>

text \<open>\<open>size_t n\<close> holds the \<open>ssize_t\<close> of \<open>readFd\<close>.\<close>

definition conn_handleRead :: "'u env \<Rightarrow> int \<Rightarrow> 'u world \<Rightarrow> 'u world result" where
  "conn_handleRead env tid w =
     (let got = sys_readv env (w_sys w);
          w = w\<lparr>w_sys := w_sys w @ [SysReadv (c_socket (w_conn w))]\<rparr> in
      rbind (readFd (inputBuffer (w_conn w)) got) (\<lambda>(r, savedErrno, b).
      let n = word_of_int r :: 64 word;
          w = with_conn (\<lambda>c. c\<lparr>inputBuffer := b\<rparr>) w in
      if 0 < n then call_user env (messageCallback (w_conn w)) w
      else if n = 0 then conn_handleClose env tid w
      else Inr (conn_handleError w)))"

section \<open>Writing\<close>

definition file_step :: "'u env \<Rightarrow> int \<Rightarrow> send_file \<Rightarrow> 'u world \<Rightarrow> 'u world result" where
  "file_step env tid f w =
     (let (r, err, w) = sys_call env (SysSendfile (file_fd f) (c_socket (w_conn w)) (fileSize f)) w;
          w = with_conn (\<lambda>c. c\<lparr>c_fileWrote := c_fileWrote c + word_of_int r\<rparr>) w in
      if c_fileWrote (w_conn w) = of_nat (fileSize f)
      then rbind (disableWriting tid (c_channel (w_conn w)) w) (\<lambda>w.
           call_write_complete env (with_conn (\<lambda>c. c\<lparr>c_file := None, c_fileWrote := 0\<rparr>) w))
      else Inr w)"

definition buffer_step :: "'u env \<Rightarrow> int \<Rightarrow> 'u world \<Rightarrow> 'u world result" where
  "buffer_step env tid w =
     (let b = outputBuffer (w_conn w) in
      rbind (read_range b (peek b) (peek b + readableBytes b)) (\<lambda>data.
      let (nwrote, err, w) = sys_call env (SysWrite (c_socket (w_conn w)) data) w in
      if 0 < nwrote
      then let w = with_conn (\<lambda>c. c\<lparr>outputBuffer := retrieve (outputBuffer c) (nat nwrote)\<rparr>) w in
        if readableBytes (outputBuffer (w_conn w)) = 0
        then rbind (disableWriting tid (c_channel (w_conn w)) w) (\<lambda>w. call_write_complete env w)
        else Inr w
      else Inr w))"

definition conn_handleWrite :: "'u env \<Rightarrow> int \<Rightarrow> 'u world \<Rightarrow> 'u world result" where
  "conn_handleWrite env tid w =
     (let w = assertInLoopThread tid w in
      rbind (sock_channel w) (\<lambda>c.
      rbind (assert_ok (isWriting c)) (\<lambda>_.
      if isWriting c
      then (case c_file (w_conn w) of
              Some f \<Rightarrow> file_step env tid f w
            | None \<Rightarrow> buffer_step env tid w)
      else Inr w)))"

text \<open>\<open>size_t nwrote\<close> holds the \<open>ssize_t\<close> of \<open>write\<close>: \<open>nwrote >= 0\<close> holds always. The pointer
  \<open>(const char*)buf+nwrote\<close> wraps around with it.\<close>

definition sendInLoop :: "'u env \<Rightarrow> int \<Rightarrow> string \<Rightarrow> nat \<Rightarrow> nat \<Rightarrow> 'u world \<Rightarrow> 'u world result" where
  "sendInLoop env tid region off len w =
     (if c_state (w_conn w) \<noteq> kConnected then Inr w
      else let w = assertInLoopThread tid w in
      rbind (sock_channel w) (\<lambda>c.
      rbind (if \<not> isWriting c \<and> readableBytes (outputBuffer (w_conn w)) = 0
             then rbind (mem_read region off len) (\<lambda>data.
               let (r, err, w) = sys_call env (SysWrite (c_socket (w_conn w)) data) w;
                   nwrote = word_of_int r :: 64 word in
               if 0 \<le> nwrote
               then let remain = of_nat len - nwrote in
                 rbind (if remain = 0 then call_write_complete env w else Inr w) (\<lambda>w.
                 Inr (nwrote, remain, False, w))
               else Inr (0, of_nat len, err = EPIPE \<or> err = ECONNRESET, w))
             else Inr (0, of_nat len, False, w)) (\<lambda>(nwrote, remain, faultError, w).
      if 0 < remain \<and> \<not> faultError
      then rbind (mem_read region (sz_add off (unat nwrote)) (unat remain)) (\<lambda>data.
           rbind (append_buf (outputBuffer (w_conn w)) data) (\<lambda>b.
           let w = with_conn (\<lambda>c. c\<lparr>outputBuffer := b\<rparr>) w in
           rbind (sock_channel w) (\<lambda>c.
           if \<not> isWriting c then enableWriting tid (c_channel (w_conn w)) w else Inr w)))
      else Inr w)))"

text \<open>The bytes of a string, with the NUL behind them.\<close>

abbreviation c_str :: "string \<Rightarrow> string" where "c_str s \<equiv> s @ [NUL]"

definition sendInLoopAsString :: "'u env \<Rightarrow> int \<Rightarrow> string \<Rightarrow> 'u world \<Rightarrow> 'u world result" where
  "sendInLoopAsString env tid s w =
     (if c_state (w_conn w) \<noteq> kConnected then Inr w
      else let w = assertInLoopThread tid w in sendInLoop env tid (c_str s) 0 (length s) w)"

definition send_raw :: "'u env \<Rightarrow> int \<Rightarrow> string \<Rightarrow> nat \<Rightarrow> nat \<Rightarrow> 'u world \<Rightarrow> 'u world result" where
  "send_raw env tid region off len w =
     (if c_state (w_conn w) \<noteq> kConnected then Inr w
      else if isInLoopThread tid w then sendInLoop env tid region off len w
      else runInLoop (\<lambda>_. sendInLoop env tid region off len) tid (ConnSendRaw region off len) w)"

text \<open>\<open>strlen\<close> stops at the first NUL.\<close>

definition send_cstr :: "'u env \<Rightarrow> int \<Rightarrow> string \<Rightarrow> 'u world \<Rightarrow> 'u world result" where
  "send_cstr env tid s w =
     (if c_state (w_conn w) \<noteq> kConnected then Inr w
      else send_raw env tid (c_str s) 0 (find_char NUL (c_str s)) w)"

definition send_string :: "'u env \<Rightarrow> int \<Rightarrow> string \<Rightarrow> 'u world \<Rightarrow> 'u world result" where
  "send_string env tid s w =
     (if c_state (w_conn w) \<noteq> kConnected then Inr w
      else if isInLoopThread tid w then sendInLoop env tid (c_str s) 0 (length s) w
      else runInLoop (\<lambda>_. sendInLoopAsString env tid s) tid (ConnSendString s) w)"

definition send_buffer :: "'u env \<Rightarrow> int \<Rightarrow> buf \<Rightarrow> 'u world \<Rightarrow> (buf \<times> 'u world) result" where
  "send_buffer env tid b w =
     (if c_state (w_conn w) \<noteq> kConnected then Inr (b, w)
      else rbind (sendInLoop env tid (store b) (peek b) (readableBytes b) w) (\<lambda>w.
           Inr (retrieve b (readableBytes b), w)))"

section \<open>Files\<close>

definition sendFileInLoop :: "'u env \<Rightarrow> int \<Rightarrow> send_file \<Rightarrow> 'u world \<Rightarrow> 'u world result" where
  "sendFileInLoop env tid f w =
     rbind (assert_ok (c_file (w_conn w) = None)) (\<lambda>_.
     let w = with_conn (\<lambda>c. c\<lparr>c_fileWrote := 0\<rparr>) w in
     if 0 \<le> file_fd f
     then rbind (sock_channel w) (\<lambda>c.
          rbind (if \<not> isWriting c \<and> readableBytes (outputBuffer (w_conn w)) = 0
             then let (r, err, w) = sys_call env (SysSendfile (c_socket (w_conn w)) (file_fd f) (fileSize f)) w;
                      nwrote = word_of_int r :: 64 word;
                      w = with_conn (\<lambda>c. c\<lparr>c_fileWrote := c_fileWrote c + nwrote\<rparr>) w in
               if 0 \<le> nwrote
               then let remain = of_nat (fileSize f) - nwrote;
                        w = (if remain = 0 then with_conn (\<lambda>c. c\<lparr>c_fileWrote := 0\<rparr>) w else w) in
                 rbind (if remain = 0 then call_write_complete env w else Inr w) (\<lambda>w.
                 Inr (remain, False, w))
               else Inr (of_nat (fileSize f), err = EPIPE \<or> err = ECONNRESET, w)
             else Inr (of_nat (fileSize f) :: 64 word, False, w)) (\<lambda>(remain, faultError, w).
          if 0 < remain \<and> \<not> faultError
          then let w = with_conn (\<lambda>c. c\<lparr>c_file := Some f\<rparr>) w in
            rbind (sock_channel w) (\<lambda>c.
            if \<not> isWriting c then enableWriting tid (c_channel (w_conn w)) w else Inr w)
          else Inr w))
     else Inr w)"

definition conn_sendFile :: "'u env \<Rightarrow> int \<Rightarrow> send_file \<Rightarrow> 'u world \<Rightarrow> 'u world result" where
  "conn_sendFile env tid f w =
     (if c_state (w_conn w) \<noteq> kConnected then Inr w
      else if isInLoopThread tid w then sendFileInLoop env tid f w
      else runInLoop (\<lambda>_. sendFileInLoop env tid f) tid (ConnSendFileIn f) w)"

section \<open>Shutting down\<close>

definition shutdownWrite :: "'u env \<Rightarrow> 'u world \<Rightarrow> 'u world" where
  "shutdownWrite env w = (case sys_call env (SysShutdown (c_socket (w_conn w))) w of (r, err, w) \<Rightarrow> w)"

definition shutdownInLoop :: "'u env \<Rightarrow> int \<Rightarrow> 'u world \<Rightarrow> 'u world result" where
  "shutdownInLoop env tid w =
     (let w = assertInLoopThread tid w in
      rbind (sock_channel w) (\<lambda>c. Inr (if \<not> isWriting c then shutdownWrite env w else w)))"

definition conn_shutdown :: "'u env \<Rightarrow> int \<Rightarrow> 'u world \<Rightarrow> 'u world result" where
  "conn_shutdown env tid w =
     (if c_state (w_conn w) = kConnected
      then runInLoop (\<lambda>_. shutdownInLoop env tid) tid ConnShutdownIn (with_conn (\<lambda>c. c\<lparr>c_state := kDisConnecting\<rparr>) w)
      else Inr w)"

text \<open>The destructor: its assertion, then the members in reverse order: the channel with its assertions, and the
  socket, whose destructor closes the descriptor (the result of \<open>close\<close> is only logged).\<close>

definition TcpConnection_dtor :: "int \<Rightarrow> 'u world \<Rightarrow> 'u world result" where
  "TcpConnection_dtor tid w =
     rbind (assert_ok (c_state (w_conn w) = kDisConnected)) (\<lambda>_.
     rbind (Channel_dtor tid (c_channel (w_conn w)) w) (\<lambda>w.
     Inr (w\<lparr>w_sys := w_sys w @ [SysClose (c_socket (w_conn w))]\<rparr>)))"

section \<open>Running closures\<close>

fun run_closure :: "'u env \<Rightarrow> int \<Rightarrow> 'u closure \<Rightarrow> 'u world \<Rightarrow> 'u world result" where
  "run_closure env tid ConnHandleRead w = conn_handleRead env tid w"
| "run_closure env tid ConnHandleWrite w = conn_handleWrite env tid w"
| "run_closure env tid ConnHandleError w = Inr (conn_handleError w)"
| "run_closure env tid ConnHandleClose w = conn_handleClose env tid w"
| "run_closure env tid (ConnSendString s) w = sendInLoopAsString env tid s w"
| "run_closure env tid (ConnSendRaw region off len) w =
     (case region_then env (w_sys w) region of None \<Rightarrow> Inl UseAfterFree | Some r \<Rightarrow> sendInLoop env tid r off len w)"
| "run_closure env tid (ConnSendFileIn f) w = sendFileInLoop env tid f w"
| "run_closure env tid ConnShutdownIn w = shutdownInLoop env tid w"
| "run_closure env tid ConnEstablished w = connectEstablished env tid w"
| "run_closure env tid ConnDestroyed w = connectDestroyed env tid w"
| "run_closure env tid WakeupRead w = Inr (loop_handleRead w)"
| "run_closure env tid (Application u) w = user env u w"

definition conn_event :: "'u env \<Rightarrow> int \<Rightarrow> 'u world \<Rightarrow> 'u world result" where
  "conn_event env tid w =
     handleEvent chans (\<lambda>m. chans_update (\<lambda>_. m)) (run_closure env tid) (c_channel (w_conn w)) w"

end
