(* ===== verification/ConnCorrect.thy ===== *)
theory ConnCorrect
  imports TcpConnection
begin

text \<open>
  Theorems about the connection of \<open>TcpConnection\<close>: the stream of bytes it sends (\<open>streaming\<close>,
  \<open>stream\<close>), and what it does when a \<open>write\<close> fails, when it is shut down while bytes wait, when a
  file is not sent at once, and when the peer closes its side. Application callbacks are assumed to return
  and to leave the connection alone (\<open>calm\<close>).
\<close>

section \<open>Interest in writing\<close>

lemma mask_or: "(e OR k) AND k = (k :: 32 word)"
  by (rule bit_eqI) (auto simp: bit_simps)

lemma mask_not: "(e AND NOT k) AND k = (0 :: 32 word)"
  by (rule bit_eqI) (auto simp: bit_simps)

lemma isWriting_after [simp]:
  "isWriting (after_events (\<lambda>e. e OR kWriteEvent) c)"
  "\<not> isWriting (after_events (\<lambda>e. e AND NOT kWriteEvent) c)"
  "\<not> isWriting (after_events (\<lambda>e. kNoneEvent) c)"
  by (simp_all add: isWriting_def after_events_def Let_def mask_or mask_not) (simp_all add: event_bits)

text \<open>The parts of the world a connection's code works on.\<close>

definition core :: "'u world \<Rightarrow> addr \<times> int \<times> 'u closure chan_mem \<times> poller \<times> 'u conn \<times> syscall list" where
  "core w = (loop_this w, threadId w, chans w, loop_poller w, w_conn w, w_sys w)"

text \<open>The connection's channel is registered.\<close>

definition conn_ok :: "'u world \<Rightarrow> bool" where
  "conn_ok w \<longleftrightarrow> chans_ok w \<and> (\<exists>c. chans w (c_channel (w_conn w)) = Some c \<and> ch_index c \<noteq> kNew)"

definition writing :: "'u world \<Rightarrow> bool" where
  "writing w \<longleftrightarrow> (case chans w (c_channel (w_conn w)) of Some c \<Rightarrow> isWriting c | None \<Rightarrow> False)"

lemma core_cong:
  assumes "core w' = core w"
  shows "conn_ok w' = conn_ok w" "writing w' = writing w" "w_conn w' = w_conn w" "w_sys w' = w_sys w"
    "threadId w' = threadId w"
  using assms by (auto simp: core_def conn_ok_def writing_def chans_ok_def)

lemma sock_channel_ok: "conn_ok w \<Longrightarrow> \<exists>c. sock_channel w = Inr c \<and> (isWriting c \<longleftrightarrow> writing w)"
  by (auto simp: conn_ok_def sock_channel_def writing_def)

text \<open>A change of events leaves the rest of a channel; a channel that listens still does.\<close>

definition same_channel :: "'cb channel \<Rightarrow> 'cb channel \<Rightarrow> bool" where
  "same_channel c c' \<longleftrightarrow> c' = c\<lparr>ch_events := ch_events c', ch_index := ch_index c', addedToLoop := addedToLoop c'\<rparr>"

definition listening :: "'cb channel \<Rightarrow> bool" where
  "listening c \<longleftrightarrow> ch_index c = kAdded \<and> ch_events c AND kReadEvent = kReadEvent"

lemma same_channelD:
  assumes "same_channel c c'"
  shows "ch_fd c' = ch_fd c" "ch_eventHandling c' = ch_eventHandling c" "ch_revents c' = ch_revents c" "ch_loop c' = ch_loop c"
    "readCallback c' = readCallback c" "writeCallback c' = writeCallback c" "errorCallback c' = errorCallback c"
    "closeCallback c' = closeCallback c"
proof -
  have c': "c' = c\<lparr>ch_events := ch_events c', ch_index := ch_index c', addedToLoop := addedToLoop c'\<rparr>"
    using assms by (simp add: same_channel_def)
  show "ch_fd c' = ch_fd c" "ch_eventHandling c' = ch_eventHandling c" "ch_revents c' = ch_revents c" "ch_loop c' = ch_loop c"
    "readCallback c' = readCallback c" "writeCallback c' = writeCallback c" "errorCallback c' = errorCallback c"
    "closeCallback c' = closeCallback c"
    by (subst c', simp)+
qed

lemma same_channel_refl [simp]: "same_channel c c"
  by (simp add: same_channel_def)

lemma same_channel_trans:
  assumes "same_channel c d" "same_channel d e"
  shows "same_channel c e"
  unfolding same_channel_def
  using same_channelD [OF assms(1)] same_channelD [OF assms(2)] assms by (cases c; cases d; cases e) (simp add: same_channel_def)

lemma after_events_same [simp]: "same_channel c (after_events f c)"
  by (simp add: same_channel_def after_events_def Let_def)

lemma after_events_listening:
  assumes "\<And>e. f e AND kReadEvent = e AND kReadEvent" "listening c"
  shows "listening (after_events f c)"
proof -
  have "f (ch_events c) AND kReadEvent = kReadEvent" using assms by (simp add: listening_def)
  moreover from this have "f (ch_events c) \<noteq> kNoneEvent" by (auto simp: event_bits)
  ultimately show ?thesis using assms(2) by (simp add: listening_def after_events_def Let_def)
qed

text \<open>The rest of the loop is untouched: only the channel at \<open>a\<close> and its descriptor may change.\<close>

definition loop_rest :: "('cb, 'z) loop_scheme \<Rightarrow> addr \<times> addr \<times> 'cb list" where
  "loop_rest w = (loop_this w, wakeupChannel w, pendingFunctors w)"

definition beside :: "addr \<Rightarrow> 'u world \<Rightarrow> 'u world \<Rightarrow> bool" where
  "beside a w w' \<longleftrightarrow> loop_rest w' = loop_rest w \<and> (\<forall>b. b \<noteq> a \<longrightarrow> chans w' b = chans w b) \<and>
     (\<forall>c. chans w a = Some c \<longrightarrow>
        (\<exists>c'. chans w' a = Some c' \<and> same_channel c c' \<and> (listening c \<longrightarrow> listening c')) \<and>
        (\<forall>fd. fd \<noteq> ch_fd c \<longrightarrow> interest_of w' fd = interest_of w fd \<and>
           channel_map (loop_poller w') fd = channel_map (loop_poller w) fd))"

lemma beside_same: "chans w' = chans w \<Longrightarrow> loop_poller w' = loop_poller w \<Longrightarrow> loop_rest w' = loop_rest w \<Longrightarrow> beside a w w'"
  by (simp add: beside_def)

lemma besideD:
  assumes "beside a w w'"
  shows "loop_this w' = loop_this w" "b \<noteq> a \<Longrightarrow> chans w' b = chans w b"
    "chans w a = Some c \<Longrightarrow> \<exists>c'. chans w' a = Some c' \<and> ch_fd c' = ch_fd c \<and> ch_eventHandling c' = ch_eventHandling c"
    "chans w a = Some c \<Longrightarrow> fd \<noteq> ch_fd c \<Longrightarrow> interest_of w' fd = interest_of w fd \<and>
       channel_map (loop_poller w') fd = channel_map (loop_poller w) fd"
    "chans w a = Some c \<Longrightarrow> \<exists>c'. chans w' a = Some c' \<and> same_channel c c' \<and> (listening c \<longrightarrow> listening c')"
    "wakeupChannel w' = wakeupChannel w" "pendingFunctors w' = pendingFunctors w"
proof -
  show "loop_this w' = loop_this w" "wakeupChannel w' = wakeupChannel w" "pendingFunctors w' = pendingFunctors w"
    using assms by (simp_all add: beside_def loop_rest_def)
  show same: "\<exists>c'. chans w' a = Some c' \<and> same_channel c c' \<and> (listening c \<longrightarrow> listening c')" if "chans w a = Some c"
    using assms that unfolding beside_def by blast
  then show "chans w a = Some c \<Longrightarrow> \<exists>c'. chans w' a = Some c' \<and> ch_fd c' = ch_fd c \<and> ch_eventHandling c' = ch_eventHandling c"
    using same_channelD(1,2) by blast
qed (use assms in \<open>unfold beside_def, blast+\<close>)

lemma beside_trans:
  assumes "beside a u v" "beside a v w"
  shows "beside a u w"
proof -
  have "(\<exists>c'. chans w a = Some c' \<and> same_channel c c' \<and> (listening c \<longrightarrow> listening c')) \<and>
      (\<forall>fd. fd \<noteq> ch_fd c \<longrightarrow> interest_of w fd = interest_of u fd \<and> channel_map (loop_poller w) fd = channel_map (loop_poller u) fd)"
    if c: "chans u a = Some c" for c
  proof -
    obtain d where d: "chans v a = Some d" "same_channel c d" "listening c \<longrightarrow> listening d"
      using besideD(5) [OF assms(1) c] by blast
    obtain e where e: "chans w a = Some e" "same_channel d e" "listening d \<longrightarrow> listening e"
      using besideD(5) [OF assms(2) d(1)] by blast
    then show ?thesis using besideD(4) [OF assms(1) c] besideD(4) [OF assms(2) d(1)] d(2,3) same_channelD(1) [OF d(2)]
        same_channel_trans [OF d(2) e(2)] by simp
  qed
  then show ?thesis unfolding beside_def [of a u w] using assms besideD(2) [OF assms(1)] besideD(2) [OF assms(2)]
    by (simp add: beside_def)
qed

lemma events_ok:
  assumes "conn_ok w"
  shows "\<exists>w'. with_events f tid (c_channel (w_conn w)) w = Inr w' \<and> conn_ok w' \<and> w_conn w' = w_conn w \<and>
    w_sys w' = w_sys w \<and> threadId w' = threadId w \<and>
    ((\<forall>e. f e AND kReadEvent = e AND kReadEvent) \<longrightarrow> beside (c_channel (w_conn w)) w w') \<and>
    (\<exists>c. chans w (c_channel (w_conn w)) = Some c \<and>
      chans w' = (chans w)(c_channel (w_conn w) \<mapsto> after_events f c))"
proof -
  let ?a = "c_channel (w_conn w)"
  obtain c where c: "chans_ok w" "chans w ?a = Some c" "ch_index c \<noteq> kNew"
    using assms by (auto simp: conn_ok_def)
  from with_events_effect [OF c(1,2), where f = f and tid = tid] c(3) obtain p where p:
    "with_events f tid ?a w = Inr (w\<lparr>chans := (chans w)(?a \<mapsto> after_events f c), loop_poller := p\<rparr>)"
    "chans_ok (w\<lparr>chans := (chans w)(?a \<mapsto> after_events f c), loop_poller := p\<rparr>)"
    "\<And>fd. fd \<noteq> ch_fd c \<Longrightarrow> registered ((chans w)(?a \<mapsto> after_events f c)) p fd = interest_of w fd"
    "channel_map p = (channel_map (loop_poller w))(ch_fd c \<mapsto> ?a)" by auto
  have "beside ?a w (w\<lparr>chans := (chans w)(?a \<mapsto> after_events f c), loop_poller := p\<rparr>)"
    if "\<forall>e. f e AND kReadEvent = e AND kReadEvent"
    using c(2) p(3,4) that by (simp add: beside_def loop_rest_def after_events_listening)
  with p(1,2) c(2) show ?thesis by (auto simp: conn_ok_def after_events_def index_defs Let_def)
qed

lemma writing_bits: "(e OR kWriteEvent) AND kReadEvent = e AND kReadEvent" "(e AND NOT kWriteEvent) AND kReadEvent = e AND kReadEvent"
proof -
  have d: "kWriteEvent AND kReadEvent = 0" by (simp add: event_bits)
  have "(e OR kWriteEvent) AND kReadEvent = (e AND kReadEvent) OR (kWriteEvent AND kReadEvent)"
    by (rule bit_eqI) (auto simp: bit_simps)
  then show "(e OR kWriteEvent) AND kReadEvent = e AND kReadEvent" by (simp add: d)
  have n: "NOT kWriteEvent AND kReadEvent = kReadEvent" by (simp add: event_bits)
  have "(e AND NOT kWriteEvent) AND kReadEvent = e AND (NOT kWriteEvent AND kReadEvent)"
    by (rule bit_eqI) (auto simp: bit_simps)
  then show "(e AND NOT kWriteEvent) AND kReadEvent = e AND kReadEvent" by (simp add: n)
qed

lemma enableWriting_ok:
  assumes "conn_ok w"
  shows "\<exists>w'. enableWriting tid (c_channel (w_conn w)) w = Inr w' \<and> conn_ok w' \<and> writing w' \<and> w_conn w' = w_conn w \<and>
    w_sys w' = w_sys w \<and> threadId w' = threadId w \<and> beside (c_channel (w_conn w)) w w'"
  using events_ok [OF assms, of "\<lambda>e. e OR kWriteEvent" tid] writing_bits by (auto simp: enableWriting_def writing_def)

lemma disableWriting_ok:
  assumes "conn_ok w"
  shows "\<exists>w'. disableWriting tid (c_channel (w_conn w)) w = Inr w' \<and> conn_ok w' \<and> \<not> writing w' \<and> w_conn w' = w_conn w \<and>
    w_sys w' = w_sys w \<and> threadId w' = threadId w \<and> beside (c_channel (w_conn w)) w w'"
  using events_ok [OF assms, of "\<lambda>e. e AND NOT kWriteEvent" tid] writing_bits by (auto simp: disableWriting_def writing_def)

text \<open>Callbacks that return and leave the connection alone (they may queue functors).\<close>

definition calm :: "'u env \<Rightarrow> bool" where
  "calm env \<longleftrightarrow> (\<forall>u w. \<exists>w'. user env u w = Inr w' \<and> core w' = core w)"

lemma calm_write_complete: "calm env \<Longrightarrow> \<exists>w'. call_write_complete env w = Inr w' \<and> core w' = core w"
  by (auto simp: calm_def call_write_complete_def split: option.splits)

lemma calm_call: "calm env \<Longrightarrow> \<exists>w'. call_user env (Some u) w = Inr w' \<and> core w' = core w"
  by (auto simp: calm_def call_user_def)

section \<open>The stream of bytes sent\<close>

text \<open>What \<open>write\<close> promises: no error, and at most the bytes it was given.\<close>

definition writes_ok :: "'u env \<Rightarrow> bool" where
  "writes_ok env \<longleftrightarrow> (\<forall>h fd d. 0 \<le> fst (sys_ret env h (SysWrite fd d)) \<and>
     fst (sys_ret env h (SysWrite fd d)) \<le> int (length d))"

text \<open>The bytes the kernel has taken.\<close>

definition taken :: "'u env \<Rightarrow> syscall list \<Rightarrow> syscall \<Rightarrow> string" where
  "taken env h sc = (case sc of SysWrite fd d \<Rightarrow> take (nat (fst (sys_ret env h sc))) d | _ \<Rightarrow> [])"

fun deliver :: "'u env \<Rightarrow> syscall list \<Rightarrow> syscall list \<Rightarrow> string" where
  "deliver env h [] = []"
| "deliver env h (sc # cs) = taken env h sc @ deliver env (h @ [sc]) cs"

abbreviation delivered :: "'u env \<Rightarrow> syscall list \<Rightarrow> string" where
  "delivered env cs \<equiv> deliver env [] cs"

lemma deliver_snoc [simp]: "deliver env h (cs @ [sc]) = deliver env h cs @ taken env (h @ cs) sc"
  by (induction cs arbitrary: h) auto

text \<open>Between two events the connection is interested in writing exactly if bytes are waiting.\<close>

definition streaming :: "'u world \<Rightarrow> bool" where
  "streaming w \<longleftrightarrow> conn_ok w \<and> c_file (w_conn w) = None \<and>
     buf_ok (outputBuffer (w_conn w)) \<and> (writing w \<longleftrightarrow> content (outputBuffer (w_conn w)) \<noteq> [])"

abbreviation state_of :: "'u world \<Rightarrow> conn_state" where
  "state_of w \<equiv> c_state (w_conn w)"

definition stream :: "'u env \<Rightarrow> 'u world \<Rightarrow> string" where
  "stream env w = delivered env (w_sys w) @ content (outputBuffer (w_conn w))"

abbreviation room :: "'u world \<Rightarrow> nat" where
  "room w \<equiv> length (store (outputBuffer (w_conn w)))"

lemma word_remain:
  assumes "0 \<le> r" "r \<le> int len" "len < 2 ^ 64"
  shows "of_nat len - word_of_int r = (of_nat (len - nat r) :: 64 word)" "unat (word_of_int r :: 64 word) = nat r"
    "unat (of_nat (len - nat r) :: 64 word) = len - nat r"
proof -
  have r: "r = int (nat r)" using assms(1) by simp
  have "(word_of_int r :: 64 word) = of_nat (nat r)" by (subst r) simp
  moreover have "nat r \<le> len" using assms(2) by simp
  ultimately show "of_nat len - word_of_int r = (of_nat (len - nat r) :: 64 word)" by (simp add: of_nat_diff)
  show "unat (word_of_int r :: 64 word) = nat r"
    using \<open>word_of_int r = of_nat (nat r)\<close> \<open>nat r \<le> len\<close> assms(3) by (intro of_nat_inverse) simp_all
  show "unat (of_nat (len - nat r) :: 64 word) = len - nat r"
    using assms(3) by (intro of_nat_inverse) simp_all
qed

lemma small_word: "n < 2 ^ 64 \<Longrightarrow> ((of_nat n :: 64 word) = 0) = (n = 0)" "n < 2 ^ 64 \<Longrightarrow> (0 < (of_nat n :: 64 word)) = (0 < n)"
  by (simp_all add: word_gt_0 of_nat_inverse [of n "of_nat n :: 64 word"] unat_eq_zero [symmetric])

lemma mem_read_suffix: "n \<le> length s \<Longrightarrow> mem_read (c_str s) n (length s - n) = Inr (drop n s)"
  by (simp add: mem_read_def)

text \<open>What sending and writing leave alone: all of the connection but its output buffer, and the rest of
  the loop; and they make no system call but \<open>write\<close>.\<close>

definition only_writes :: "syscall list \<Rightarrow> bool" where
  "only_writes = list_all (\<lambda>sc. case sc of SysWrite fd d \<Rightarrow> True | _ \<Rightarrow> False)"

definition kept :: "'u world \<Rightarrow> 'u world \<Rightarrow> bool" where
  "kept w w' \<longleftrightarrow> threadId w' = threadId w \<and> w_conn w' = (w_conn w)\<lparr>outputBuffer := outputBuffer (w_conn w')\<rparr> \<and>
     beside (c_channel (w_conn w)) w w' \<and> (\<exists>ws. w_sys w' = w_sys w @ ws \<and> only_writes ws)"

lemma only_writes_simps [simp]:
  "only_writes []" "only_writes (SysWrite fd d # ws) = only_writes ws" "only_writes (vs @ ws) = (only_writes vs \<and> only_writes ws)"
  by (simp_all add: only_writes_def)

lemma keptI:
  assumes "threadId w' = threadId w" "w_conn w' = (w_conn w)\<lparr>outputBuffer := b\<rparr>" "w_sys w' = w_sys w @ ws" "only_writes ws"
    and "beside (c_channel (w_conn w)) w w'"
  shows "kept w w'"
  using assms by (auto simp: kept_def)

lemma kept_refl [simp]: "kept w w"
  by (rule keptI [of _ _ "outputBuffer (w_conn w)" "[]"]) (simp_all add: beside_same loop_rest_def)

lemma keptD:
  assumes "kept w w'"
  shows "threadId w' = threadId w" "state_of w' = state_of w" "c_file (w_conn w') = c_file (w_conn w)"
    "c_socket (w_conn w') = c_socket (w_conn w)" "c_channel (w_conn w') = c_channel (w_conn w)"
    "inputBuffer (w_conn w') = inputBuffer (w_conn w)" "c_context (w_conn w') = c_context (w_conn w)"
    "messageCallback (w_conn w') = messageCallback (w_conn w)" "connectionCallback (w_conn w') = connectionCallback (w_conn w)"
    "c_closeCallback (w_conn w') = c_closeCallback (w_conn w)"
    "writeCompleteCallback (w_conn w') = writeCompleteCallback (w_conn w)" "c_wcSet (w_conn w') = c_wcSet (w_conn w)"
proof -
  have w: "w_conn w' = (w_conn w)\<lparr>outputBuffer := outputBuffer (w_conn w')\<rparr>" and "threadId w' = threadId w"
    using assms by (auto simp: kept_def)
  then show "threadId w' = threadId w" by simp
  show "state_of w' = state_of w" "c_file (w_conn w') = c_file (w_conn w)" "c_socket (w_conn w') = c_socket (w_conn w)"
    "c_channel (w_conn w') = c_channel (w_conn w)" "inputBuffer (w_conn w') = inputBuffer (w_conn w)"
    "c_context (w_conn w') = c_context (w_conn w)" "messageCallback (w_conn w') = messageCallback (w_conn w)"
    "connectionCallback (w_conn w') = connectionCallback (w_conn w)" "c_closeCallback (w_conn w') = c_closeCallback (w_conn w)"
    "writeCompleteCallback (w_conn w') = writeCompleteCallback (w_conn w)" "c_wcSet (w_conn w') = c_wcSet (w_conn w)"
    by (subst w, simp)+
qed

lemma kept_trans:
  assumes "kept u v" "kept v w"
  shows "kept u w"
proof -
  have v: "w_conn v = (w_conn u)\<lparr>outputBuffer := outputBuffer (w_conn v)\<rparr>"
    and w: "w_conn w = (w_conn v)\<lparr>outputBuffer := outputBuffer (w_conn w)\<rparr>" using assms by (auto simp: kept_def)
  note w
  also have "(w_conn v)\<lparr>outputBuffer := outputBuffer (w_conn w)\<rparr> = (w_conn u)\<lparr>outputBuffer := outputBuffer (w_conn w)\<rparr>"
    by (subst v) simp
  finally have "w_conn w = (w_conn u)\<lparr>outputBuffer := outputBuffer (w_conn w)\<rparr>" .
  moreover have "c_channel (w_conn v) = c_channel (w_conn u)" by (subst v) simp
  ultimately show ?thesis using assms beside_trans by (auto simp: kept_def)
qed

lemma mem_read_split:
  assumes "mem_read region off (length s) = Inr s" "n \<le> length s"
  shows "mem_read region (off + n) (length s - n) = Inr (drop n s)"
proof -
  have r: "off + length s \<le> length region" "take (length s) (drop off region) = s"
    using assms(1) by (auto simp: mem_read_def split: if_splits)
  have "drop n s = drop n (take (length s) (drop off region))" by (simp only: r(2))
  also have "\<dots> = take (length s - n) (drop (off + n) region)" using assms(2) by (simp add: drop_take add.commute)
  finally show ?thesis using r(1) assms(2) by (simp add: mem_read_def)
qed

text \<open>\<open>sendInLoop\<close> when bytes are already waiting: they go behind them.\<close>

lemma send_waiting:
  assumes st: "streaming w" and con: "state_of w = kConnected" and wr: "writing w"
    and mem: "mem_read region off (length s) = Inr s" "off < 2 ^ 63" and room: "room w + length s \<le> vec_max_size"
  obtains w' where "sendInLoop env tid region off (length s) w = Inr w'" "streaming w'" "writing w'"
    "stream env w' = stream env w @ s" "room w' \<le> room w + length s" "kept w w'"
proof -
  obtain c where c: "sock_channel w = Inr c" "isWriting c" using sock_channel_ok st wr by (auto simp: streaming_def)
  have b: "buf_ok (outputBuffer (w_conn w))" "c_state (w_conn w) = kConnected" using st con by (simp_all add: streaming_def)
  have big: "length s < 2 ^ 63" using room by (simp add: vec_max_size_def)
  then have big': "length s < 2 ^ 64" by simp
  show ?thesis
  proof (cases "s = []")
    case True
    then have "sendInLoop env tid region off (length s) w = Inr w" using c b by (simp add: sendInLoop_def)
    then show ?thesis by (rule that) (use True st wr in simp_all)
  next
    case False
    then have pos: "0 < (of_nat (length s) :: 64 word)" using small_word(2) [OF big'] by simp
    obtain b' where b': "append_buf (outputBuffer (w_conn w)) s = Inr b'" "buf_ok b'"
      "content b' = content (outputBuffer (w_conn w)) @ s" "length (store b') \<le> room w + length s"
      using bq.put_ok [OF b(1) room] by blast
    let ?w = "with_conn (\<lambda>c. c\<lparr>outputBuffer := b'\<rparr>) w"
    have sock: "sock_channel ?w = Inr c" using c(1) by (simp add: sock_channel_def with_conn_def)
    have "sz_add off (unat (0 :: 64 word)) = off" using mem(2) by (simp add: size_t_mod_def)
    then have "sendInLoop env tid region off (length s) w = Inr ?w"
      using c b mem(1) b'(1) sock pos word_remain(3) [of 0 "length s"] big'
      by (simp add: sendInLoop_def)
    moreover have "streaming ?w"
      using st wr b' False by (auto simp: streaming_def with_conn_def conn_ok_def writing_def chans_ok_def)
    moreover have "writing ?w" using wr by (simp add: writing_def with_conn_def)
    moreover have "stream env ?w = stream env w @ s" using b' by (simp add: stream_def with_conn_def)
    moreover have "kept w ?w" by (rule keptI [of _ _ b' "[]"]) (simp_all add: with_conn_def beside_same loop_rest_def)
    ultimately show ?thesis using b'(4) by (intro that) (simp_all add: with_conn_def)
  qed
qed

text \<open>\<open>sendInLoop\<close> when nothing waits: one \<open>write\<close>. If it took everything the write-complete callback runs
  next; what it did not take waits.\<close>

lemma send_idle:
  assumes st: "streaming w" and con: "state_of w = kConnected" and wr: "\<not> writing w"
    and mem: "mem_read region off (length s) = Inr s" "off < 2 ^ 63"
    and room: "room w + length s \<le> vec_max_size" and env: "writes_ok env"
  obtains (all) w1 where "sendInLoop env tid region off (length s) w = call_write_complete env w1"
      "streaming w1" "\<not> writing w1" "w_conn w1 = w_conn w" "stream env w1 = stream env w @ s" "kept w w1"
  | (some) w' where "sendInLoop env tid region off (length s) w = Inr w'" "streaming w'" "writing w'"
      "stream env w' = stream env w @ s" "room w' \<le> room w + length s" "kept w w'"
      "w_sys w' = w_sys w @ [SysWrite (c_socket (w_conn w)) s]"
proof -
  obtain c where c: "sock_channel w = Inr c" "\<not> isWriting c" using sock_channel_ok st wr by (auto simp: streaming_def)
  have b: "buf_ok (outputBuffer (w_conn w))" "c_state (w_conn w) = kConnected" "content (outputBuffer (w_conn w)) = []"
    "conn_ok w" using st wr con by (simp_all add: streaming_def)
  have big63: "length s < 2 ^ 63" using room by (simp add: vec_max_size_def)
  then have big: "length s < 2 ^ 64" by simp
  let ?sc = "SysWrite (c_socket (w_conn w)) s"
  obtain r err where r: "sys_ret env (w_sys w) ?sc = (r, err)" by (cases "sys_ret env (w_sys w) ?sc")
  have rb: "0 \<le> r" "r \<le> int (length s)" using env r by (metis fst_conv writes_ok_def)+
  note rem = word_remain [OF rb big]
  let ?w = "w\<lparr>w_sys := w_sys w @ [?sc]\<rparr>"
  have core1: "conn_ok ?w" "\<not> writing ?w" using b(4) wr by (simp_all add: conn_ok_def writing_def chans_ok_def)
  have str: "delivered env (w_sys ?w) = delivered env (w_sys w) @ take (nat r) s" by (simp add: taken_def r)
  show ?thesis
  proof (cases "nat r = length s")
    case True
    have "sendInLoop env tid region off (length s) w = call_write_complete env ?w"
      using c b mem(1) r rem True by (cases "call_write_complete env ?w") (simp_all add: sendInLoop_def sys_call_def)
    moreover have "streaming ?w" using st core1 b wr by (simp add: streaming_def)
    moreover have "stream env ?w = stream env w @ s" using str True b(3) by (simp add: stream_def)
    moreover have "kept w ?w" by (rule keptI [of _ _ "outputBuffer (w_conn w)" "[?sc]"]) (simp_all add: beside_same loop_rest_def)
    ultimately show ?thesis using core1(2) by (intro all) simp_all
  next
    case False
    let ?rest = "drop (nat r) s"
    have n: "nat r < length s" using False rb by linarith
    have ne: "(of_nat (length s - nat r) :: 64 word) \<noteq> 0" "0 < (of_nat (length s - nat r) :: 64 word)"
      using small_word [of "length s - nat r"] big n by simp_all
    have "sz_add off (nat r) = off + nat r" using mem(2) big63 n by (simp add: size_t_mod_def)
    then have read: "mem_read region (sz_add off (nat r)) (length s - nat r) = Inr ?rest"
      using mem_read_split [OF mem(1), of "nat r"] n by simp
    have fits: "room w + length ?rest \<le> vec_max_size" using room by simp
    obtain b' where b': "append_buf (outputBuffer (w_conn w)) ?rest = Inr b'" "buf_ok b'"
      "content b' = ?rest" "length (store b') \<le> room w + length ?rest"
      using bq.put_ok [OF b(1) fits] unfolding b(3) append_Nil by blast
    let ?w2 = "with_conn (\<lambda>c. c\<lparr>outputBuffer := b'\<rparr>) ?w"
    have ok2: "conn_ok ?w2" using core1 by (simp add: conn_ok_def with_conn_def chans_ok_def)
    have sock: "sock_channel ?w2 = Inr c" using c(1) by (simp add: sock_channel_def with_conn_def)
    obtain w' where w': "enableWriting tid (c_channel (w_conn ?w2)) ?w2 = Inr w'" "conn_ok w'" "writing w'" "w_conn w' = w_conn ?w2"
      "w_sys w' = w_sys ?w2" "threadId w' = threadId ?w2" "beside (c_channel (w_conn ?w2)) ?w2 w'"
      using enableWriting_ok [OF ok2] by blast
    have "beside (c_channel (w_conn w)) w ?w2" by (simp add: beside_same with_conn_def loop_rest_def)
    with w'(7) have near: "beside (c_channel (w_conn w)) w w'" by (auto intro: beside_trans simp: with_conn_def)
    have nr: "(of_nat (length s) :: 64 word) \<noteq> word_of_int r" using ne(1) rem(1) by (metis diff_self)
    have "sendInLoop env tid region off (length s) w = Inr w'"
      using c b mem(1) r rem ne nr read b'(1) sock w'(1) by (simp add: sendInLoop_def sys_call_def Let_def)
    moreover have "streaming w'" using st w' b' n by (simp add: streaming_def with_conn_def)
    moreover have "stream env w' = stream env w @ s" using w' b' b(3) str by (simp add: stream_def with_conn_def)
    moreover have "kept w w'" by (rule keptI [of _ _ b' "[?sc]"]) (use w' near in \<open>simp_all add: with_conn_def\<close>)
    ultimately show ?thesis using w' b' by (intro some) (simp_all add: with_conn_def)
  qed
qed

text \<open>\<open>handleWrite\<close> on a writable socket: when the last byte is gone the write-complete callback runs next.\<close>

lemma handleWrite_cases:
  assumes st: "streaming w" and wr: "writing w" and env: "writes_ok env"
  obtains (drained) w1 where "conn_handleWrite env tid w = call_write_complete env w1" "streaming w1" "\<not> writing w1"
      "stream env w1 = stream env w" "room w1 = room w" "kept w w1"
      "w_sys w1 = w_sys w @ [SysWrite (c_socket (w_conn w)) (content (outputBuffer (w_conn w)))]"
  | (more) w' where "conn_handleWrite env tid w = Inr w'" "streaming w'" "writing w'"
      "stream env w' = stream env w" "room w' = room w" "kept w w'"
      "w_sys w' = w_sys w @ [SysWrite (c_socket (w_conn w)) (content (outputBuffer (w_conn w)))]"
proof -
  obtain c where c: "sock_channel w = Inr c" "isWriting c" using sock_channel_ok st wr by (auto simp: streaming_def)
  let ?b = "outputBuffer (w_conn w)"
  have b: "buf_ok ?b" "c_file (w_conn w) = None" "conn_ok w" "content ?b \<noteq> []" using st wr by (simp_all add: streaming_def)
  have data: "read_range ?b (peek ?b) (peek ?b + readableBytes ?b) = Inr (content ?b)"
    using read_content [OF b(1)] b(1) by (simp add: peek_def length_content buf_ok_def)
  let ?sc = "SysWrite (c_socket (w_conn w)) (content ?b)"
  obtain r err where r: "sys_ret env (w_sys w) ?sc = (r, err)" by (cases "sys_ret env (w_sys w) ?sc")
  have rb: "0 \<le> r" "r \<le> int (length (content ?b))" using env r by (metis fst_conv writes_ok_def)+
  let ?w = "w\<lparr>w_sys := w_sys w @ [?sc]\<rparr>"
  have str: "delivered env (w_sys ?w) = delivered env (w_sys w) @ take (nat r) (content ?b)" by (simp add: taken_def r)
  have core1: "conn_ok ?w" "writing ?w" using b(3) wr by (simp_all add: conn_ok_def writing_def chans_ok_def)
  show ?thesis
  proof (cases "0 < r")
    case False
    have run: "conn_handleWrite env tid w = Inr ?w"
      using False c b(2) data r by (simp add: conn_handleWrite_def buffer_step_def sys_call_def)
    have "streaming ?w" using st core1 wr by (simp add: streaming_def)
    moreover have "kept w ?w" by (rule keptI [of _ _ ?b "[?sc]"]) (simp_all add: beside_same loop_rest_def)
    ultimately show ?thesis using False rb str core1 by (intro more [OF run]) (simp_all add: stream_def)
  next
    case True
    let ?b' = "retrieve ?b (nat r)"
    let ?w2 = "with_conn (\<lambda>c. c\<lparr>outputBuffer := ?b'\<rparr>) ?w"
    have b': "buf_ok ?b'" "content ?b' = drop (nat r) (content ?b)" "store ?b' = store ?b"
      using bq.discard_ok [OF b(1)] bq.discard_bytes [OF b(1)] by simp_all
    have ok2: "conn_ok ?w2" "writing ?w2" using core1 by (simp_all add: conn_ok_def with_conn_def chans_ok_def writing_def)
    have str2: "stream env ?w2 = stream env w" using str b' by (simp add: stream_def with_conn_def)
    have kept2: "kept w ?w2" by (rule keptI [of _ _ ?b' "[?sc]"]) (simp_all add: with_conn_def beside_same loop_rest_def)
    show ?thesis
    proof (cases "content ?b' = []")
      case True
      obtain w3 where w3: "disableWriting tid (c_channel (w_conn ?w2)) ?w2 = Inr w3" "conn_ok w3" "\<not> writing w3" "w_conn w3 = w_conn ?w2"
        "w_sys w3 = w_sys ?w2" "threadId w3 = threadId ?w2" "beside (c_channel (w_conn ?w2)) ?w2 w3"
        using disableWriting_ok [OF ok2(1)] by blast
      have "beside (c_channel (w_conn w)) w ?w2" by (simp add: beside_same with_conn_def loop_rest_def)
      with w3(7) have near: "beside (c_channel (w_conn w)) w w3" by (auto intro: beside_trans simp: with_conn_def)
      have len0: "readableBytes (outputBuffer (w_conn ?w2)) = 0" using b'(1) True by (simp add: with_conn_def)
      have run: "conn_handleWrite env tid w = call_write_complete env w3"
        using c b(2) data r \<open>0 < r\<close> len0 w3(1)
        by (simp add: conn_handleWrite_def buffer_step_def sys_call_def with_conn_def)
      have "streaming w3" using st w3 b' True by (simp add: streaming_def with_conn_def)
      moreover have "stream env w3 = stream env w" using w3 str2 by (simp add: stream_def)
      moreover have "kept w w3" by (rule keptI [of _ _ ?b' "[?sc]"]) (use w3 near in \<open>simp_all add: with_conn_def\<close>)
      ultimately show ?thesis using w3 b'(3) by (intro drained [OF run]) (simp_all add: with_conn_def)
    next
      case False
      then have len: "readableBytes (outputBuffer (w_conn ?w2)) \<noteq> 0" using b'(1) by (simp add: with_conn_def)
      have run: "conn_handleWrite env tid w = Inr ?w2"
        using c b(2) data r \<open>0 < r\<close> len
        by (simp add: conn_handleWrite_def buffer_step_def sys_call_def with_conn_def Let_def)
      have "streaming ?w2" using st ok2 b' False by (simp add: streaming_def with_conn_def)
      then show ?thesis using str2 b'(3) ok2 kept2 by (intro more [OF run]) (simp_all add: with_conn_def)
    qed
  qed
qed

text \<open>A kernel that takes at least one byte of each \<open>write\<close>: then fewer bytes wait after each event.\<close>

definition progress :: "'u env \<Rightarrow> bool" where
  "progress env \<longleftrightarrow> (\<forall>h fd d. d \<noteq> [] \<longrightarrow> 0 < fst (sys_ret env h (SysWrite fd d)))"

lemma fewer_wait:
  assumes "stream env w' = stream env w" "w_sys w' = w_sys w @ [SysWrite fd (content (outputBuffer (w_conn w)))]"
    and "progress env" "content (outputBuffer (w_conn w)) \<noteq> []"
  shows "length (content (outputBuffer (w_conn w'))) < length (content (outputBuffer (w_conn w)))"
proof -
  let ?d = "content (outputBuffer (w_conn w))" and ?r = "nat (fst (sys_ret env (w_sys w) (SysWrite fd (content (outputBuffer (w_conn w))))))"
  have "take ?r ?d @ content (outputBuffer (w_conn w')) = ?d"
    using assms(1,2) by (simp add: stream_def taken_def)
  then have "length (take ?r ?d) + length (content (outputBuffer (w_conn w'))) = length ?d" by (metis length_append)
  moreover have "0 < length (take ?r ?d)" using assms(3,4) by (simp add: progress_def)
  ultimately show ?thesis by linarith
qed

text \<open>With callbacks that leave the connection alone.\<close>

lemma handleWrite_stream:
  assumes st: "streaming w" and wr: "writing w" and env: "calm env" "writes_ok env"
  shows "\<exists>w'. conn_handleWrite env tid w = Inr w' \<and> streaming w' \<and> stream env w' = stream env w \<and>
    room w' = room w \<and> threadId w' = threadId w \<and> state_of w' = state_of w \<and>
    (\<exists>d. w_sys w' = w_sys w @ [SysWrite (c_socket (w_conn w)) d])"
proof (cases rule: handleWrite_cases [OF st wr env(2), of tid])
  case drained: (1 w1)
  obtain w' where w': "call_write_complete env w1 = Inr w'" "core w' = core w1" using calm_write_complete [OF env(1)] by blast
  show ?thesis using drained w' core_cong [OF w'(2)] keptD(1,2) [OF drained(6)]
    by (intro exI [of _ w']) (simp add: streaming_def stream_def)
next
  case more: (2 w')
  then show ?thesis using keptD(1,2) [OF more(6)] by auto
qed

text \<open>Without a write-complete callback; and how many bytes may wait.\<close>

lemma writable_kept:
  assumes "streaming w" "writeCompleteCallback (w_conn w) = None" "writes_ok env"
  obtains w' where "(if writing w then conn_handleWrite env tid w else Inr w) = Inr w'" "streaming w'" "stream env w' = stream env w"
    "room w' = room w" "kept w w'"
proof (cases "writing w")
  case True
  show ?thesis
  proof (cases rule: handleWrite_cases [OF assms(1) True assms(3), of tid])
    case (1 w1)
    then have "call_write_complete env w1 = Inr w1" using assms(2) keptD(11) [of w w1] by (simp add: call_write_complete_def)
    with 1 True show ?thesis by (intro that [of w1]) simp_all
  next
    case (2 w1)
    with True show ?thesis by (intro that [of w1]) simp_all
  qed
next
  case False
  then show ?thesis by (intro that [of w]) (use assms in simp_all)
qed

abbreviation waiting_bytes :: "'u world \<Rightarrow> nat" where
  "waiting_bytes w \<equiv> length (content (outputBuffer (w_conn w)))"

lemma deliver_append: "deliver env h (cs @ ds) = deliver env h cs @ deliver env (h @ cs) ds"
  by (induction cs arbitrary: h) simp_all

lemma waiting_grows:
  assumes "stream env w' = stream env w @ s" "\<exists>cs. w_sys w' = w_sys w @ cs"
  shows "waiting_bytes w' \<le> waiting_bytes w + length s"
proof -
  obtain cs where "w_sys w' = w_sys w @ cs" using assms(2) by blast
  then have "deliver env (w_sys w) cs @ content (outputBuffer (w_conn w')) = content (outputBuffer (w_conn w)) @ s"
    using assms(1) by (simp add: stream_def deliver_append)
  then have "length (deliver env (w_sys w) cs) + waiting_bytes w' = waiting_bytes w + length s" by (metis length_append)
  then show ?thesis by simp
qed

text \<open>A run of sends and of reports that the socket is writable (which come only while the channel is
  interested in writing).\<close>

datatype conn_op = OpSend string | OpWritable

fun conn_run :: "'u env \<Rightarrow> int \<Rightarrow> conn_op list \<Rightarrow> 'u world \<Rightarrow> 'u world result" where
  "conn_run env tid [] w = Inr w"
| "conn_run env tid (OpSend s # ops) w = rbind (send_string env tid s w) (conn_run env tid ops)"
| "conn_run env tid (OpWritable # ops) w =
     rbind (if writing w then conn_handleWrite env tid w else Inr w) (conn_run env tid ops)"

fun sent :: "conn_op list \<Rightarrow> string" where
  "sent [] = []"
| "sent (OpSend s # ops) = s @ sent ops"
| "sent (OpWritable # ops) = sent ops"

lemma send_string_stream:
  assumes "streaming w" "threadId w = tid" "room w + length s \<le> vec_max_size" "calm env" "writes_ok env"
    "state_of w = kConnected"
  shows "\<exists>w'. send_string env tid s w = Inr w' \<and> streaming w' \<and> stream env w' = stream env w @ s \<and>
    room w' \<le> room w + length s \<and> threadId w' = tid \<and> state_of w' = kConnected"
proof -
  have run: "send_string env tid s w = sendInLoop env tid (c_str s) 0 (length s) w"
    using assms(2,6) by (simp add: send_string_def isInLoopThread_def)
  have mem: "mem_read (c_str s) 0 (length s) = Inr s" using mem_read_suffix [of 0 s] by simp
  show ?thesis
  proof (cases "writing w")
    case True
    from send_waiting [OF assms(1,6) True mem _ assms(3), of env tid] obtain w' where
      "sendInLoop env tid (c_str s) 0 (length s) w = Inr w'" "streaming w'" "stream env w' = stream env w @ s"
      "room w' \<le> room w + length s" "kept w w'" by auto
    then show ?thesis using run keptD(1,2) [of w w'] assms(2,6) by auto
  next
    case False
    have zero: "(0 :: nat) < 2 ^ 63" by simp
    show ?thesis
    proof (cases rule: send_idle [OF assms(1,6) False mem zero assms(3,5), of tid])
      case all: (1 w1)
      obtain w' where w': "call_write_complete env w1 = Inr w'" "core w' = core w1" using calm_write_complete [OF assms(4)] by blast
      show ?thesis using all w' core_cong [OF w'(2)] keptD(1,2) [OF all(6)] run assms(2,6)
        by (intro exI [of _ w']) (simp add: streaming_def stream_def)
    next
      case some: (2 w')
      then show ?thesis using run keptD(1,2) [of w w'] assms(2,6) by auto
    qed
  qed
qed

text \<open>C6: As long as no \<open>write\<close> fails, a connection loses, repeats and reorders nothing, however the
  kernel splits the writes: after any run of sends and writable events, which succeeds, what the
  kernel took followed by what waits in the output buffer is what was there before followed by
  everything sent; and the channel is interested in writing exactly while bytes wait.\<close>

theorem send_stream:
  assumes "streaming w" "threadId w = tid" "room w + length (sent ops) \<le> vec_max_size" "state_of w = kConnected"
    "calm env" "writes_ok env"
  shows "\<exists>w'. conn_run env tid ops w = Inr w' \<and> streaming w' \<and> stream env w' = stream env w @ sent ops"
  using assms(1-4)
proof (induction ops arbitrary: w rule: sent.induct)
  case 1
  then show ?case by simp
next
  case (2 s ops)
  then obtain w1 where w1: "send_string env tid s w = Inr w1" "streaming w1" "stream env w1 = stream env w @ s"
    "room w1 \<le> room w + length s" "threadId w1 = tid" "state_of w1 = kConnected"
    using send_string_stream [OF "2.prems"(1,2) _ assms(5,6) "2.prems"(4), of s] by auto
  with "2.IH" [of w1] "2.prems"(3) show ?case by fastforce
next
  case (3 ops)
  show ?case
  proof (cases "writing w")
    case True
    then obtain w1 where "conn_handleWrite env tid w = Inr w1" "streaming w1" "stream env w1 = stream env w"
      "room w1 = room w" "threadId w1 = tid" "state_of w1 = kConnected"
      using handleWrite_stream [OF "3.prems"(1) True assms(5,6)] "3.prems"(2,4) by auto
    with "3.IH" [of w1] "3.prems"(3) True show ?thesis by simp
  next
    case False
    with "3.IH" [of w] "3.prems" show ?thesis by simp
  qed
qed

section \<open>A connection for the witnesses\<close>

text \<open>Descriptor 9 with its channel at address 200, the interest \<open>ev\<close>, and the bytes \<open>out\<close> waiting.\<close>

definition ex_buf :: "string \<Rightarrow> buf" where
  "ex_buf out = \<lparr>store = replicate 8 NUL @ out, readIndex = 8, writeIndex = 8 + length out\<rparr>"

definition ex_channel :: "event_mask \<Rightarrow> event_mask \<Rightarrow> 'u closure channel" where
  "ex_channel ev rv = (conn_channel (Channel_init 1 9))\<lparr>ch_events := ev, ch_revents := rv, ch_index := kAdded, addedToLoop := True\<rparr>"

definition ex_world_of :: "'u \<Rightarrow> 'u \<Rightarrow> 'u \<Rightarrow> event_mask \<Rightarrow> event_mask \<Rightarrow> string \<Rightarrow> 'u world" where
  "ex_world_of m c cl ev rv out = \<lparr>loop_this = 1, looping = True, loop_quit = False, loop_eventHandling = False, iteration = 0,
     threadId = 7, pollReturnTime = 0, chans = [200 \<mapsto> ex_channel ev rv],
     loop_poller = \<lparr>channel_map = [9 \<mapsto> 200], events_size = 16, ep_calls = [Ctl EPOLL_CTL_ADD 9 ev 200]\<rparr>,
     activeChannels = [], currentActiveChannel = None, wakeupFd = 5, wakeupChannel = 100, pendingFunctors = [],
     wakeup_writes = 0, wakeup_reads = 0,
     w_conn = (TcpConnection_init [] 9 200)\<lparr>c_state := kConnected, outputBuffer := ex_buf out,
       messageCallback := Some m, connectionCallback := Some c, c_closeCallback := Some cl\<rparr>,
     w_sys = []\<rparr>"

abbreviation ex_world :: "event_mask \<Rightarrow> event_mask \<Rightarrow> string \<Rightarrow> nat world" where
  "ex_world \<equiv> ex_world_of 2 3 4"

lemma ex_buf_ok: "length out < 2 ^ 62 \<Longrightarrow> buf_ok (ex_buf out)" "content (ex_buf out) = out"
  by (simp_all add: ex_buf_def buf_ok_def kCheapPrepend_def vec_max_size_def content_def)

lemma ex_conn_ok: "conn_ok (ex_world_of (m :: 'a) cc cl ev rv out)"
proof -
  let ?m = "[200 \<mapsto> ex_channel ev rv] :: 'a closure chan_mem"
  let ?p = "\<lparr>channel_map = [9 \<mapsto> 200], events_size = 16, ep_calls = [Ctl EPOLL_CTL_ADD 9 ev 200]\<rparr>"
  have c: "ch_fd (ex_channel ev rv :: 'a closure channel) = 9" "ch_index (ex_channel ev rv :: 'a closure channel) = kAdded"
    "ch_events (ex_channel ev rv :: 'a closure channel) = ev" "ch_loop (ex_channel ev rv :: 'a closure channel) = 1"
    "addedToLoop (ex_channel ev rv :: 'a closure channel)"
    by (simp_all add: ex_channel_def conn_channel_def setReadCallback_def setWriteCallback_def setErrorCallback_def
        setCloseCallback_def Channel_init_def)
  have "registered ?m ?p = [9 \<mapsto> (ev, 200)]" using c by (auto simp: registered_def fun_eq_iff)
  then have "poller_ok ?m ?p" using c by (simp add: poller_ok_def index_defs replay_def)
  then show ?thesis using c
    by (simp add: conn_ok_def chans_ok_def ex_world_of_def TcpConnection_init_def index_defs)
qed

lemma ex_world_simps [simp]:
  "writing (ex_world_of m cc cl ev rv out) = (ev AND kWriteEvent \<noteq> 0)" "threadId (ex_world_of m cc cl ev rv out) = 7"
  "state_of (ex_world_of m cc cl ev rv out) = kConnected" "c_file (w_conn (ex_world_of m cc cl ev rv out)) = None"
  "outputBuffer (w_conn (ex_world_of m cc cl ev rv out)) = ex_buf out" "w_sys (ex_world_of m cc cl ev rv out) = []"
  "c_socket (w_conn (ex_world_of m cc cl ev rv out)) = 9"
  by (simp_all add: writing_def ex_world_of_def TcpConnection_init_def isWriting_def ex_channel_def)

lemma ex_streaming:
  "length out < 2 ^ 62 \<Longrightarrow> (ev AND kWriteEvent \<noteq> 0 \<longleftrightarrow> out \<noteq> []) \<Longrightarrow> streaming (ex_world_of m cc cl ev rv out)"
  using ex_conn_ok ex_buf_ok by (simp add: streaming_def)

text \<open>An application that does nothing, on a socket that takes at most three bytes at a time.\<close>

definition ex_env :: "nat env" where
  "ex_env = \<lparr>sys_ret = \<lambda>h sc. (case sc of SysWrite fd d \<Rightarrow> (min 3 (int (length d)), 0) | _ \<Rightarrow> (-1, 11)),
     sys_readv = \<lambda>h. Inr [], region_then = \<lambda>h r. Some r, user = \<lambda>u w. Inr w\<rparr>"

lemma ex_env_ok: "calm ex_env" "writes_ok ex_env"
  by (simp_all add: calm_def writes_ok_def ex_env_def)

lemma send_stream_witness:
  "\<exists>w'. conn_run ex_env 7 [OpSend ''hello'', OpWritable, OpSend ''!''] (ex_world kReadEvent 0 []) = Inr w' \<and>
     delivered ex_env (w_sys w') @ content (outputBuffer (w_conn w')) = ''hello!''"
proof -
  have st: "streaming (ex_world kReadEvent 0 [])" by (rule ex_streaming) (simp_all add: event_bits)
  have sum: "sent [OpSend ''hello'', OpWritable, OpSend ''!''] = ''hello!''" by simp
  have "stream ex_env (ex_world kReadEvent 0 []) = []" using ex_buf_ok(2) [of "[]"] by (simp add: stream_def)
  moreover have "length (store (ex_buf [])) + 6 \<le> vec_max_size" by (simp add: ex_buf_def vec_max_size_def)
  ultimately show ?thesis
    using send_stream [OF st, of 7 "[OpSend ''hello'', OpWritable, OpSend ''!'']" ex_env] ex_env_ok
    by (simp only: sum) (auto simp: stream_def)
qed

section \<open>A write that fails\<close>

lemma max_word: "(word_of_int (-1) :: 64 word) = - 1" "unat (- 1 :: 64 word) = 2 ^ 64 - 1"
  by (simp_all add: unsigned_minus_1_eq_mask mask_eq_exp_minus_1)

text \<open>\<open>sendInLoop\<close> after a \<open>write\<close> that returned -1: the length plus one, from the byte before.\<close>

lemma send_failed:
  assumes st: "streaming w" "\<not> writing w" "state_of w = kConnected" and len: "len < 2 ^ 63"
    and mem: "mem_read region off len = Inr data" and off: "off < 2 ^ 64"
    and err: "sys_ret env (w_sys w) (SysWrite (c_socket (w_conn w)) data) = (-1, e)"
  shows "sendInLoop env tid region off len w =
    rbind (mem_read region (if off = 0 then 2 ^ 64 - 1 else off - 1) (Suc len)) (\<lambda>d.
    rbind (append_buf (outputBuffer (w_conn w)) d) (\<lambda>b.
    enableWriting tid (c_channel (w_conn w))
      (with_conn (\<lambda>c. c\<lparr>outputBuffer := b\<rparr>) (w\<lparr>w_sys := w_sys w @ [SysWrite (c_socket (w_conn w)) data]\<rparr>))))"
proof -
  obtain c where c: "sock_channel w = Inr c" "\<not> isWriting c" using sock_channel_ok st by (auto simp: streaming_def)
  have b: "buf_ok (outputBuffer (w_conn w))" "content (outputBuffer (w_conn w)) = []" using st by (simp_all add: streaming_def)
  have rem: "(of_nat len - word_of_int (-1) :: 64 word) = of_nat (Suc len)" by simp
  have u: "unat (of_nat (Suc len) :: 64 word) = Suc len" using len by (intro of_nat_inverse) simp_all
  then have ne: "(of_nat (Suc len) :: 64 word) \<noteq> 0" by (metis nat.distinct(1) unsigned_0)
  then have pos: "0 < (of_nat (Suc len) :: 64 word)" by (simp add: word_gt_0)
  have ptr: "sz_add off (unat (word_of_int (-1) :: 64 word)) = (if off = 0 then 2 ^ 64 - 1 else off - 1)"
    using off sz_add_wrap [of off] by (simp add: max_word size_t_mod_def sz_add_def)
  have sock: "sock_channel (with_conn (\<lambda>c. c\<lparr>outputBuffer := b\<rparr>) (w\<lparr>w_sys := h\<rparr>)) = Inr c" for b h
    using c(1) by (simp add: sock_channel_def with_conn_def)
  have chan: "c_channel (w_conn (with_conn (\<lambda>c. c\<lparr>outputBuffer := b\<rparr>) v)) = c_channel (w_conn v)" for b and v :: "'a world"
    by (simp add: with_conn_def)
  show ?thesis
    unfolding sendInLoop_def
    by (simp only: st(3) simp_thms if_False assertInLoopThread_id Let_def c rbind.simps if_True readableBytes_ok [OF b(1)] b(2)
        list.size mem sys_call_def err case_prod_conv word_zero_le rem ne pos u ptr sock chan) simp
qed


text \<open>C37: When a \<open>write\<close> of an idle connection returns -1 (the socket's buffer is full, or the peer
  is gone), the error is not noticed: sending a string reads in front of its first character, and sending
  a buffer queues, and so delivers later, one byte that is not part of the message, the one in
  front of its readable bytes.\<close>

theorem write_error_garbage:
  assumes st: "streaming w" "\<not> writing w" "state_of w = kConnected" "threadId w = tid"
    and err: "\<And>d. fst (sys_ret env (w_sys w) (SysWrite (c_socket (w_conn w)) d)) = -1"
    and s: "length s < 2 ^ 62"
    and b: "buf_ok b" "room w + Suc (length (content b)) \<le> vec_max_size"
  shows "send_string env tid s w = Inl OutOfBounds \<and>
    (\<exists>w'. send_buffer env tid b w = Inr (retrieveAll b, w') \<and> writing w' \<and>
       content (outputBuffer (w_conn w')) = store b ! (readIndex b - 1) # content b)"
proof
  have "mem_read (c_str s) 0 (length s) = Inr s" using mem_read_suffix [of 0 s] by simp
  moreover have "mem_read (c_str s) (2 ^ 64 - 1) (Suc (length s)) = Inl OutOfBounds"
    using s by (simp add: mem_read_def)
  ultimately show "send_string env tid s w = Inl OutOfBounds"
    using send_failed [OF st(1-3), of "length s" "c_str s" 0 s env _ tid] s st(3,4) err [of s]
    by (cases "sys_ret env (w_sys w) (SysWrite (c_socket (w_conn w)) s)") (simp add: send_string_def isInLoopThread_def)
next
  let ?n = "length (content b)" and ?x = "store b ! (readIndex b - 1)"
  have bk: "8 \<le> readIndex b" "readIndex b + ?n \<le> length (store b)" "length (store b) < 2 ^ 63"
    using b(1) by (auto simp: buf_ok_def kCheapPrepend_def length_content vec_max_size_def)
  have n: "?n = writeIndex b - readIndex b" using length_content [OF b(1)] .
  have "mem_read (store b) (readIndex b) (writeIndex b - readIndex b) = Inr (content b)"
    using buf_okD(2,3) [OF b(1)] by (simp add: mem_read_def content_def drop_take)
  then have data: "mem_read (store b) (readIndex b) ?n = Inr (content b)" by (simp only: n)
  have "drop (readIndex b - 1) (store b) = ?x # drop (readIndex b) (store b)"
    using bk Cons_nth_drop_Suc [of "readIndex b - 1" "store b"] by simp
  then have more: "mem_read (store b) (readIndex b - 1) (Suc ?n) = Inr (?x # content b)"
    using data bk by (simp add: mem_read_def)
  have ob: "buf_ok (outputBuffer (w_conn w))" "content (outputBuffer (w_conn w)) = []"
    using st by (simp_all add: streaming_def)
  have "room w + length (?x # content b) \<le> vec_max_size" using b(2) by simp
  from bq.put_ok [OF ob(1) this] obtain b' where
    b': "append_buf (outputBuffer (w_conn w)) (?x # content b) = Inr b'" "content b' = ?x # content b"
    unfolding ob(2) append_Nil by blast
  let ?w = "with_conn (\<lambda>c. c\<lparr>outputBuffer := b'\<rparr>) (w\<lparr>w_sys := w_sys w @ [SysWrite (c_socket (w_conn w)) (content b)]\<rparr>)"
  have "conn_ok ?w" using st(1) by (simp add: streaming_def conn_ok_def with_conn_def chans_ok_def)
  from enableWriting_ok [OF this, of tid] obtain w' where
    w': "enableWriting tid (c_channel (w_conn w)) ?w = Inr w'" "writing w'" "w_conn w' = w_conn ?w"
    by (auto simp: with_conn_def)
  obtain e where e: "sys_ret env (w_sys w) (SysWrite (c_socket (w_conn w)) (content b)) = (-1, e)"
    using err [of "content b"] by (cases "sys_ret env (w_sys w) (SysWrite (c_socket (w_conn w)) (content b))") simp
  have "sendInLoop env tid (store b) (readIndex b) ?n w = Inr w'"
    using send_failed [OF st(1-3) _ data _ e, of tid] bk more b'(1) w'(1) by simp
  then have "send_buffer env tid b w = Inr (retrieveAll b, w')"
    using st(3) b(1) by (simp add: send_buffer_def peek_def retrieve_def retrieveAll_def)
  then show "\<exists>w'. send_buffer env tid b w = Inr (retrieveAll b, w') \<and> writing w' \<and>
      content (outputBuffer (w_conn w')) = ?x # content b"
    using w' b' by (auto simp: with_conn_def)
qed

text \<open>The socket's buffer is full (EAGAIN).\<close>

definition ex_full :: "nat env" where
  "ex_full = ex_env\<lparr>sys_ret := \<lambda>h sc. (-1, 11)\<rparr>"

lemma write_error_garbage_witness:
  "send_string ex_full 7 ''hello'' (ex_world kReadEvent 0 []) = Inl OutOfBounds \<and>
   (\<exists>w'. send_buffer ex_full 7 (ex_buf ''hello'') (ex_world kReadEvent 0 []) = Inr (retrieveAll (ex_buf ''hello''), w') \<and>
      content (outputBuffer (w_conn w')) = NUL # ''hello'')"
proof -
  have st: "streaming (ex_world kReadEvent 0 [])" by (rule ex_streaming) (simp_all add: event_bits)
  have b: "buf_ok (ex_buf ''hello'')" "content (ex_buf ''hello'') = ''hello''" by (simp_all add: ex_buf_ok)
  have x: "store (ex_buf ''hello'') ! (readIndex (ex_buf ''hello'') - 1) = NUL" by (simp add: ex_buf_def nth_append)
  have "length (store (ex_buf [])) + 6 \<le> vec_max_size" by (simp add: ex_buf_def vec_max_size_def)
  then show ?thesis
    using write_error_garbage [OF st, of 7 ex_full "''hello''" "ex_buf ''hello''"] b x
    by (auto simp: ex_full_def event_bits)
qed

section \<open>Shutting down while bytes wait\<close>

lemma handleWrite_disconnecting:
  assumes "streaming w" "state_of w = kDisConnecting" "threadId w = tid" "calm env" "writes_ok env"
  shows "\<exists>w'. conn_run env tid ops w = Inr w' \<and> streaming w' \<and> state_of w' = kDisConnecting \<and>
    stream env w' = stream env w \<and> (\<forall>fd. count_list (w_sys w') (SysShutdown fd) = count_list (w_sys w) (SysShutdown fd))"
  using assms(1-3)
proof (induction ops arbitrary: w rule: sent.induct)
  case (2 s ops)
  then show ?case by (simp add: send_string_def)
next
  case (3 ops)
  show ?case
  proof (cases "writing w")
    case True
    from handleWrite_stream [where tid = tid, OF "3.prems"(1) True assms(4,5)] obtain w1 d where
      run: "conn_handleWrite env tid w = Inr w1" "streaming w1" "stream env w1 = stream env w"
      "threadId w1 = threadId w" "state_of w1 = state_of w" "w_sys w1 = w_sys w @ [SysWrite (c_socket (w_conn w)) d]"
      by blast
    note w1 = run(1-3) run(4) [unfolded "3.prems"(3)] run(5) [unfolded "3.prems"(2)] run(6)
    from "3.IH" [OF w1(2,5,4)] w1 True show ?thesis by auto
  next
    case False
    with "3.IH" [OF "3.prems"] show ?thesis by simp
  qed
qed simp

text \<open>C38: If shutdown is called while bytes still wait, the write side of the socket is never shut down:
  later writable events send the bytes, but when the last one is gone nobody calls shutdown(2), and
  calling shutdown again does nothing. The peer waits for the end of the stream for ever.\<close>

theorem shutdown_lost:
  assumes "streaming w" "writing w" "state_of w = kConnected" "threadId w = tid" "calm env" "writes_ok env"
  shows "\<exists>w1. conn_shutdown env tid w = Inr w1 \<and> (\<exists>w2. conn_run env tid ops w1 = Inr w2 \<and>
    stream env w2 = stream env w \<and> conn_shutdown env tid w2 = Inr w2 \<and>
    (\<forall>fd. count_list (w_sys w2) (SysShutdown fd) = count_list (w_sys w) (SysShutdown fd)))"
proof -
  let ?w = "with_conn (\<lambda>c. c\<lparr>c_state := kDisConnecting\<rparr>) w"
  obtain c where c: "sock_channel w = Inr c" "isWriting c"
    using sock_channel_ok [of w] assms(1,2) by (auto simp: streaming_def)
  then have "sock_channel ?w = Inr c" by (simp add: sock_channel_def with_conn_def)
  then have "conn_shutdown env tid w = Inr ?w"
    using c assms(3,4) by (simp add: conn_shutdown_def runInLoop_def isInLoopThread_def shutdownInLoop_def with_conn_def)
  moreover have "streaming ?w"
    using assms(1) by (simp add: streaming_def with_conn_def conn_ok_def chans_ok_def writing_def)
  moreover have "state_of ?w = kDisConnecting" "threadId ?w = tid" "stream env ?w = stream env w" "w_sys ?w = w_sys w"
    using assms(4) by (simp_all add: with_conn_def stream_def)
  ultimately show ?thesis
    using handleWrite_disconnecting [of ?w tid env ops] assms(5,6) by (auto simp: conn_shutdown_def)
qed

lemma shutdown_lost_witness:
  "\<exists>w1 w2. conn_shutdown ex_env 7 (ex_world kWriteEvent 0 ''bye'') = Inr w1 \<and>
     conn_run ex_env 7 [OpWritable] w1 = Inr w2 \<and> count_list (w_sys w2) (SysShutdown 9) = 0"
proof -
  have st: "streaming (ex_world kWriteEvent 0 ''bye'')" by (rule ex_streaming) (simp_all add: event_bits)
  have wr: "writing (ex_world kWriteEvent 0 ''bye'')" by (simp add: event_bits)
  show ?thesis using shutdown_lost [OF st wr, of 7 ex_env "[OpWritable]"] ex_env_ok by fastforce
qed

section \<open>A file that does not fit into the socket at once\<close>

fun writable_times :: "'u env \<Rightarrow> int \<Rightarrow> nat \<Rightarrow> 'u world \<Rightarrow> 'u world result" where
  "writable_times env tid 0 w = Inr w"
| "writable_times env tid (Suc n) w = rbind (conn_handleWrite env tid w) (writable_times env tid n)"

lemma file_stuck_step:
  assumes "conn_ok w" "writing w" "c_file (w_conn w) = Some f"
    and "fst (sys_ret env (w_sys w) (SysSendfile (file_fd f) (c_socket (w_conn w)) (fileSize f))) = -1"
    and "c_fileWrote (w_conn w) - 1 \<noteq> of_nat (fileSize f)"
  shows "conn_handleWrite env tid w = Inr (with_conn (\<lambda>c. c\<lparr>c_fileWrote := c_fileWrote c - 1\<rparr>)
    (w\<lparr>w_sys := w_sys w @ [SysSendfile (file_fd f) (c_socket (w_conn w)) (fileSize f)]\<rparr>))"
proof -
  obtain c where c: "sock_channel w = Inr c" "isWriting c" using sock_channel_ok [OF assms(1)] assms(2) by auto
  let ?sc = "SysSendfile (file_fd f) (c_socket (w_conn w)) (fileSize f)"
  obtain e where "sys_ret env (w_sys w) ?sc = (-1, e)" using assms(4) by (cases "sys_ret env (w_sys w) ?sc") simp
  then show ?thesis using c assms(3,5)
    by (simp add: conn_handleWrite_def file_step_def sys_call_def with_conn_def)
qed

lemma word_down:
  fixes x y :: "64 word"
  assumes "unat x < unat y" "0 < k" "k \<le> 2 ^ 64 - unat y + unat x - 1"
  shows "x - of_nat k \<noteq> y"
proof
  assume "x - of_nat k = y"
  then have "x = y + of_nat k" by (simp only: diff_eq_eq)
  moreover have y: "unat y < 2 ^ 64" by (rule order.strict_trans2 [OF unsigned_less]) simp
  moreover have k: "k < 2 ^ 64" using assms y by simp
  ultimately have "unat x = (unat y + k) mod 2 ^ 64"
    by (simp add: unat_word_ariths of_nat_inverse [of k "of_nat k :: 64 word"])
  moreover define N :: nat where "N = 2 ^ 64"
  ultimately have N: "unat x = (unat y + k) mod N" by simp
  note b = y [folded N_def] k [folded N_def] assms(1,2) assms(3) [folded N_def]
  show False
  proof (cases "unat y + k < N")
    case True
    then show False using N b by simp
  next
    case False
    then have "(unat y + k) mod N = unat y + k - N" using b by (simp add: le_mod_geq)
    then show False using N b False by linarith
  qed
qed

text \<open>C40: If a file is not sent at once, the rest is never sent: \<open>handleWrite\<close> calls \<open>sendfile\<close> with
  the descriptors exchanged (from the socket into the file, which is open for reading only, so that
  the call fails), counts the error as one byte less written, and keeps its interest in writing.
  The next \<open>2 ^ 64 - size\<close> writable events all do the same, and no byte reaches the socket.\<close>

theorem file_stuck:
  assumes "conn_ok w" "writing w" "c_file (w_conn w) = Some f"
    and err: "\<And>h n. fst (sys_ret env h (SysSendfile (file_fd f) (c_socket (w_conn w)) n)) = -1"
    and "unat (c_fileWrote (w_conn w)) < fileSize f" "fileSize f < 2 ^ 64" "k < 2 ^ 64 - fileSize f"
  shows "\<exists>w'. writable_times env tid k w = Inr w' \<and> writing w' \<and> c_file (w_conn w') = Some f \<and>
    w_sys w' = w_sys w @ replicate k (SysSendfile (file_fd f) (c_socket (w_conn w)) (fileSize f))"
proof -
  let ?sc = "SysSendfile (file_fd f) (c_socket (w_conn w)) (fileSize f)"
  define after where "after i = with_conn (\<lambda>c. c\<lparr>c_fileWrote := c_fileWrote c - of_nat i\<rparr>)
    (w\<lparr>w_sys := w_sys w @ replicate i ?sc\<rparr>)" for i
  have inv: "conn_ok (after i)" "writing (after i)" "c_file (w_conn (after i)) = Some f"
    "c_socket (w_conn (after i)) = c_socket (w_conn w)" "w_sys (after i) = w_sys w @ replicate i ?sc"
    "c_fileWrote (w_conn (after i)) = c_fileWrote (w_conn w) - of_nat i" for i
    using assms(1-3) by (simp_all add: after_def with_conn_def conn_ok_def chans_ok_def writing_def)
  have size: "unat (of_nat (fileSize f) :: 64 word) = fileSize f" using assms(6) by (intro of_nat_inverse) simp_all
  have step: "conn_handleWrite env tid (after i) = Inr (after (Suc i))" if "i < k" for i
  proof -
    have "c_fileWrote (w_conn w) - of_nat (Suc i) \<noteq> of_nat (fileSize f)"
      using that assms(5,7) size by (intro word_down) auto
    then have "c_fileWrote (w_conn (after i)) - 1 \<noteq> of_nat (fileSize f)"
      by (simp add: inv algebra_simps)
    from file_stuck_step [OF inv(1-3) _ this, of env tid] err
    show ?thesis by (simp add: inv) (simp add: after_def with_conn_def replicate_append_same [symmetric] algebra_simps)
  qed
  have "writable_times env tid n (after i) = Inr (after (i + n))" if "i + n \<le> k" for i n
    using that by (induction n arbitrary: i) (simp_all add: step)
  from this [of 0 k] have "writable_times env tid k w = Inr (after k)" by (simp add: after_def with_conn_def)
  then show ?thesis using inv [of k] by auto
qed

lemma file_stuck_witness:
  "\<exists>w'. writable_times ex_full 7 1000
      ((ex_world kWriteEvent 0 [])\<lparr>w_conn := (w_conn (ex_world kWriteEvent 0 []))\<lparr>c_file := Some \<lparr>file_fd = 11, fileSize = 5\<rparr>\<rparr>\<rparr>) = Inr w' \<and>
     writing w' \<and> w_sys w' = replicate 1000 (SysSendfile 11 9 5)"
proof -
  let ?w = "(ex_world kWriteEvent 0 [])\<lparr>w_conn := (w_conn (ex_world kWriteEvent 0 []))\<lparr>c_file := Some \<lparr>file_fd = 11, fileSize = 5\<rparr>\<rparr>\<rparr>"
  have "conn_ok ?w" using ex_conn_ok [of "2 :: nat" 3 4 kWriteEvent 0 "[]"] by (simp add: conn_ok_def chans_ok_def)
  moreover have "writing ?w" using ex_world_simps(1) [of "2 :: nat" 3 4 kWriteEvent 0 "[]"] by (simp add: writing_def event_bits)
  moreover have "c_fileWrote (w_conn ?w) = 0" by (simp add: ex_world_of_def TcpConnection_init_def)
  ultimately show ?thesis
    using file_stuck [of ?w "\<lparr>file_fd = 11, fileSize = 5\<rparr>" ex_full 1000 7] by (auto simp: ex_full_def)
qed


section \<open>The end of the stream\<close>

lemma has_event_or: "has_event c a \<Longrightarrow> has_event c (a OR b)"
proof -
  assume "has_event c a"
  moreover have "ch_revents c AND a = (ch_revents c AND (a OR b)) AND a"
    by (rule bit_eqI) (auto simp: bit_simps)
  ultimately show ?thesis by (auto simp: has_event_def)
qed

text \<open>Changing the flags of a channel that the poller does not look at.\<close>

lemma chans_ok_touch:
  assumes "chans_ok l" "chans l a = Some c"
    and "ch_loop c' = ch_loop c" "ch_fd c' = ch_fd c" "ch_index c' = ch_index c" "ch_events c' = ch_events c"
      "addedToLoop c' = addedToLoop c"
  shows "chans_ok (l\<lparr>chans := (chans l)(a \<mapsto> c')\<rparr>)"
proof -
  have pok: "poller_ok (chans l) (loop_poller l)" using assms(1) by (simp add: chans_ok_def)
  have "registered ((chans l)(a \<mapsto> c')) (loop_poller l) = registered (chans l) (loop_poller l)"
    using assms by (auto simp: registered_def fun_eq_iff split: option.splits)
  then have "replay (ep_calls (loop_poller l)) = Some (registered ((chans l)(a \<mapsto> c')) (loop_poller l))"
    using poller_okD(4) [OF pok] by simp
  moreover have "\<exists>d. ((chans l)(a \<mapsto> c')) b = Some d \<and> ch_fd d = fd \<and> ch_index d \<noteq> kNew"
    if "channel_map (loop_poller l) fd = Some b" for fd b
    using poller_okD(1) [OF pok that] assms(2,4,5) by (cases "b = a") auto
  moreover have "ch_index d \<in> {kNew, kAdded, kDeleted} \<and> (ch_index d \<noteq> kNew \<longrightarrow> channel_map (loop_poller l) (ch_fd d) = Some b)"
    if "((chans l)(a \<mapsto> c')) b = Some d" for b d
    using poller_okD(2,3) [OF pok, of b] that assms(2,4,5) by (cases "b = a") auto
  ultimately have "poller_ok ((chans l)(a \<mapsto> c')) (loop_poller l)"
    unfolding poller_ok_def by blast
  then show ?thesis using assms unfolding chans_ok_def by auto
qed

lemma readFd_empty: "buf_ok b \<Longrightarrow> \<exists>b'. readFd b (Inr []) = Inr (0, None, b')"
  using readFd_ok [of b "[]"] buf_okD(4) [of b] by auto

text \<open>\<open>handleRead\<close> at the end of the stream closes: no event is left, whatever calm callbacks do.\<close>

lemma handleRead_fin:
  assumes "conn_ok w" "chans w (c_channel (w_conn w)) = Some c" "sys_readv env (w_sys w) = Inr []"
    and "buf_ok (inputBuffer (w_conn w))" "connectionCallback (w_conn w) = Some u" "c_closeCallback (w_conn w) = Some v"
    and "calm env"
  shows "\<exists>w'. conn_handleRead env tid w = Inr w' \<and> state_of w' = kDisConnected \<and> c_channel (w_conn w') = c_channel (w_conn w) \<and>
    chans w' (c_channel (w_conn w)) = Some (after_events (\<lambda>e. kNoneEvent) c)"
proof -
  obtain b' where b': "readFd (inputBuffer (w_conn w)) (Inr []) = Inr (0, None, b')" using readFd_empty assms(4) by blast
  let ?w = "with_conn (\<lambda>c. c\<lparr>inputBuffer := b', c_state := kDisConnected\<rparr>) (w\<lparr>w_sys := w_sys w @ [SysReadv (c_socket (w_conn w))]\<rparr>)"
  have w: "w_conn ?w = (w_conn w)\<lparr>inputBuffer := b', c_state := kDisConnected\<rparr>" "chans ?w = chans w"
    by (simp_all add: with_conn_def)
  have "conn_ok ?w" using assms(1) by (simp add: conn_ok_def with_conn_def chans_ok_def)
  from events_ok [OF this, of "\<lambda>e. kNoneEvent" tid] obtain w1 where
    w1: "disableAll tid (c_channel (w_conn w)) ?w = Inr w1" "w_conn w1 = w_conn ?w"
    "chans w1 (c_channel (w_conn w)) = Some (after_events (\<lambda>e. kNoneEvent) c)"
    using assms(2) by (auto simp: w disableAll_def)
  obtain w2 where w2: "call_user env (Some u) w1 = Inr w2" "core w2 = core w1" using calm_call [OF assms(7)] by blast
  obtain w3 where w3: "call_user env (Some v) w2 = Inr w3" "core w3 = core w2" using calm_call [OF assms(7)] by blast
  have c3: "w_conn w3 = w_conn ?w" "chans w3 = chans w1" using w1(2) w2(2) w3(2) by (simp_all add: core_def)
  have "conn_handleRead env tid w = Inr w3"
    using assms(3,5,6) b' w1 w2 w3 core_cong(3) [OF w2(2)]
    by (simp add: conn_handleRead_def conn_handleClose_def with_conn_def)
  then show ?thesis using c3 w w1(3) by simp
qed

text \<open>C25: If one event reports the socket both readable and writable, and what is read is the end of the peer's stream, while bytes
  still wait for the peer (the channel is interested in writing), the process is aborted: \<open>handleRead\<close> closes the connection, which
  disables all events, and then \<open>handleWrite\<close> asserts that the channel is interested in writing. The application's callbacks leave
  the connection alone here.\<close>

theorem fin_while_writing_aborts:
  assumes ok: "conn_ok w" and c: "chans w (c_channel (w_conn w)) = Some c" "isWriting c"
    and ev: "has_event c POLLIN" "has_event c POLLOUT"
    and cbs: "readCallback c = Some ConnHandleRead" "writeCallback c = Some ConnHandleWrite" "errorCallback c = Some ConnHandleError"
    and fin: "sys_readv env (w_sys w) = Inr []" and b: "buf_ok (inputBuffer (w_conn w))"
    and cb: "connectionCallback (w_conn w) = Some u" "c_closeCallback (w_conn w) = Some v" "calm env"
  shows "conn_event env tid w = Inl AssertFail"
proof -
  let ?a = "c_channel (w_conn w)" and ?c = "c\<lparr>ch_eventHandling := True\<rparr>"
  let ?w = "w\<lparr>chans := (chans w)(?a \<mapsto> ?c)\<rparr>"
  have cok: "chans_ok w" and idx: "ch_index c \<noteq> kNew" using ok c(1) by (auto simp: conn_ok_def)
  have "chans_ok ?w" by (rule chans_ok_touch [OF cok c(1)]) simp_all
  then have "conn_ok ?w" using idx by (simp add: conn_ok_def)
  from handleRead_fin [OF this, of ?c env u v tid] fin b cb obtain w1 where
    w1: "conn_handleRead env tid ?w = Inr w1" "c_channel (w_conn w1) = ?a"
    "chans w1 ?a = Some (after_events (\<lambda>e. kNoneEvent) ?c)" by auto
  have ev': "has_event ?c POLLIN" "has_event ?c POLLOUT" "has_event ?c (POLLIN OR POLLPRI OR POLLRDHUP)"
    using ev has_event_or [of c "POLLIN" "POLLPRI OR POLLRDHUP"] by (simp_all add: has_event_def or.assoc)
  have out: "has_event (after_events (\<lambda>e. kNoneEvent) ?c) POLLOUT" "writeCallback (after_events (\<lambda>e. kNoneEvent) ?c) = Some ConnHandleWrite"
    using ev cbs by (simp_all add: has_event_def after_events_def)
  have abort: "conn_handleWrite env tid w1 = Inl AssertFail"
    using w1(2,3) by (simp add: conn_handleWrite_def sock_channel_def)
  have deref: "chan_deref (chans ?w) ?a = Inr ?c" by simp
  have close: "dispatch chans (run_closure env tid) ?a (\<lambda>c. has_event c POLLHUP \<and> \<not> has_event c POLLIN) closeCallback ?w = Inr ?w"
    using ev'(1) unfolding dispatch_def deref by simp
  have error: "dispatch chans (run_closure env tid) ?a (\<lambda>c. has_event c (POLLERR OR POLLNVAL)) errorCallback ?w = Inr ?w"
    using cbs(3) unfolding dispatch_def deref by (simp add: conn_handleError_def)
  have read: "dispatch chans (run_closure env tid) ?a (\<lambda>c. has_event c (POLLIN OR POLLPRI OR POLLRDHUP)) readCallback ?w = Inr w1"
    using ev'(3) cbs(1) w1(1) unfolding dispatch_def deref by simp
  have "chan_deref (chans w1) ?a = Inr (after_events (\<lambda>e. kNoneEvent) ?c)" using w1(3) by simp
  then have last: "dispatch chans (run_closure env tid) ?a (\<lambda>c. has_event c POLLOUT) writeCallback w1 = Inl AssertFail"
    using out abort unfolding dispatch_def by simp
  have flag: "chan_upd (chans w) ?a (\<lambda>c. c\<lparr>ch_eventHandling := True\<rparr>) = Inr ((chans w)(?a \<mapsto> ?c))" using c(1) by simp
  show ?thesis
    unfolding conn_event_def handleEvent_def handleEventWithGuard_def
    by (simp only: flag close error read last rbind.simps)
qed

lemma fin_while_writing_aborts_witness:
  "conn_event ex_env 7 (ex_world (kReadEvent OR kWriteEvent) (POLLIN OR POLLOUT) ''rest'') = Inl AssertFail"
proof -
  let ?w = "ex_world (kReadEvent OR kWriteEvent) (POLLIN OR POLLOUT) ''rest''" and ?c = "ex_channel (kReadEvent OR kWriteEvent) (POLLIN OR POLLOUT)"
  have c: "chans ?w (c_channel (w_conn ?w)) = Some ?c" by (simp add: ex_world_of_def TcpConnection_init_def)
  have w: "isWriting ?c" "has_event ?c POLLIN" "has_event ?c POLLOUT"
    by (simp_all add: isWriting_def has_event_def ex_channel_def event_bits)
  have cbs: "readCallback ?c = Some ConnHandleRead" "writeCallback ?c = Some ConnHandleWrite" "errorCallback ?c = Some ConnHandleError"
    by (simp_all add: ex_channel_def conn_channel_def setReadCallback_def setWriteCallback_def setErrorCallback_def
        setCloseCallback_def)
  have env: "sys_readv ex_env (w_sys ?w) = Inr []" by (simp add: ex_env_def)
  have conn: "buf_ok (inputBuffer (w_conn ?w))" "connectionCallback (w_conn ?w) = Some 3" "c_closeCallback (w_conn ?w) = Some 4"
    using buf_ok_default by (simp_all add: ex_world_of_def TcpConnection_init_def)
  show ?thesis by (rule fin_while_writing_aborts [OF ex_conn_ok c w cbs env conn ex_env_ok(1)])
qed

text \<open>An error of \<open>readv\<close> counts as data: the message callback runs with the buffer as it was, and
  neither \<open>handleError\<close> nor \<open>handleClose\<close> does.\<close>

lemma read_error_is_message:
  assumes "sys_readv env (w_sys w) = Inl err"
  shows "conn_handleRead env tid w =
    call_user env (messageCallback (w_conn w)) (w\<lparr>w_sys := w_sys w @ [SysReadv (c_socket (w_conn w))]\<rparr>)"
  using assms by (simp add: conn_handleRead_def readFd_def with_conn_def word_gt_0)

end
