(* ===== verification/ConnLife.thy ===== *)
theory ConnLife
  imports ConnCorrect
begin

text \<open>
  The life of a connection of \<open>TcpConnection\<close> from its construction to its destructor, and the one order
  of closing and destroying it that fails.
\<close>

section \<open>Events of the channel\<close>

lemma events_Inr:
  assumes "chans_ok w" "chans w a = Some c" "ch_index c = kNew \<Longrightarrow> channel_map (loop_poller w) (ch_fd c) = None"
  obtains w' where "with_events f tid a w = Inr w'" "chans_ok w'" "chans w' = (chans w)(a \<mapsto> after_events f c)"
    "interest_of w' = (interest_of w)(ch_fd c := if ch_index c = kAdded \<and> f (ch_events c) = kNoneEvent then None
       else Some (f (ch_events c), a))"
    "channel_map (loop_poller w') = (channel_map (loop_poller w))(ch_fd c \<mapsto> a)"
    "loop_this w' = loop_this w" "threadId w' = threadId w" "w_conn w' = w_conn w" "w_sys w' = w_sys w"
proof -
  from with_events_effect [OF assms, where f = f and tid = tid] obtain p where p:
    "with_events f tid a w = Inr (w\<lparr>chans := (chans w)(a \<mapsto> after_events f c), loop_poller := p\<rparr>)"
    "chans_ok (w\<lparr>chans := (chans w)(a \<mapsto> after_events f c), loop_poller := p\<rparr>)"
    "registered ((chans w)(a \<mapsto> after_events f c)) p =
      (interest_of w)(ch_fd c := if ch_index c = kAdded \<and> f (ch_events c) = kNoneEvent then None else Some (f (ch_events c), a))"
    "channel_map p = (channel_map (loop_poller w))(ch_fd c \<mapsto> a)" by blast
  show ?thesis by (rule that [OF p(1)]) (use p in simp_all)
qed

text \<open>Removing a channel without events and destroying it.\<close>

lemma remove_Inr:
  assumes "chans_ok w" "chans w a = Some c" "channel_map (loop_poller w) (ch_fd c) = Some a"
    and "ch_events c = kNoneEvent" "ch_index c = kDeleted"
  shows "Channel_remove tid a w = Inr (w\<lparr>chans := (chans w)(a \<mapsto> c\<lparr>addedToLoop := False, ch_index := kNew\<rparr>),
    loop_poller := (loop_poller w)\<lparr>channel_map := (channel_map (loop_poller w))(ch_fd c := None)\<rparr>\<rparr>)"
  using assms by (auto simp: Channel_remove_def loop_removeChannel_def ep_removeChannel_def chans_ok_def Let_def
      isNoneEvent_def setIndex_def index_defs)

lemma dtor_Inr:
  assumes "chans w a = Some c" "\<not> addedToLoop c" "\<not> ch_eventHandling c" "ch_loop c = loop_this w"
    and "channel_map (loop_poller w) (ch_fd c) = None"
  shows "Channel_dtor tid a w = Inr (w\<lparr>chans := (chans w)(a := None)\<rparr>)"
  using assms by (simp add: Channel_dtor_def loop_hasChannel_def hasChannel_def)

lemma after_events_simps [simp]:
  "ch_fd (after_events f c) = ch_fd c" "ch_events (after_events f c) = f (ch_events c)" "ch_loop (after_events f c) = ch_loop c"
  "ch_eventHandling (after_events f c) = ch_eventHandling c" "addedToLoop (after_events f c)"
  "ch_index (after_events f c) = (if ch_index c = kAdded \<and> f (ch_events c) = kNoneEvent then kDeleted else kAdded)"
  by (simp_all add: after_events_def Let_def)

section \<open>From establishment to destruction\<close>

text \<open>A connection as the server makes it: its channel is new, its descriptor in no channel of the loop.\<close>

definition conn_fresh :: "int \<Rightarrow> 'u world \<Rightarrow> bool" where
  "conn_fresh tid w \<longleftrightarrow> chans_ok w \<and> threadId w = tid \<and> connectionCallback (w_conn w) \<noteq> None \<and> c_closeCallback (w_conn w) \<noteq> None \<and>
     (\<exists>c. chans w (c_channel (w_conn w)) = Some c \<and> ch_index c = kNew \<and> \<not> ch_eventHandling c \<and>
        channel_map (loop_poller w) (ch_fd c) = None)"

lemma core_simps:
  assumes "core w' = core w"
  shows "chans w' = chans w" "loop_poller w' = loop_poller w" "loop_this w' = loop_this w" "w_conn w' = w_conn w"
    "threadId w' = threadId w" "chans_ok w' = chans_ok w" "w_sys w' = w_sys w"
  using assms by (auto simp: core_def chans_ok_def)

lemma calm_some: "calm env \<Longrightarrow> cb \<noteq> None \<Longrightarrow> \<exists>w'. call_user env cb w = Inr w' \<and> core w' = core w"
  by (auto intro: calm_call)

lemma with_conn_simps [simp]:
  "chans (with_conn f w) = chans w" "loop_poller (with_conn f w) = loop_poller w" "loop_this (with_conn f w) = loop_this w"
  "threadId (with_conn f w) = threadId w" "w_conn (with_conn f w) = f (w_conn w)" "chans_ok (with_conn f w) = chans_ok w" "w_sys (with_conn f w) = w_sys w"
  "loop_rest (with_conn f w) = loop_rest w"
  by (simp_all add: with_conn_def chans_ok_def loop_rest_def)

text \<open>After \<open>connectEstablished\<close>, and after \<open>handleClose\<close>; \<open>w\<close> is the world before.\<close>

definition conn_up :: "'u world \<Rightarrow> 'u world \<Rightarrow> bool" where
  "conn_up w w1 \<longleftrightarrow> (let a = c_channel (w_conn w) in chans_ok w1 \<and> threadId w1 = threadId w \<and> loop_this w1 = loop_this w \<and>
     w_conn w1 = (w_conn w)\<lparr>c_state := kConnected\<rparr> \<and> w_sys w1 = w_sys w \<and>
     (\<exists>c c1. chans w a = Some c \<and> chans w1 = (chans w)(a \<mapsto> c1) \<and> same_channel c c1 \<and> ch_fd c1 = ch_fd c \<and>
        ch_index c1 = kAdded \<and> ch_events c1 = ch_events c OR kReadEvent \<and> ch_loop c1 = ch_loop c \<and> ch_eventHandling c1 = ch_eventHandling c \<and>
        channel_map (loop_poller w1) = (channel_map (loop_poller w))(ch_fd c \<mapsto> a) \<and>
        interest_of w1 = (interest_of w)(ch_fd c \<mapsto> (ch_events c1, a))))"

definition conn_down :: "'u world \<Rightarrow> 'u world \<Rightarrow> bool" where
  "conn_down w w2 \<longleftrightarrow> (let a = c_channel (w_conn w) in chans_ok w2 \<and> threadId w2 = threadId w \<and> loop_this w2 = loop_this w \<and>
     w_conn w2 = (w_conn w)\<lparr>c_state := kDisConnected\<rparr> \<and>
     (\<exists>c c2. chans w a = Some c \<and> chans w2 = (chans w)(a \<mapsto> c2) \<and> ch_fd c2 = ch_fd c \<and> ch_index c2 = kDeleted \<and>
        ch_events c2 = kNoneEvent \<and> ch_loop c2 = ch_loop c \<and> ch_eventHandling c2 = ch_eventHandling c \<and>
        channel_map (loop_poller w2) = (channel_map (loop_poller w))(ch_fd c \<mapsto> a) \<and>
        interest_of w2 = (interest_of w)(ch_fd c := None)))"

lemma establish:
  assumes "calm env" "conn_fresh tid w"
  shows "\<exists>w1. connectEstablished env tid w = Inr w1 \<and> conn_up w w1"
proof -
  let ?a = "c_channel (w_conn w)" and ?v = "with_conn (\<lambda>c. c\<lparr>c_state := kConnected\<rparr>) w"
  obtain c where c: "chans w ?a = Some c" "ch_index c = kNew" "channel_map (loop_poller w) (ch_fd c) = None"
    using assms(2) by (auto simp: conn_fresh_def)
  have "chans_ok ?v" "chans ?v ?a = Some c" "channel_map (loop_poller ?v) (ch_fd c) = None"
    using assms(2) c by (simp_all add: conn_fresh_def)
  from events_Inr [OF this, of "\<lambda>e. e OR kReadEvent" tid] c(2) obtain w' where
    w': "enableReading tid ?a ?v = Inr w'" "chans_ok w'" "chans w' = (chans w)(?a \<mapsto> after_events (\<lambda>e. e OR kReadEvent) c)"
    "interest_of w' = (interest_of w)(ch_fd c \<mapsto> (ch_events c OR kReadEvent, ?a))"
    "channel_map (loop_poller w') = (channel_map (loop_poller w))(ch_fd c \<mapsto> ?a)" "loop_this w' = loop_this w" "threadId w' = threadId w"
    "w_conn w' = (w_conn w)\<lparr>c_state := kConnected\<rparr>" "w_sys w' = w_sys w"
    by (auto simp: enableReading_def index_defs)
  have "connectionCallback (w_conn w') \<noteq> None" using assms(2) w'(8) by (simp add: conn_fresh_def)
  from calm_some [OF assms(1) this, of w'] obtain w1 where w1: "call_user env (connectionCallback (w_conn w')) w' = Inr w1" "core w1 = core w'"
    by blast
  have "connectEstablished env tid w = Inr w1"
    using assms(2) w'(1) w1(1) by (simp add: connectEstablished_def conn_fresh_def isInLoopThread_def Let_def)
  moreover have "conn_up w w1"
    using w' c core_simps [OF w1(2)] unfolding conn_up_def Let_def
    by (intro conjI exI [of _ c] exI [of _ "after_events (\<lambda>e. e OR kReadEvent) c"]) (simp_all add: index_defs)
  ultimately show ?thesis by blast
qed

lemma conn_upE:
  assumes "conn_up w w1"
  obtains c c1 where "chans w (c_channel (w_conn w)) = Some c" "chans w1 = (chans w)(c_channel (w_conn w) \<mapsto> c1)"
    "ch_fd c1 = ch_fd c" "ch_index c1 = kAdded" "ch_events c1 = ch_events c OR kReadEvent" "ch_loop c1 = ch_loop c"
    "ch_eventHandling c1 = ch_eventHandling c"
    "channel_map (loop_poller w1) = (channel_map (loop_poller w))(ch_fd c \<mapsto> c_channel (w_conn w))"
    "interest_of w1 = (interest_of w)(ch_fd c \<mapsto> (ch_events c1, c_channel (w_conn w)))"
    "chans_ok w1" "threadId w1 = threadId w" "loop_this w1 = loop_this w" "w_conn w1 = (w_conn w)\<lparr>c_state := kConnected\<rparr>"
    "same_channel c c1"
  using assms unfolding conn_up_def Let_def by blast

text \<open>A change of events leaves the rest of the loop, and so does establishing, but for the callback.\<close>

lemma with_events_rest: "with_events f tid a l = Inr l' \<Longrightarrow> loop_rest l' = loop_rest l"
  by (auto simp: with_events_def Channel_update_def loop_updateChannel_def rbind_eq_Inr loop_rest_def)

lemma establish_rest:
  assumes "connectEstablished (env\<lparr>user := \<lambda>u w. Inr w\<rparr>) tid w = Inr w1"
  shows "loop_rest w1 = loop_rest w"
proof -
  let ?v = "with_conn (\<lambda>c. c\<lparr>c_state := kConnected\<rparr>) w"
  have "enableReading tid (c_channel (w_conn ?v)) ?v = Inr w1"
    using assms by (auto simp: connectEstablished_def rbind_eq_Inr call_user_def Let_def split: option.splits)
  then have "loop_rest w1 = loop_rest ?v" unfolding enableReading_def by (rule with_events_rest)
  then show ?thesis by (simp add: loop_rest_def with_conn_def)
qed

text \<open>Closing the channel of an established connection.\<close>

lemma disable_all:
  assumes "conn_up w w1"
  shows "\<exists>w2. disableAll tid (c_channel (w_conn w)) (with_conn (\<lambda>c. c\<lparr>c_state := kDisConnected\<rparr>) w1) = Inr w2 \<and> conn_down w w2"
proof -
  let ?a = "c_channel (w_conn w)" and ?v = "with_conn (\<lambda>c. c\<lparr>c_state := kDisConnected\<rparr>) w1"
  from conn_upE [OF assms] obtain c c1 where c: "chans w ?a = Some c" "chans w1 = (chans w)(?a \<mapsto> c1)" "ch_fd c1 = ch_fd c"
      "ch_index c1 = kAdded" "ch_events c1 = ch_events c OR kReadEvent" "ch_loop c1 = ch_loop c" "ch_eventHandling c1 = ch_eventHandling c"
      "channel_map (loop_poller w1) = (channel_map (loop_poller w))(ch_fd c \<mapsto> ?a)"
      "interest_of w1 = (interest_of w)(ch_fd c \<mapsto> (ch_events c1, ?a))"
    and w1: "chans_ok w1" "threadId w1 = threadId w" "loop_this w1 = loop_this w" "w_conn w1 = (w_conn w)\<lparr>c_state := kConnected\<rparr>" .
  have "chans_ok ?v" "chans ?v ?a = Some c1" "ch_index c1 = kNew \<Longrightarrow> channel_map (loop_poller ?v) (ch_fd c1) = None"
    using w1(1) c by (simp_all add: index_defs)
  from events_Inr [OF this, of "\<lambda>e. kNoneEvent" tid] obtain w2 where
    w2: "disableAll tid ?a ?v = Inr w2" "chans_ok w2" "chans w2 = (chans ?v)(?a \<mapsto> after_events (\<lambda>e. kNoneEvent) c1)"
    "interest_of w2 = (interest_of ?v)(ch_fd c1 := if ch_index c1 = kAdded \<and> kNoneEvent = kNoneEvent then None else Some (kNoneEvent, ?a))"
    "channel_map (loop_poller w2) = (channel_map (loop_poller ?v))(ch_fd c1 \<mapsto> ?a)" "loop_this w2 = loop_this ?v"
    "threadId w2 = threadId ?v" "w_conn w2 = w_conn ?v"
    unfolding disableAll_def by blast
  let ?c2 = "after_events (\<lambda>e. kNoneEvent) c1"
  have same: "interest_of ?v = interest_of w1" by simp
  have "interest_of w2 = (interest_of w)(ch_fd c := None)" unfolding w2(4) same c(9) c(3) c(4) by simp
  moreover have "chans w2 = (chans w)(?a \<mapsto> ?c2)" unfolding w2(3) by (simp add: c(2))
  moreover have "channel_map (loop_poller w2) = (channel_map (loop_poller w))(ch_fd c \<mapsto> ?a)"
    unfolding w2(5) by (simp add: c(3,8))
  moreover have "ch_fd ?c2 = ch_fd c" "ch_index ?c2 = kDeleted" "ch_events ?c2 = kNoneEvent" "ch_loop ?c2 = ch_loop c"
    "ch_eventHandling ?c2 = ch_eventHandling c" by (simp_all add: c)
  moreover have "threadId w2 = threadId w" "loop_this w2 = loop_this w" "w_conn w2 = (w_conn w)\<lparr>c_state := kDisConnected\<rparr>"
    unfolding w2(6,7,8) by (simp_all add: w1)
  ultimately have "conn_down w w2" using w2(2) c(1) unfolding conn_down_def Let_def by blast
  then show ?thesis using w2(1) by blast
qed

lemma conn_down_core:
  assumes "core w' = core w2" "conn_down w w2"
  shows "conn_down w w'"
  using assms(2) by (simp only: conn_down_def Let_def core_simps [OF assms(1)])

lemma conn_down_conn: "conn_down w u \<Longrightarrow> w_conn u = (w_conn w)\<lparr>c_state := kDisConnected\<rparr>"
  unfolding conn_down_def Let_def by blast

lemma conn_up_conn: "conn_up w u \<Longrightarrow> w_conn u = (w_conn w)\<lparr>c_state := kConnected\<rparr>"
  unfolding conn_up_def Let_def by blast

lemma conn_up_sys: "conn_up w u \<Longrightarrow> w_sys u = w_sys w"
  unfolding conn_up_def Let_def by blast

lemma close_down:
  assumes "calm env" "conn_fresh tid w" "conn_up w w1"
  shows "\<exists>w2. conn_handleClose env tid w1 = Inr w2 \<and> conn_down w w2"
proof -
  have chan: "c_channel (w_conn w1) = c_channel (w_conn w)" using conn_up_conn [OF assms(3)] by simp
  from disable_all [OF assms(3), of tid] obtain v where
    v: "disableAll tid (c_channel (w_conn w)) (with_conn (\<lambda>c. c\<lparr>c_state := kDisConnected\<rparr>) w1) = Inr v" "conn_down w v" by blast
  have cbs: "connectionCallback (w_conn u) \<noteq> None \<and> c_closeCallback (w_conn u) \<noteq> None" if "conn_down w u" for u
    using assms(2) conn_down_conn [OF that] by (simp add: conn_fresh_def)
  from calm_some [OF assms(1)] cbs [OF v(2)] obtain v1 where
    v1: "call_user env (connectionCallback (w_conn v)) v = Inr v1" "core v1 = core v" by blast
  have d1: "conn_down w v1" by (rule conn_down_core [OF v1(2) v(2)])
  from calm_some [OF assms(1)] cbs [OF d1] obtain v2 where
    v2: "call_user env (c_closeCallback (w_conn v1)) v1 = Inr v2" "core v2 = core v1" by blast
  have "conn_handleClose env tid w1 = Inr v2" using v(1) v1(1) v2(1) chan by (simp add: conn_handleClose_def Let_def)
  then show ?thesis using conn_down_core [OF v2(2) d1] by blast
qed

text \<open>Removing and destroying a closed connection.\<close>

lemma destroy_down:
  assumes "conn_fresh tid w" "conn_down w w2"
  shows "\<exists>w3 w4. Channel_remove tid (c_channel (w_conn w2)) w2 = Inr w3 \<and> TcpConnection_dtor tid w3 = Inr w4 \<and>
    chans_ok w4 \<and> chans w4 = (chans w)(c_channel (w_conn w) := None) \<and> interest_of w4 = interest_of w \<and>
    w_sys w4 = w_sys w2 @ [SysClose (c_socket (w_conn w))]"
proof -
  let ?a = "c_channel (w_conn w)"
  obtain c c2 where c: "chans w ?a = Some c" "chans w2 = (chans w)(?a \<mapsto> c2)" "ch_fd c2 = ch_fd c" "ch_index c2 = kDeleted"
      "ch_events c2 = kNoneEvent" "ch_loop c2 = ch_loop c" "ch_eventHandling c2 = ch_eventHandling c"
      "channel_map (loop_poller w2) = (channel_map (loop_poller w))(ch_fd c \<mapsto> ?a)"
      "interest_of w2 = (interest_of w)(ch_fd c := None)"
    and w2: "chans_ok w2" "threadId w2 = threadId w" "loop_this w2 = loop_this w" "w_conn w2 = (w_conn w)\<lparr>c_state := kDisConnected\<rparr>"
    using assms(2) unfolding conn_down_def Let_def by blast
  have chan: "c_channel (w_conn w2) = ?a" using w2(4) by simp
  let ?c3 = "c2\<lparr>addedToLoop := False, ch_index := kNew\<rparr>"
  let ?w3 = "w2\<lparr>chans := (chans w2)(?a \<mapsto> ?c3),
      loop_poller := (loop_poller w2)\<lparr>channel_map := (channel_map (loop_poller w2))(ch_fd c2 := None)\<rparr>\<rparr>"
  have rem: "Channel_remove tid ?a w2 = Inr ?w3"
    using w2(1) c by (intro remove_Inr) simp_all
  from remove_effect [OF w2(1) rem] c have ok3: "chans_ok ?w3" "interest_of ?w3 = (interest_of w)(ch_fd c := None)" by auto
  have fresh: "\<not> ch_eventHandling c" "channel_map (loop_poller w) (ch_fd c) = None" "chans_ok w"
    using assms(1) c(1) by (auto simp: conn_fresh_def)
  have own: "ch_loop c = loop_this w" using fresh(3) c(1) by (auto simp: chans_ok_def)
  have "Channel_dtor tid ?a ?w3 = Inr (?w3\<lparr>chans := (chans ?w3)(?a := None)\<rparr>)"
    using c fresh own w2(3) by (intro dtor_Inr [of _ _ ?c3]) simp_all
  moreover from dtor_effect [OF ok3(1) this] have
    "chans_ok (?w3\<lparr>chans := (chans ?w3)(?a := None)\<rparr>)" "interest_of (?w3\<lparr>chans := (chans ?w3)(?a := None)\<rparr>) = interest_of ?w3" by blast+
  moreover have "interest_of w (ch_fd c) = None" using fresh(2) by (simp add: registered_def)
  then have "(interest_of w)(ch_fd c := None) = interest_of w" by auto
  ultimately show ?thesis using rem c(2) w2(4) ok3(2) unfolding chan
    by (intro exI [of _ ?w3] exI [of _ "?w3\<lparr>chans := (chans ?w3)(?a := None), w_sys := w_sys ?w3 @ [SysClose (c_socket (w_conn w))]\<rparr>"])
      (simp add: TcpConnection_dtor_def chans_ok_def)
qed

text \<open>A new connection on descriptor 9 in a loop without other channels.\<close>

definition ex_fresh :: "nat world" where
  "ex_fresh = (ex_world 0 0 [])\<lparr>chans := [200 \<mapsto> conn_channel (Channel_init 1 9)], loop_poller := EpollPoller_init,
     w_conn := (w_conn (ex_world 0 0 []))\<lparr>c_state := kConnecting\<rparr>\<rparr>"

lemma ex_conn_fresh: "conn_fresh 7 ex_fresh"
proof -
  have "poller_ok [200 \<mapsto> conn_channel (Channel_init 1 9) :: nat closure channel] EpollPoller_init"
    by (rule poller_ok_init) (auto simp: conn_channel_def setReadCallback_def setWriteCallback_def setErrorCallback_def
        setCloseCallback_def Channel_init_def kNew_def split: if_splits)
  then show ?thesis
    by (simp add: conn_fresh_def ex_fresh_def ex_world_of_def chans_ok_def conn_channel_def setReadCallback_def setWriteCallback_def
        setErrorCallback_def setCloseCallback_def Channel_init_def TcpConnection_init_def EpollPoller_init_def kNew_def)
qed

text \<open>The regular life of a connection: established, closed by its peer, destroyed by the server and
  freed, every step succeeds, the states are passed in order, and at the end the loop is as
  if the connection had never been: its channel is gone and the kernel watches exactly what it
  watched before.\<close>

lemma connection_life:
  assumes "calm env" "conn_fresh tid w"
  shows "\<exists>w1 w2 w3 w4. connectEstablished env tid w = Inr w1 \<and> state_of w1 = kConnected \<and>
    conn_handleClose env tid w1 = Inr w2 \<and> state_of w2 = kDisConnected \<and>
    connectDestroyed env tid w2 = Inr w3 \<and> TcpConnection_dtor tid w3 = Inr w4 \<and>
    chans_ok w4 \<and> chans w4 = (chans w)(c_channel (w_conn w) := None) \<and> interest_of w4 = interest_of w \<and>
    last (w_sys w4) = SysClose (c_socket (w_conn w))"
proof -
  obtain w1 where w1: "connectEstablished env tid w = Inr w1" "conn_up w w1" using establish [OF assms] by blast
  obtain w2 where w2: "conn_handleClose env tid w1 = Inr w2" "conn_down w w2" using close_down [OF assms w1(2)] by blast
  obtain w3 w4 where w4: "Channel_remove tid (c_channel (w_conn w2)) w2 = Inr w3" "TcpConnection_dtor tid w3 = Inr w4"
    "chans_ok w4" "chans w4 = (chans w)(c_channel (w_conn w) := None)" "interest_of w4 = interest_of w"
    "w_sys w4 = w_sys w2 @ [SysClose (c_socket (w_conn w))]"
    using destroy_down [OF assms(2) w2(2)] by blast
  have st: "state_of w1 = kConnected" "state_of w2 = kDisConnected" using conn_up_conn [OF w1(2)] conn_down_conn [OF w2(2)] by simp_all
  then have "connectDestroyed env tid w2 = Inr w3" using w4(1) by (simp add: connectDestroyed_def Let_def)
  moreover have "last (w_sys w4) = SysClose (c_socket (w_conn w))" using w4(6) by simp
  ultimately show ?thesis using w1(1) w2(1) st w4(2-5) by blast
qed

lemma connection_life_witness:
  "\<exists>w1 w2 w3 w4. connectEstablished ex_env 7 ex_fresh = Inr w1 \<and> conn_handleClose ex_env 7 w1 = Inr w2 \<and>
     connectDestroyed ex_env 7 w2 = Inr w3 \<and> TcpConnection_dtor 7 w3 = Inr w4 \<and> chans w4 200 = None"
proof -
  have "c_channel (w_conn ex_fresh) = 200" by (simp add: ex_fresh_def ex_world_of_def TcpConnection_init_def)
  then show ?thesis using connection_life [OF ex_env_ok(1) ex_conn_fresh] by auto
qed

text \<open>C34: A connection that is shutting down when the server destroys it is not closed first:
  \<open>connectDestroyed\<close> disables the channel only in state \<open>kConnected\<close>, and removing a channel that
  still has events fails an assertion.\<close>

theorem destroy_while_disconnecting_aborts:
  assumes "calm env" "conn_fresh tid w" "connectEstablished env tid w = Inr w1" "conn_shutdown env tid w1 = Inr w2"
  shows "connectDestroyed env tid w2 = Inl AssertFail"
proof -
  have up: "conn_up w w1" using establish [OF assms(1,2)] assms(3) by auto
  let ?a = "c_channel (w_conn w)"
  from conn_upE [OF up] obtain c c1 where w: "chans w ?a = Some c" and c: "chans w1 = (chans w)(?a \<mapsto> c1)" "ch_fd c1 = ch_fd c" "ch_index c1 = kAdded"
      "ch_events c1 = ch_events c OR kReadEvent" "ch_loop c1 = ch_loop c" "ch_eventHandling c1 = ch_eventHandling c"
      "channel_map (loop_poller w1) = (channel_map (loop_poller w))(ch_fd c \<mapsto> ?a)"
      "interest_of w1 = (interest_of w)(ch_fd c \<mapsto> (ch_events c1, ?a))"
    and w1: "chans_ok w1" "threadId w1 = threadId w" "loop_this w1 = loop_this w" "w_conn w1 = (w_conn w)\<lparr>c_state := kConnected\<rparr>" .
  have "threadId w1 = tid" using assms(2) w1(2) by (simp add: conn_fresh_def)
  then have run: "shutdownInLoop env tid (with_conn (\<lambda>c. c\<lparr>c_state := kDisConnecting\<rparr>) w1) = Inr w2"
    using assms(4) w1(4) by (simp add: conn_shutdown_def runInLoop_def isInLoopThread_def)
  have keeps: "chans v' = chans v \<and> loop_poller v' = loop_poller v \<and> loop_this v' = loop_this v \<and> w_conn v' = w_conn v"
    if "shutdownInLoop env tid v = Inr v'" for v v'
  proof (cases "sock_channel v")
    case (Inr ch)
    then have "v' = (if \<not> isWriting ch then shutdownWrite env v else v)" using that by (simp add: shutdownInLoop_def)
    then show ?thesis by (simp add: shutdownWrite_def sys_call_def split_beta Let_def)
  qed (use that in \<open>simp add: shutdownInLoop_def\<close>)
  have "chans w2 = chans w1" "loop_poller w2 = loop_poller w1" "loop_this w2 = loop_this w1" "w_conn w2 = (w_conn w1)\<lparr>c_state := kDisConnecting\<rparr>"
    using keeps [OF run] by simp_all
  moreover have "chans w1 ?a = Some c1" using c(1) by simp
  then have "ch_loop c1 = loop_this w1" using w1(1) unfolding chans_ok_def by blast
  moreover have "ch_events c1 \<noteq> kNoneEvent"
  proof
    assume "ch_events c1 = kNoneEvent"
    then have "(ch_events c OR kReadEvent) AND kReadEvent = 0" using c(4) by (simp add: event_bits)
    then show False using mask_or [of "ch_events c" kReadEvent] by (simp add: event_bits)
  qed
  ultimately show ?thesis using c(1-3,7) w1(4)
    by (simp add: connectDestroyed_def Channel_remove_def loop_removeChannel_def ep_removeChannel_def Let_def isNoneEvent_def)
qed

lemma destroy_while_disconnecting_aborts_witness:
  "\<exists>w1 w2. connectEstablished ex_env 7 ex_fresh = Inr w1 \<and> conn_shutdown ex_env 7 w1 = Inr w2 \<and>
     connectDestroyed ex_env 7 w2 = Inl AssertFail"
proof -
  obtain w1 where w1: "connectEstablished ex_env 7 ex_fresh = Inr w1" "conn_up ex_fresh w1"
    using establish [OF ex_env_ok(1) ex_conn_fresh] by blast
  from conn_upE [OF w1(2)] obtain c c1 where "chans ex_fresh (c_channel (w_conn ex_fresh)) = Some c"
    and c: "chans w1 = (chans ex_fresh)(c_channel (w_conn ex_fresh) \<mapsto> c1)"
    and up: "threadId w1 = threadId ex_fresh" "w_conn w1 = (w_conn ex_fresh)\<lparr>c_state := kConnected\<rparr>" by blast
  have "threadId w1 = 7" using up(1) ex_conn_fresh by (simp add: conn_fresh_def)
  moreover have "sock_channel (with_conn (\<lambda>c. c\<lparr>c_state := kDisConnecting\<rparr>) w1) = Inr c1" using c up(2) by (simp add: sock_channel_def)
  ultimately obtain w2 where "conn_shutdown ex_env 7 w1 = Inr w2"
    using up(2) by (simp add: conn_shutdown_def runInLoop_def isInLoopThread_def shutdownInLoop_def Let_def)
  from destroy_while_disconnecting_aborts [OF ex_env_ok(1) ex_conn_fresh w1(1) this] w1(1) this show ?thesis by blast
qed

end
