(* ===== verification/HttpRequest.thy ===== *)
theory HttpRequest
  imports StrMap
begin

text \<open>
  \<open>muduo/net/http/HttpRequest.h\<close>, \<open>HttpRequest.cc\<close>: a parsed request, its setters and getters.
  A character range \<open>[begin, end)\<close> is the string it spans.
\<close>

datatype version = kHttp10 | kHttp11 | kUnkown
datatype http_method = kGet | kPost | kHead | kInvalid

definition kMethodStrings :: "string list" where
  "kMethodStrings = [''GET'', ''POST'', ''HEAD'', ''INVALID'']"

text \<open>The cast from and to the enumerators' numbers.\<close>

fun method_of_index :: "nat \<Rightarrow> http_method" where
  "method_of_index i = (if i = 0 then kGet else if i = 1 then kPost else if i = 2 then kHead else kInvalid)"

fun method_index :: "http_method \<Rightarrow> nat" where
  "method_index kGet = 0" | "method_index kPost = 1" | "method_index kHead = 2" | "method_index kInvalid = 3"

record http_request =
  req_method :: http_method
  req_version :: version
  req_path :: string
  req_header :: smap
  req_query :: string
  req_body :: string

definition HttpRequest_init :: http_request where
  "HttpRequest_init = \<lparr>req_method = kInvalid, req_version = kUnkown, req_path = [], req_header = [],
     req_query = [], req_body = []\<rparr>"

definition setVersion :: "version \<Rightarrow> http_request \<Rightarrow> http_request" where
  "setVersion v r = r\<lparr>req_version := v\<rparr>"

fun find_method :: "string \<Rightarrow> string list \<Rightarrow> nat \<Rightarrow> nat option" where
  "find_method m [] i = None"
| "find_method m (s # ss) i = (if m = s then Some i else find_method m ss (Suc i))"

definition setMethod :: "string \<Rightarrow> http_request \<Rightarrow> bool \<times> http_request" where
  "setMethod m r =
     (case find_method m kMethodStrings 0 of
        Some i \<Rightarrow> (True, r\<lparr>req_method := method_of_index i\<rparr>)
      | None \<Rightarrow> (False, r\<lparr>req_method := kInvalid\<rparr>))"

definition setPath :: "string \<Rightarrow> http_request \<Rightarrow> http_request" where
  "setPath p r = r\<lparr>req_path := p\<rparr>"

definition setQuery :: "string \<Rightarrow> http_request \<Rightarrow> http_request" where
  "setQuery q r = r\<lparr>req_query := q\<rparr>"

definition setBody :: "string \<Rightarrow> http_request \<Rightarrow> http_request" where
  "setBody b r = r\<lparr>req_body := b\<rparr>"

text \<open>\<open>trim\<close> erases spaces in front, then behind: \<open>erase(0, npos)\<close> and \<open>erase(npos + 1)\<close>, that is
  \<open>erase(0)\<close>, empty a string of spaces.\<close>

definition trim :: "string \<Rightarrow> string" where
  "trim s = (let s = dropWhile (\<lambda>c. c = CHR '' '') s in rev (dropWhile (\<lambda>c. c = CHR '' '') (rev s)))"

text \<open>\<open>addHeader(begin, colon, end)\<close> with \<open>k\<close> before the colon and \<open>v\<close> behind it.\<close>

definition addHeader :: "string \<Rightarrow> string \<Rightarrow> http_request \<Rightarrow> http_request" where
  "addHeader k v r =
     r\<lparr>req_header := smap_put (map tolower (trim k)) (map tolower (trim v)) (req_header r)\<rparr>"

text \<open>\<open>swap\<close> exchanges all members but the bodies.\<close>

definition request_swap :: "http_request \<Rightarrow> http_request \<Rightarrow> http_request \<times> http_request" where
  "request_swap r that =
     (that\<lparr>req_body := req_body r\<rparr>, r\<lparr>req_body := req_body that\<rparr>)"

definition getHeader :: "http_request \<Rightarrow> string \<Rightarrow> string" where
  "getHeader r k = (case smap_get (req_header r) k of Some v \<Rightarrow> v | None \<Rightarrow> [])"

definition methodString :: "http_request \<Rightarrow> string" where
  "methodString r = kMethodStrings ! method_index (req_method r)"

section \<open>Properties of the setters and getters\<close>

lemma setMethod_simps [simp]:
  "setMethod ''GET'' r = (True, r\<lparr>req_method := kGet\<rparr>)"
  "setMethod ''POST'' r = (True, r\<lparr>req_method := kPost\<rparr>)"
  "setMethod ''HEAD'' r = (True, r\<lparr>req_method := kHead\<rparr>)"
  "setMethod ''INVALID'' r = (True, r\<lparr>req_method := kInvalid\<rparr>)"
  by (simp_all add: setMethod_def kMethodStrings_def)

lemma setMethod_methodString: "setMethod (methodString r) r' = (True, r'\<lparr>req_method := req_method r\<rparr>)"
  by (cases "req_method r") (simp_all add: methodString_def kMethodStrings_def setMethod_def)

lemma setMethod_fst: "fst (setMethod m r) \<longleftrightarrow> m \<in> set kMethodStrings"
  by (simp add: setMethod_def kMethodStrings_def)

definition trimmed :: "string \<Rightarrow> bool" where
  "trimmed s \<longleftrightarrow> s = [] \<or> hd s \<noteq> CHR '' '' \<and> last s \<noteq> CHR '' ''"

lemma trim_trimmed [simp]: "trimmed s \<Longrightarrow> trim s = s"
proof -
  have id: "dropWhile (\<lambda>c. c = x) xs = xs" if "xs = [] \<or> hd xs \<noteq> x" for x :: char and xs
    using that by (cases xs) auto
  assume "trimmed s"
  then show ?thesis by (auto simp: trimmed_def trim_def Let_def id hd_rev)
qed

lemma trim_Cons_space [simp]: "trim (CHR '' '' # s) = trim s"
  by (simp add: trim_def)

lemma addHeader_simps [simp]:
  "req_method (addHeader k v r) = req_method r" "req_version (addHeader k v r) = req_version r"
  "req_path (addHeader k v r) = req_path r" "req_query (addHeader k v r) = req_query r"
  "req_body (addHeader k v r) = req_body r"
  by (simp_all add: addHeader_def)

lemma getHeader_addHeader:
  "smap_ok (req_header r) \<Longrightarrow> getHeader (addHeader k v r) k' =
     (if k' = map tolower (trim k) then map tolower (trim v) else getHeader r k')"
  by (simp add: getHeader_def addHeader_def smap_get_put)

text \<open>Headers are found by name whatever case and surrounding spaces they were sent with: after
  \<open>addHeader\<close>, \<open>getHeader\<close> of a trimmed lower-case name gives the trimmed lower-case value, and every
  other header is unchanged; the map stays ordered.\<close>

theorem addHeader_getHeader:
  assumes "smap_ok (req_header r)" and "n \<noteq> map tolower (trim k)"
  shows "getHeader (addHeader k v r) (map tolower (trim k)) = map tolower (trim v) \<and>
    getHeader (addHeader k v r) n = getHeader r n \<and> smap_ok (req_header (addHeader k v r))"
  using assms by (simp add: getHeader_addHeader) (simp add: addHeader_def)

lemma addHeader_getHeader_witness:
  "getHeader (addHeader ''  Content-Length '' '' 12 '' HttpRequest_init) ''content-length'' = ''12'' \<and>
   getHeader (addHeader ''  Content-Length '' '' 12 '' HttpRequest_init) ''host'' = []"
proof -
  have k: "map tolower (trim ''  Content-Length '') = ''content-length''" by code_simp
  have v: "map tolower (trim '' 12 '') = ''12''" by code_simp
  have "smap_ok (req_header HttpRequest_init)" by code_simp
  from addHeader_getHeader [OF this, of "''host''" "''  Content-Length ''" "'' 12 ''", unfolded k v]
  show ?thesis by (simp add: getHeader_def HttpRequest_init_def)
qed

end
