(* ===== verification/HttpContext.thy ===== *)
theory HttpContext
  imports HttpRequest Buffer Decimal Timestamp
begin

text \<open>
  \<open>muduo/net/http/HttpContext.h\<close>, \<open>HttpContext.cc\<close>: the incremental request parser of a
  connection. \<open>parseRequest\<close> is its loop over the connection's buffer, one \<open>parse_step\<close> per
  iteration. Then the parser on plain strings (\<open>sp_parse\<close>), which the buffer version
  implements, and what the parser does with rendered requests and with input in pieces.
\<close>

section \<open>State and operations\<close>

datatype parse_state = kExpectRequestLine | kExpectHeaders | kExpectBody | kGotAll

record http_context =
  httpRequest :: http_request
  ctx_state :: parse_state

definition HttpContext_init :: http_context where
  "HttpContext_init = \<lparr>httpRequest = HttpRequest_init, ctx_state = kExpectRequestLine\<rparr>"

definition gotAll :: "http_context \<Rightarrow> bool" where
  "gotAll c \<longleftrightarrow> ctx_state c = kGotAll"

definition ctx_reset :: "http_context \<Rightarrow> http_context" where
  "ctx_reset c = \<lparr>httpRequest = fst (request_swap (httpRequest c) HttpRequest_init),
     ctx_state = kExpectRequestLine\<rparr>"

text \<open>
  \<open>parseRequestLine\<close> on the characters before the CR LF. \<open>std::equal(start, end - 1, "HTTP/1.")\<close> is
  evaluated only when eight characters are left.
\<close>

definition parse_version :: "string \<Rightarrow> http_request \<Rightarrow> bool \<times> http_request" where
  "parse_version v r =
     (if length v = 8 \<and> take 7 v = ''HTTP/1.''
      then if v ! 7 = CHR ''0'' then (True, setVersion kHttp10 r)
           else if v ! 7 = CHR ''1'' then (True, setVersion kHttp11 r)
           else (False, setVersion kUnkown r)
      else (False, r))"

definition set_target :: "string \<Rightarrow> http_request \<Rightarrow> http_request" where
  "set_target t r =
     (let question = find_char CHR ''?'' t in
      if question = length t then setPath t r
      else setQuery (drop (Suc question) t) (setPath (take question t) r))"

definition parseRequestLine :: "string \<Rightarrow> http_context \<Rightarrow> bool \<times> http_context" where
  "parseRequestLine s c =
     (let space = find_char CHR '' '' s in
      if space = length s then (False, c)
      else let (known, r1) = setMethod (take space s) (httpRequest c) in
      if \<not> known then (False, c\<lparr>httpRequest := r1\<rparr>)
      else let s1 = drop (Suc space) s; space1 = find_char CHR '' '' s1 in
      if space1 = length s1 then (False, c\<lparr>httpRequest := r1\<rparr>)
      else let (ok, r2) = parse_version (drop (Suc space1) s1) (set_target (take space1 s1) r1)
      in (ok, c\<lparr>httpRequest := r2\<rparr>))"

definition isNum :: "string \<Rightarrow> bool" where
  "isNum s \<longleftrightarrow> list_all is_digit s"

text \<open>\<open>atoi\<close> of a string of digits: a value that is no \<open>int\<close> is undefined behaviour.\<close>

definition atoi_digits :: "string \<Rightarrow> nat result" where
  "atoi_digits s = (let n = nat_of_digits s in if n < 2 ^ 31 then Inr n else Inl SignedOverflow)"

definition parseRequestBody :: "http_context \<Rightarrow> buf \<Rightarrow> (bool \<times> http_context \<times> buf) result" where
  "parseRequestBody c b =
     (let lengthStr = getHeader (httpRequest c) ''content-length'' in
      if isNum lengthStr
      then rbind (atoi_digits lengthStr) (\<lambda>len.
           if len < readableBytes b then Inr (True, c, b)
           else if len = readableBytes b
           then rbind (read_range b (peek b) (peek b + readableBytes b)) (\<lambda>body.
                Inr (True, c\<lparr>httpRequest := setBody body (httpRequest c), ctx_state := kGotAll\<rparr>,
                     retrieveAll b))
           else Inr (False, c, b))
      else Inr (False, c, b))"

text \<open>One iteration of the loop of \<open>parseRequest\<close>; the result starts with \<open>hasMore\<close> and \<open>ok\<close>.\<close>

definition parse_step :: "http_context \<Rightarrow> buf \<Rightarrow> bool \<Rightarrow> (bool \<times> bool \<times> http_context \<times> buf) result" where
  "parse_step c b ok =
     (case ctx_state c of
        kExpectRequestLine \<Rightarrow>
          rbind (findCRLF b) (\<lambda>found. case found of
            None \<Rightarrow> Inr (False, ok, c, b)
          | Some crlf \<Rightarrow>
              rbind (read_range b (peek b) crlf) (\<lambda>line.
              let (good, c') = parseRequestLine line c in
              if good
              then Inr (True, True, c'\<lparr>ctx_state := kExpectHeaders\<rparr>, retrieve b (2 + crlf - peek b))
              else Inr (False, False, c', b)))
      | kExpectHeaders \<Rightarrow>
          rbind (findCRLF b) (\<lambda>found. case found of
            None \<Rightarrow> Inr (False, ok, c, b)
          | Some crlf \<Rightarrow>
              let b' = retrieve b (2 + crlf - peek b) in
              if crlf = peek b
              then if req_method (httpRequest c) = kPost
                   then Inr (True, ok, c\<lparr>ctx_state := kExpectBody\<rparr>, b')
                   else Inr (False, ok, c\<lparr>ctx_state := kGotAll\<rparr>, b')
              else rbind (read_range b (peek b) crlf) (\<lambda>line.
                   let colon = find_char CHR '':'' line in
                   if colon \<noteq> length line
                   then Inr (True, ok, c\<lparr>httpRequest :=
                          addHeader (take colon line) (drop (Suc colon) line) (httpRequest c)\<rparr>, b')
                   else Inr (False, False, c, b')))
      | kExpectBody \<Rightarrow>
          rbind (parseRequestBody c b) (\<lambda>(ok', c', b'). Inr (False, ok', c', b'))
      | kGotAll \<Rightarrow> Inr (False, ok, c, b))"

text \<open>Every iteration that goes on has taken at least the two bytes of a CR LF.\<close>

lemma findCRLF_room:
  assumes "findCRLF b = Inr (Some crlf)"
  shows "readableBytes (retrieve b (2 + crlf - peek b)) < readableBytes b"
proof -
  let ?s = "take (beginWrite b - peek b) (drop (peek b) (store b))"
  let ?k = "find_sub2 (kCRLF ! 0) (kCRLF ! 1) ?s"
  have r: "peek b \<le> beginWrite b" "beginWrite b \<le> length (store b)"
    using assms by (auto simp: findCRLF_def read_range_def split: if_splits)
  then have len: "length ?s = beginWrite b - peek b" by simp
  have crlf: "crlf = peek b + ?k" "crlf \<noteq> beginWrite b"
    using assms r by (auto simp: findCRLF_def read_range_def Let_def split: if_splits)
  then have "?k \<noteq> length ?s" using r len by auto
  then have "?k + 2 \<le> beginWrite b - peek b" using find_sub2_found [of "kCRLF ! 0" "kCRLF ! 1" ?s] len by simp
  then show ?thesis using crlf r
    by (simp add: readableBytes_def retrieve_def peek_def beginWrite_def)
qed

lemma parse_step_more:
  assumes "parse_step c b ok = Inr (True, ok', c', b')"
  shows "\<exists>crlf. findCRLF b = Inr (Some crlf) \<and> b' = retrieve b (2 + crlf - peek b)"
proof (cases "ctx_state c = kExpectRequestLine \<or> ctx_state c = kExpectHeaders")
  case True
  show ?thesis
  proof (cases "findCRLF b")
    case (Inr found)
    then obtain crlf where "found = Some crlf" using assms True
      by (cases found) (auto simp: parse_step_def)
    then show ?thesis using assms Inr True
      by (cases "read_range b (peek b) crlf")
        (auto simp: parse_step_def Let_def split: if_splits prod.splits)
  qed (use assms True in \<open>auto simp: parse_step_def\<close>)
next
  case False
  then show ?thesis using assms
    by (cases "ctx_state c") (auto simp: parse_step_def rbind_eq_Inr)
qed

lemma parse_step_shrinks:
  "parse_step c b ok = Inr (True, ok', c', b') \<Longrightarrow> readableBytes b' < readableBytes b"
  using parse_step_more findCRLF_room by blast

function parse_loop :: "http_context \<Rightarrow> buf \<Rightarrow> bool \<Rightarrow> (bool \<times> http_context \<times> buf) result" where
  "parse_loop c b ok =
     rbind (parse_step c b ok) (\<lambda>(hasMore, ok', c', b').
     if hasMore then parse_loop c' b' ok' else Inr (ok', c', b'))"
  by pat_completeness auto
termination
  by (relation "measure (\<lambda>(c, b, ok). readableBytes b)") (auto dest: parse_step_shrinks)

declare parse_loop.simps [simp del]

definition parseRequest :: "http_context \<Rightarrow> buf \<Rightarrow> timestamp \<Rightarrow> (bool \<times> http_context \<times> buf) result" where
  "parseRequest c b receiveTime = parse_loop c b True"

section \<open>The parser on strings\<close>

definition sp_body :: "http_context \<Rightarrow> string \<Rightarrow> (bool \<times> http_context \<times> string) result" where
  "sp_body c s =
     (let n = getHeader (httpRequest c) ''content-length'' in
      if isNum n
      then rbind (atoi_digits n) (\<lambda>len.
           if len < length s then Inr (True, c, s)
           else if len = length s
           then Inr (True, c\<lparr>httpRequest := setBody s (httpRequest c), ctx_state := kGotAll\<rparr>, [])
           else Inr (False, c, s))
      else Inr (False, c, s))"

definition sp_line :: "http_context \<Rightarrow> string \<Rightarrow> bool \<times> bool \<times> http_context" where
  "sp_line c line =
     (if ctx_state c = kExpectRequestLine
      then let (good, c') = parseRequestLine line c in
           (good, good, if good then c'\<lparr>ctx_state := kExpectHeaders\<rparr> else c')
      else if line = []
      then if req_method (httpRequest c) = kPost then (True, True, c\<lparr>ctx_state := kExpectBody\<rparr>)
           else (False, True, c\<lparr>ctx_state := kGotAll\<rparr>)
      else let colon = find_char CHR '':'' line in
           if colon \<noteq> length line
           then (True, True, c\<lparr>httpRequest :=
                  addHeader (take colon line) (drop (Suc colon) line) (httpRequest c)\<rparr>)
           else (False, False, c))"

text \<open>Line by line: \<open>sp_line\<close> says whether to go on and whether the line is well formed. A bad
  request line is not consumed.\<close>

function sp_parse :: "http_context \<Rightarrow> string \<Rightarrow> (bool \<times> http_context \<times> string) result" where
  "sp_parse c s =
     (if ctx_state c = kGotAll then Inr (True, c, s)
      else if ctx_state c = kExpectBody then sp_body c s
      else if crlf_pos s = length s then Inr (True, c, s)
      else let (more, ok, c') = sp_line c (take (crlf_pos s) s);
               rest = drop (crlf_pos s + 2) s in
           if more then sp_parse c' rest
           else Inr (ok, c', if ctx_state c = kExpectRequestLine then s else rest))"
  by pat_completeness auto
termination
proof (relation "measure (\<lambda>(c, s). length s)")
  fix c :: http_context and s x xa y xb ya rest
  assume "crlf_pos s \<noteq> length s" "rest = drop (crlf_pos s + 2) s"
  then show "((ya, rest), c, s) \<in> measure (\<lambda>(c, s). length s)" by (cases s) auto
qed simp

declare sp_parse.simps [simp del]

lemma body_refines:
  assumes "buf_ok b"
  shows "case sp_body c (content b) of
      Inl e \<Rightarrow> parseRequestBody c b = Inl e
    | Inr (ok, c', s) \<Rightarrow> \<exists>b'. parseRequestBody c b = Inr (ok, c', b') \<and> buf_ok b' \<and> content b' = s"
proof -
  let ?n = "getHeader (httpRequest c) ''content-length''"
  have read: "read_range b (peek b) (peek b + length (content b)) = Inr (content b)"
    using read_upto [OF assms, of "length (content b)"] by (simp add: peek_def)
  show ?thesis using read assms retrieveAll_ok [OF assms]
    by (cases "atoi_digits ?n") (auto simp: sp_body_def parseRequestBody_def Let_def)
qed

lemma step_refines:
  assumes ok: "buf_ok b" and state: "ctx_state c = kExpectRequestLine \<or> ctx_state c = kExpectHeaders"
  shows "if crlf_pos (content b) = length (content b) then parse_step c b True = Inr (False, True, c, b)
    else let (more, ok, c') = sp_line c (take (crlf_pos (content b)) (content b)) in
      parse_step c b True = Inr (more, ok, c',
        if \<not> more \<and> ctx_state c = kExpectRequestLine then b else retrieve b (crlf_pos (content b) + 2))"
proof (cases "crlf_pos (content b) = length (content b)")
  case True
  then show ?thesis using state by (auto simp: parse_step_def findCRLF_ok [OF ok])
next
  case False
  let ?k = "crlf_pos (content b)"
  have k: "?k \<le> length (content b)" by (rule find_sub2_le)
  have found: "findCRLF b = Inr (Some (readIndex b + ?k))" using False by (simp add: findCRLF_ok [OF ok])
  have line: "read_range b (readIndex b) (readIndex b + ?k) = Inr (take ?k (content b))"
    by (rule read_upto [OF ok k])
  have empty: "take ?k (content b) = [] \<longleftrightarrow> ?k = 0" using k False by auto
  show ?thesis
  proof (cases "ctx_state c = kExpectRequestLine")
    case True
    then show ?thesis using False found line
      by (auto simp: parse_step_def sp_line_def peek_def Let_def split: prod.splits)
  next
    case hdr: False
    then have "ctx_state c = kExpectHeaders" using state by simp
    then show ?thesis using False found line empty
      by (auto simp: parse_step_def sp_line_def peek_def Let_def numeral_2_eq_2 split: if_splits
          simp del: find_char_eq_length)
  qed
qed

text \<open>\<open>waiting\<close>: the parser has consumed all complete lines and waits for more of the head.\<close>

definition waiting :: "http_context \<Rightarrow> bool" where
  "waiting c \<longleftrightarrow> ctx_state c = kExpectRequestLine \<or> ctx_state c = kExpectHeaders"

lemma sp_parse_more:
  assumes "waiting c" and "crlf_pos s \<noteq> length s" and "sp_line c (take (crlf_pos s) s) = (True, good, c')"
  shows "sp_parse c s = sp_parse c' (drop (crlf_pos s + 2) s)"
  using assms by (subst sp_parse.simps) (auto simp: waiting_def)

lemma sp_parse_stop:
  assumes "waiting c" and "crlf_pos s \<noteq> length s" and "sp_line c (take (crlf_pos s) s) = (False, good, c')"
  shows "sp_parse c s =
    Inr (good, c', if ctx_state c = kExpectRequestLine then s else drop (crlf_pos s + 2) s)"
  using assms by (subst sp_parse.simps) (auto simp: waiting_def)

lemma sp_line_good: "sp_line c line = (True, good, c') \<Longrightarrow> good"
  by (auto simp: sp_line_def Let_def split: if_splits prod.splits)

lemma loop_refines:
  "buf_ok b \<Longrightarrow> case sp_parse c (content b) of
      Inl e \<Rightarrow> parse_loop c b True = Inl e
    | Inr (ok, c', s) \<Rightarrow> \<exists>b'. parse_loop c b True = Inr (ok, c', b') \<and> buf_ok b' \<and> content b' = s"
proof (induction c "content b" arbitrary: b rule: sp_parse.induct)
  case (1 c b)
  note ok = "1.prems"
  consider "ctx_state c = kGotAll" | "ctx_state c = kExpectBody"
    | (line) "ctx_state c = kExpectRequestLine \<or> ctx_state c = kExpectHeaders"
    by (cases "ctx_state c") auto
  then show ?case
  proof cases
    case 1
    then show ?thesis using ok
      by (subst sp_parse.simps, subst parse_loop.simps) (simp add: parse_step_def)
  next
    case 2
    have "parse_loop c b True = rbind (parseRequestBody c b) (\<lambda>(ok', c', b'). Inr (ok', c', b'))"
      by (subst parse_loop.simps) (auto simp: parse_step_def 2 rbind_assoc split_def)
    then have "parse_loop c b True = parseRequestBody c b"
      by (cases "parseRequestBody c b") auto
    moreover have "sp_parse c (content b) = sp_body c (content b)" using 2 by (simp add: sp_parse.simps)
    ultimately show ?thesis using body_refines [OF ok, of c] by (simp only:)
  next
    case line
    then have st: "ctx_state c \<noteq> kGotAll" "ctx_state c \<noteq> kExpectBody" by auto
    note step = step_refines [OF ok line]
    let ?k = "crlf_pos (content b)"
    show ?thesis
    proof (cases "?k = length (content b)")
      case True
      then show ?thesis using st step ok
        by (subst sp_parse.simps, subst parse_loop.simps) simp
    next
      case False
      obtain more good c' where l: "sp_line c (take ?k (content b)) = (more, good, c')"
        by (metis prod_cases3)
      note r = buf_ok_retrieve [OF ok, of "?k + 2"] content_retrieve [OF ok, of "?k + 2"]
      show ?thesis
      proof (cases more)
        case True
        note IH = "1.hyps" [OF st False l [symmetric] refl refl r(2) True r(1)]
        have good using l True sp_line_good by simp
        then have step': "parse_step c b True = Inr (True, True, c', retrieve b (?k + 2))"
          using step False l True by simp
        have pl: "parse_loop c b True = parse_loop c' (retrieve b (?k + 2)) True"
          by (subst parse_loop.simps) (simp only: step' rbind.simps prod.case if_True)
        have "sp_parse c (content b) = sp_parse c' (drop (?k + 2) (content b))"
          using line False l True by (intro sp_parse_more) (auto simp: waiting_def)
        with pl IH show ?thesis by (simp only: r(2))
      next
        case stop: False
        then show ?thesis using False st step l r ok
          by (subst sp_parse.simps, subst parse_loop.simps) auto
      qed
    qed
  qed
qed

text \<open>C5: On every well-formed buffer \<open>parseRequest\<close> does what the parser on strings does on the
  readable bytes, with the same verdict, the same context and the same bytes left, and leaves a
  well-formed buffer; in particular it returns, and never reads outside the buffer.\<close>

theorem parseRequest_refines:
  assumes "buf_ok b"
  shows "case sp_parse c (content b) of
      Inl e \<Rightarrow> parseRequest c b t = Inl e
    | Inr (ok, c', s) \<Rightarrow> \<exists>b'. parseRequest c b t = Inr (ok, c', b') \<and> buf_ok b' \<and> content b' = s"
  unfolding parseRequest_def by (rule loop_refines [OF assms])

section \<open>Input in pieces\<close>

lemma crlf_pos_append:
  assumes "crlf_pos s \<noteq> length s"
  shows "crlf_pos (s @ t) = crlf_pos s" "take (crlf_pos s) (s @ t) = take (crlf_pos s) s"
    "drop (crlf_pos s + 2) (s @ t) = drop (crlf_pos s + 2) s @ t"
    "crlf_pos (s @ t) \<noteq> length (s @ t)"
proof -
  have k: "crlf_pos s + 2 \<le> length s" by (rule find_sub2_found [OF assms])
  show eq: "crlf_pos (s @ t) = crlf_pos s" by (rule find_sub2_append [OF assms])
  show "take (crlf_pos s) (s @ t) = take (crlf_pos s) s"
    "drop (crlf_pos s + 2) (s @ t) = drop (crlf_pos s + 2) s @ t"
    "crlf_pos (s @ t) \<noteq> length (s @ t)" using k eq by simp_all
qed

lemma sp_parse_pieces:
  "sp_parse c s = Inr (True, c1, s1) \<Longrightarrow> waiting c1 \<Longrightarrow> sp_parse c (s @ t) = sp_parse c1 (s1 @ t)"
proof (induction c s rule: sp_parse.induct)
  case (1 c s)
  show ?case
  proof (cases "ctx_state c = kGotAll \<or> ctx_state c = kExpectBody")
    case True
    then have "\<not> waiting c1" using "1.prems"(1)
      by (auto simp: sp_parse.simps [of c s] sp_body_def waiting_def Let_def rbind_eq_Inr split: if_splits)
    with "1.prems"(2) show ?thesis by simp
  next
    case False
    show ?thesis
    proof (cases "crlf_pos s = length s")
      case True
      then show ?thesis using False "1.prems"(1) by (simp add: sp_parse.simps [of c s])
    next
      case found: False
      obtain more good c' where l: "sp_line c (take (crlf_pos s) s) = (more, good, c')"
        by (metis prod_cases3)
      note app = crlf_pos_append [OF found, of t]
      show ?thesis
      proof (cases more)
        case True
        have run: "sp_parse c' (drop (crlf_pos s + 2) s) = Inr (True, c1, s1)"
          using "1.prems"(1) False found l True by (simp add: sp_parse.simps [of c s])
        have "waiting c" using False by (cases "ctx_state c") (auto simp: waiting_def)
        moreover have "sp_line c (take (crlf_pos (s @ t)) (s @ t)) = (True, good, c')"
          unfolding app(1,2) using l True by simp
        ultimately have "sp_parse c (s @ t) = sp_parse c' (drop (crlf_pos (s @ t) + 2) (s @ t))"
          by (intro sp_parse_more) (use app(4) in simp_all)
        then have "sp_parse c (s @ t) = sp_parse c' (drop (crlf_pos s + 2) s @ t)"
          unfolding app(1,3) .
        then show ?thesis using "1.IH" [OF _ _ found l [symmetric] refl refl refl True run "1.prems"(2)] False by simp
      next
        case stop: False
        then have "good" "c1 = c'" using "1.prems"(1) False found l
          by (auto simp: sp_parse.simps [of c s])
        then have "\<not> waiting c1" using l stop
          by (auto simp: sp_line_def waiting_def Let_def split: if_splits prod.splits)
        with "1.prems"(2) show ?thesis by simp
      qed
    qed
  qed
qed

definition visible :: "(bool \<times> http_context \<times> buf) result \<Rightarrow> (bool \<times> http_context \<times> string) result" where
  "visible r = rbind r (\<lambda>(ok, c, b). Inr (ok, c, content b))"

lemma visible_parse:
  assumes "buf_ok b"
  shows "visible (parseRequest c b t) = sp_parse c (content b)"
  using loop_refines [OF assms, of c] by (cases "sp_parse c (content b)")
    (auto simp: visible_def parseRequest_def)

lemma visible_Inr: "visible r = Inr (ok, c, s) \<longleftrightarrow> (\<exists>b. r = Inr (ok, c, b) \<and> content b = s)"
  by (auto simp: visible_def rbind_eq_Inr)

text \<open>C9: The head of a request may arrive in any number of pieces: when the parser has taken a first
  piece and waits for more of the head, parsing what is left with the next piece behind it gives
  the verdict, the context and the remaining bytes of parsing all of it at once.\<close>

theorem parse_in_pieces:
  assumes "buf_ok b" "buf_ok b2" "buf_ok whole"
    and "parseRequest c b t = Inr (True, c1, b1)" and "waiting c1"
    and "content b2 = content b1 @ piece" and "content whole = content b @ piece"
  shows "visible (parseRequest c1 b2 t2) = visible (parseRequest c whole t3)"
proof -
  have "sp_parse c (content b) = Inr (True, c1, content b1)"
    using visible_parse [OF assms(1), of c t] assms(4) by (simp add: visible_def)
  from sp_parse_pieces [OF this assms(5), of piece] show ?thesis
    using assms by (simp add: visible_parse)
qed

section \<open>Rendered requests\<close>

text \<open>
  \<open>render_head\<close>: a request line for method \<open>m\<close>, target and version, and header lines. The target
  is a path and possibly a query behind a question mark.
\<close>

definition render_headers :: "(string \<times> string) list \<Rightarrow> string" where
  "render_headers hs = concat (map (\<lambda>(k, v). k @ '':'' @ v @ kCRLF) hs)"

definition render_target :: "string \<Rightarrow> string option \<Rightarrow> string" where
  "render_target path query = path @ (case query of None \<Rightarrow> [] | Some q \<Rightarrow> ''?'' @ q)"

definition render_version :: "version \<Rightarrow> string" where
  "render_version v = (if v = kHttp10 then ''HTTP/1.0'' else ''HTTP/1.1'')"

definition render_head :: "string \<Rightarrow> string \<Rightarrow> string option \<Rightarrow> version \<Rightarrow> (string \<times> string) list \<Rightarrow> string" where
  "render_head m path query v hs =
     m @ '' '' @ render_target path query @ '' '' @ render_version v @ kCRLF @ render_headers hs @ kCRLF"

definition headers_ok :: "(string \<times> string) list \<Rightarrow> bool" where
  "headers_ok hs \<longleftrightarrow>
     (\<forall>(k, v) \<in> set hs. CHR '':'' \<notin> set k \<and> CHR 0x0D \<notin> set k \<and> CHR 0x0D \<notin> set v)"

definition head_ok :: "string \<Rightarrow> string \<Rightarrow> string option \<Rightarrow> version \<Rightarrow> (string \<times> string) list \<Rightarrow> bool" where
  "head_ok m path query v hs \<longleftrightarrow> m \<in> set kMethodStrings \<and> v \<noteq> kUnkown \<and>
     CHR ''?'' \<notin> set path \<and>
     CHR '' '' \<notin> set (render_target path query) \<and> CHR 0x0D \<notin> set (render_target path query) \<and>
     headers_ok hs"

text \<open>The request the parser should build from it.\<close>

definition parsed_head :: "string \<Rightarrow> string \<Rightarrow> string option \<Rightarrow> version \<Rightarrow> (string \<times> string) list \<Rightarrow>
    http_request \<Rightarrow> http_request" where
  "parsed_head m path query v hs r =
     fold (\<lambda>(k, v). addHeader k v) hs
       (setVersion v ((case query of None \<Rightarrow> id | Some q \<Rightarrow> setQuery q)
         (setPath path (snd (setMethod m r)))))"

lemma crlf_line:
  assumes "CHR 0x0D \<notin> set line"
  shows "crlf_pos (line @ kCRLF @ rest) = length line"
    "take (crlf_pos (line @ kCRLF @ rest)) (line @ kCRLF @ rest) = line"
    "drop (crlf_pos (line @ kCRLF @ rest) + 2) (line @ kCRLF @ rest) = rest"
    "crlf_pos (line @ kCRLF @ rest) \<noteq> length (line @ kCRLF @ rest)"
  using find_sub2_at [OF assms, of "CHR 0x0A" rest] by (simp_all add: kCRLF_def)

lemma parse_line:
  assumes "waiting c" and "CHR 0x0D \<notin> set line" and "sp_line c line = (True, good, c')"
  shows "sp_parse c (line @ kCRLF @ rest) = sp_parse c' rest"
  using sp_parse_more [OF assms(1) crlf_line(4) [OF assms(2)], of rest good c'] crlf_line [OF assms(2)] assms(3)
  by simp

lemma parse_headers:
  assumes "ctx_state c = kExpectHeaders"
    and "headers_ok hs"
  shows "sp_parse c (render_headers hs @ rest) =
    sp_parse (c\<lparr>httpRequest := fold (\<lambda>(k, v). addHeader k v) hs (httpRequest c)\<rparr>) rest"
  using assms
proof (induction hs arbitrary: c)
  case (Cons kv hs)
  obtain k v where kv: "kv = (k, v)" by (cases kv)
  let ?c = "c\<lparr>httpRequest := addHeader k v (httpRequest c)\<rparr>"
  have ok: "CHR '':'' \<notin> set k" "CHR 0x0D \<notin> set (k @ '':'' @ v)" using Cons.prems(2) kv
    by (auto simp: headers_ok_def)
  have "sp_line c (k @ '':'' @ v) = (True, True, ?c)"
    using Cons.prems(1) ok(1) by (simp add: sp_line_def find_char_append)
  from parse_line [OF _ ok(2) this] Cons.prems(1)
  have "sp_parse c ((k @ '':'' @ v) @ kCRLF @ render_headers hs @ rest) = sp_parse ?c (render_headers hs @ rest)"
    by (simp add: waiting_def)
  also have "\<dots> = sp_parse (?c\<lparr>httpRequest := fold (\<lambda>(k, v). addHeader k v) hs (httpRequest ?c)\<rparr>) rest"
    by (rule Cons.IH) (use Cons.prems in \<open>auto simp: headers_ok_def\<close>)
  finally show ?case by (simp add: render_headers_def kv)
qed (simp add: render_headers_def)

lemma set_target_render:
  assumes "CHR ''?'' \<notin> set path"
  shows "set_target (render_target path query) r =
    (case query of None \<Rightarrow> id | Some q \<Rightarrow> setQuery q) (setPath path r)"
  using assms by (cases query) (simp_all add: set_target_def render_target_def Let_def)

lemma parse_version_render:
  assumes "v \<noteq> kUnkown"
  shows "parse_version (render_version v) r = (True, setVersion v r)"
  using assms by (cases v) (simp_all add: parse_version_def render_version_def)

lemma setMethod_known: "m \<in> set kMethodStrings \<Longrightarrow> setMethod m r = (True, snd (setMethod m r))"
  by (metis prod.collapse setMethod_fst)

lemma request_line:
  assumes "head_ok m path query v hs"
  shows "parseRequestLine (m @ '' '' @ render_target path query @ '' '' @ render_version v) c =
    (True, c\<lparr>httpRequest := setVersion v ((case query of None \<Rightarrow> id | Some q \<Rightarrow> setQuery q)
       (setPath path (snd (setMethod m (httpRequest c)))))\<rparr>)"
proof -
  have m: "m \<in> set kMethodStrings" and v: "v \<noteq> kUnkown" and p: "CHR ''?'' \<notin> set path"
    and t: "CHR '' '' \<notin> set (render_target path query)" using assms by (auto simp: head_ok_def)
  have sp: "CHR '' '' \<notin> set m" using m by (auto simp: kMethodStrings_def)
  have line: "m @ '' '' @ x = m @ CHR '' '' # x" for x by simp
  show ?thesis unfolding line
    using sp t setMethod_known [OF m] parse_version_render [OF v] set_target_render [OF p]
    by (simp add: parseRequestLine_def Let_def split_def setMethod_fst m)
qed

lemma head_okD:
  assumes "head_ok m path query v hs"
  shows "m \<in> set kMethodStrings" "v \<noteq> kUnkown" "CHR 0x0D \<notin> set (render_target path query)"
    "headers_ok hs"
  using assms by (simp_all add: head_ok_def)

lemma render_version_cr: "CHR 0x0D \<notin> set (render_version v)"
  by (simp add: render_version_def)

lemma method_cr: "m \<in> set kMethodStrings \<Longrightarrow> CHR 0x0D \<notin> set m"
  by (auto simp: kMethodStrings_def)

lemma parse_head:
  assumes "head_ok m path query v hs" and "ctx_state c = kExpectRequestLine"
  shows "sp_parse c (render_head m path query v hs @ rest) =
    sp_parse (c\<lparr>ctx_state := kExpectHeaders, httpRequest := parsed_head m path query v hs (httpRequest c)\<rparr>)
      (kCRLF @ rest)"
proof -
  let ?line = "m @ '' '' @ render_target path query @ '' '' @ render_version v"
  let ?r = "setVersion v ((case query of None \<Rightarrow> id | Some q \<Rightarrow> setQuery q)
       (setPath path (snd (setMethod m (httpRequest c)))))"
  have cr: "CHR 0x0D \<notin> set ?line"
    using head_okD [OF assms(1)] by (simp add: method_cr render_version_cr)
  have "sp_line c ?line = (True, True, c\<lparr>httpRequest := ?r, ctx_state := kExpectHeaders\<rparr>)"
    using request_line [OF assms(1), of c] assms(2) by (simp add: sp_line_def)
  from parse_line [OF _ cr this, of "render_headers hs @ kCRLF @ rest"] assms(2)
  have "sp_parse c (render_head m path query v hs @ rest) =
      sp_parse (c\<lparr>httpRequest := ?r, ctx_state := kExpectHeaders\<rparr>) (render_headers hs @ kCRLF @ rest)"
    by (simp add: waiting_def render_head_def)
  also have "\<dots> = sp_parse (c\<lparr>ctx_state := kExpectHeaders,
      httpRequest := parsed_head m path query v hs (httpRequest c)\<rparr>) (kCRLF @ rest)"
    using parse_headers [of "c\<lparr>httpRequest := ?r, ctx_state := kExpectHeaders\<rparr>" hs "kCRLF @ rest"] head_okD(4) [OF assms(1)]
    by (simp add: parsed_head_def)
  finally show ?thesis .
qed

lemma fold_addHeader_method [simp]:
  "req_method (fold (\<lambda>(k, v). addHeader k v) hs r) = req_method r"
  "req_path (fold (\<lambda>(k, v). addHeader k v) hs r) = req_path r"
  "req_query (fold (\<lambda>(k, v). addHeader k v) hs r) = req_query r"
  "req_version (fold (\<lambda>(k, v). addHeader k v) hs r) = req_version r"
  "req_body (fold (\<lambda>(k, v). addHeader k v) hs r) = req_body r"
  by (induction hs arbitrary: r) auto

lemma fold_addHeader_header:
  "req_header (fold (\<lambda>(k, v). addHeader k v) hs r) =
     fold (\<lambda>(k, v). smap_put (map tolower (trim k)) (map tolower (trim v))) hs (req_header r)"
  by (induction hs arbitrary: r) (auto simp: addHeader_def)

lemma setMethod_is_post: "m \<in> set kMethodStrings \<Longrightarrow> req_method (snd (setMethod m r)) = kPost \<longleftrightarrow> m = ''POST''"
  by (auto simp: kMethodStrings_def)

lemma parsed_head_fields:
  assumes "head_ok m path query v hs"
  shows "req_path (parsed_head m path query v hs r) = path"
    "req_query (parsed_head m path query v hs r) = (case query of None \<Rightarrow> req_query r | Some q \<Rightarrow> q)"
    "req_version (parsed_head m path query v hs r) = v"
    "methodString (parsed_head m path query v hs r) = m"
    "req_method (parsed_head m path query v hs r) = kPost \<longleftrightarrow> m = ''POST''"
    "req_body (parsed_head m path query v hs r) = req_body r"
proof -
  have m: "m \<in> set kMethodStrings" by (rule head_okD(1) [OF assms])
  then have ms: "methodString (snd (setMethod m r)) = m"
    by (auto simp: kMethodStrings_def methodString_def)
  show "req_path (parsed_head m path query v hs r) = path"
    "req_query (parsed_head m path query v hs r) = (case query of None \<Rightarrow> req_query r | Some q \<Rightarrow> q)"
    "req_version (parsed_head m path query v hs r) = v"
    "req_body (parsed_head m path query v hs r) = req_body r"
    by (simp_all add: parsed_head_def setVersion_def setPath_def setQuery_def setMethod_def split: option.splits)
  have meth: "req_method (parsed_head m path query v hs r) = req_method (snd (setMethod m r))"
    by (simp add: parsed_head_def setVersion_def setPath_def setQuery_def split: option.splits)
  then show "methodString (parsed_head m path query v hs r) = m" using ms by (simp add: methodString_def)
  show "req_method (parsed_head m path query v hs r) = kPost \<longleftrightarrow> m = ''POST''"
    unfolding meth by (rule setMethod_is_post [OF m])
qed

lemma parse_blank:
  assumes "ctx_state c = kExpectHeaders"
  shows "sp_parse c (kCRLF @ rest) =
    (if req_method (httpRequest c) = kPost then sp_body (c\<lparr>ctx_state := kExpectBody\<rparr>) rest
     else Inr (True, c\<lparr>ctx_state := kGotAll\<rparr>, rest))"
proof -
  have cr: "CHR 0x0D \<notin> set []" by simp
  note crlf = crlf_line [OF cr, of rest, unfolded append_Nil]
  show ?thesis
  proof (cases "req_method (httpRequest c) = kPost")
    case True
    then have "sp_line c [] = (True, True, c\<lparr>ctx_state := kExpectBody\<rparr>)"
      using assms by (simp add: sp_line_def)
    from parse_line [OF _ cr this, of rest] assms True show ?thesis
      by (simp add: waiting_def sp_parse.simps [of "c\<lparr>ctx_state := kExpectBody\<rparr>"])
  next
    case False
    then have l: "sp_line c (take (crlf_pos (kCRLF @ rest)) (kCRLF @ rest)) =
        (False, True, c\<lparr>ctx_state := kGotAll\<rparr>)"
      using assms crlf(2) by (simp add: sp_line_def)
    have "waiting c" using assms by (simp add: waiting_def)
    from sp_parse_stop [OF this crlf(4) l] crlf(3) False assms show ?thesis by simp
  qed
qed

text \<open>A buffer that holds the given bytes.\<close>

definition buf_of :: "string \<Rightarrow> buf" where
  "buf_of s = \<lparr>store = replicate kCheapPrepend NUL @ s, readIndex = kCheapPrepend,
     writeIndex = kCheapPrepend + length s\<rparr>"

lemma buf_of_ok: "length s < 2 ^ 62 \<Longrightarrow> buf_ok (buf_of s)"
  by (simp add: buf_ok_def buf_of_def kCheapPrepend_def vec_max_size_def)

lemma content_buf_of [simp]: "content (buf_of s) = s"
  by (simp add: content_def buf_of_def)

text \<open>C10: A rendered request without a body is parsed back: for every method the server knows but POST,
  every path, query, version and list of headers, the parser gets the whole request, with these
  parts, consumes exactly its bytes and leaves the bytes of the next request in the buffer.\<close>

theorem parse_rendered_request:
  assumes "head_ok m path query v hs" and "m \<noteq> ''POST''" and "ctx_state c = kExpectRequestLine"
    and "buf_ok b" and "content b = render_head m path query v hs @ rest"
  shows "\<exists>r. visible (parseRequest c b t) = Inr (True, \<lparr>httpRequest = r, ctx_state = kGotAll\<rparr>, rest) \<and>
    methodString r = m \<and> req_path r = path \<and>
    req_query r = (case query of None \<Rightarrow> req_query (httpRequest c) | Some q \<Rightarrow> q) \<and> req_version r = v \<and>
    req_header r = req_header (fold (\<lambda>(k, v). addHeader k v) hs (httpRequest c))"
proof -
  let ?r = "parsed_head m path query v hs (httpRequest c)"
  have "req_header ?r = req_header (fold (\<lambda>(k, v). addHeader k v) hs (httpRequest c))"
    unfolding parsed_head_def fold_addHeader_header
    by (simp add: setVersion_def setPath_def setQuery_def setMethod_def split: option.splits)
  moreover have "sp_parse c (content b) = Inr (True, \<lparr>httpRequest = ?r, ctx_state = kGotAll\<rparr>, rest)"
    unfolding assms(5) parse_head [OF assms(1,3)]
    by (subst parse_blank) (simp_all add: parsed_head_fields [OF assms(1)] assms(2))
  ultimately show ?thesis using visible_parse [OF assms(4), of c t] parsed_head_fields [OF assms(1)]
    by (intro exI [of _ ?r]) simp
qed

lemma parse_rendered_request_witness:
  "\<exists>r. visible (parseRequest HttpContext_init
      (buf_of (render_head ''GET'' ''/index.html'' (Some ''a=1'') kHttp11 [(''Host'', '' Example.org'')] @ ''GET /next''))
      0) = Inr (True, \<lparr>httpRequest = r, ctx_state = kGotAll\<rparr>, ''GET /next'') \<and>
    methodString r = ''GET'' \<and> req_path r = ''/index.html'' \<and> req_query r = ''a=1'' \<and> req_version r = kHttp11"
proof -
  let ?s = "render_head ''GET'' ''/index.html'' (Some ''a=1'') kHttp11 [(''Host'', '' Example.org'')] @ ''GET /next''"
  have h: "head_ok ''GET'' ''/index.html'' (Some ''a=1'') kHttp11 [(''Host'', '' Example.org'')]" by code_simp
  have st: "ctx_state HttpContext_init = kExpectRequestLine" by (simp add: HttpContext_init_def)
  have "length ?s < 1000" by code_simp
  then have "buf_ok (buf_of ?s)" by (intro buf_of_ok) simp
  from parse_rendered_request [OF h _ st this, of "''GET /next''" 0] show ?thesis by auto
qed

lemma isNum_show [simp]: "isNum (show_nat n)"
  by (auto simp: isNum_def list_all_iff show_nat_digits)

lemma atoi_show [simp]: "n < 2 ^ 31 \<Longrightarrow> atoi_digits (show_nat n) = Inr n"
  by (simp add: atoi_digits_def)

text \<open>A rendered POST request whose body is announced in a content-length header, and is in the buffer
  with its head, is parsed back with exactly this body; nothing is left in the buffer.\<close>

theorem parse_rendered_post:
  assumes "head_ok ''POST'' path query v hs" and "ctx_state c = kExpectRequestLine"
    and "getHeader (parsed_head ''POST'' path query v hs (httpRequest c)) ''content-length'' = show_nat (length body)"
    and "length body < 2 ^ 31"
    and "buf_ok b" and "content b = render_head ''POST'' path query v hs @ body"
  shows "visible (parseRequest c b t) = Inr (True, \<lparr>httpRequest =
      (parsed_head ''POST'' path query v hs (httpRequest c))\<lparr>req_body := body\<rparr>, ctx_state = kGotAll\<rparr>, [])"
proof -
  let ?r = "parsed_head ''POST'' path query v hs (httpRequest c)"
  have "sp_parse c (content b) = Inr (True, \<lparr>httpRequest = ?r\<lparr>req_body := body\<rparr>, ctx_state = kGotAll\<rparr>, [])"
    unfolding assms(6) parse_head [OF assms(1,2)]
    by (subst parse_blank)
      (simp_all add: parsed_head_fields [OF assms(1)] sp_body_def Let_def assms(3) atoi_show [OF assms(4)] setBody_def)
  then show ?thesis using visible_parse [OF assms(5), of c t] by simp
qed

lemma parse_rendered_post_witness:
  "\<exists>r. visible (parseRequest HttpContext_init
      (buf_of (render_head ''POST'' ''/login'' None kHttp10 [(''Content-Length'', ''7'')] @ ''u=1&p=2'')) 0)
    = Inr (True, \<lparr>httpRequest = r, ctx_state = kGotAll\<rparr>, []) \<and> req_body r = ''u=1&p=2''"
proof -
  let ?s = "render_head ''POST'' ''/login'' None kHttp10 [(''Content-Length'', ''7'')] @ ''u=1&p=2''"
  have h: "head_ok ''POST'' ''/login'' None kHttp10 [(''Content-Length'', ''7'')]" by code_simp
  have st: "ctx_state HttpContext_init = kExpectRequestLine" by (simp add: HttpContext_init_def)
  have len: "getHeader (parsed_head ''POST'' ''/login'' None kHttp10 [(''Content-Length'', ''7'')]
      (httpRequest HttpContext_init)) ''content-length'' = show_nat (length ''u=1&p=2'')" by code_simp
  have "length ?s < 1000" by code_simp
  then have ok: "buf_ok (buf_of ?s)" by (intro buf_of_ok) simp
  have "length ''u=1&p=2'' < 2 ^ 31" by simp
  from parse_rendered_post [OF h st len this ok content_buf_of, of 0] show ?thesis by simp
qed

section \<open>Bodies that are not delivered exactly\<close>

lemma ctx_updates:
  "c\<lparr>httpRequest := r, ctx_state := p\<rparr> = \<lparr>httpRequest = r, ctx_state = p\<rparr>" for c :: http_context
  by simp

lemma post_head_body:
  assumes "head_ok ''POST'' path query v hs" and "ctx_state c = kExpectRequestLine"
  shows "sp_parse c (render_head ''POST'' path query v hs @ rest) =
    sp_body \<lparr>httpRequest = parsed_head ''POST'' path query v hs (httpRequest c), ctx_state = kExpectBody\<rparr> rest"
  unfolding parse_head [OF assms]
  by (subst parse_blank) (simp_all add: parsed_head_fields [OF assms(1)] ctx_updates)

text \<open>A POST request is refused unless its whole body has arrived with its head: when only a part of
  the announced body is in the buffer, \<open>parseRequest\<close> reports an error (on which \<open>HttpServer\<close> shuts
  the connection down), whatever arrives later.\<close>

theorem split_body_rejected:
  assumes "head_ok ''POST'' path query v hs" and "ctx_state c = kExpectRequestLine"
    and "getHeader (parsed_head ''POST'' path query v hs (httpRequest c)) ''content-length'' = show_nat n"
    and "n < 2 ^ 31" and "length part < n"
    and "buf_ok b" and "content b = render_head ''POST'' path query v hs @ part"
  shows "\<exists>c'. visible (parseRequest c b t) = Inr (False, c', part) \<and> ctx_state c' = kExpectBody"
proof -
  have "sp_parse c (content b) = Inr (False, \<lparr>httpRequest =
      parsed_head ''POST'' path query v hs (httpRequest c), ctx_state = kExpectBody\<rparr>, part)"
    unfolding assms(7) post_head_body [OF assms(1,2)]
    using assms(5) by (simp add: sp_body_def Let_def assms(3) atoi_show [OF assms(4)])
  then show ?thesis using visible_parse [OF assms(6), of c t] by simp
qed

lemma split_body_rejected_witness:
  "\<exists>c'. visible (parseRequest HttpContext_init
      (buf_of (render_head ''POST'' ''/login'' None kHttp11 [(''Content-Length'', ''7'')] @ ''u=1'')) 0)
    = Inr (False, c', ''u=1'') \<and> ctx_state c' = kExpectBody"
proof -
  let ?s = "render_head ''POST'' ''/login'' None kHttp11 [(''Content-Length'', ''7'')] @ ''u=1''"
  have h: "head_ok ''POST'' ''/login'' None kHttp11 [(''Content-Length'', ''7'')]" by code_simp
  have st: "ctx_state HttpContext_init = kExpectRequestLine" by (simp add: HttpContext_init_def)
  have len: "getHeader (parsed_head ''POST'' ''/login'' None kHttp11 [(''Content-Length'', ''7'')]
      (httpRequest HttpContext_init)) ''content-length'' = show_nat 7" by code_simp
  have "length ?s < 1000" by code_simp
  then have ok: "buf_ok (buf_of ?s)" by (intro buf_of_ok) simp
  show ?thesis by (rule split_body_rejected [OF h st len _ _ ok content_buf_of]) simp_all
qed

text \<open>A POST request with bytes behind its body in the buffer is never completed: \<open>parseRequest\<close>
  reports no error, consumes nothing, and neither the same call again nor any later one, with any
  number of bytes more, gets it out of the state in which it waits for the body.\<close>

theorem excess_body_stuck:
  assumes "ctx_state c = kExpectBody" and "getHeader (httpRequest c) ''content-length'' = show_nat n"
    and "n < 2 ^ 31" and "buf_ok b" and "content b = body @ later" and "n < length body"
  shows "visible (parseRequest c b t) = Inr (True, c, body @ later) \<and> \<not> gotAll c"
proof -
  have "sp_parse c (content b) = Inr (True, c, body @ later)"
    unfolding assms(5) using assms(6)
    by (subst sp_parse.simps) (simp add: assms(1) sp_body_def Let_def assms(2) atoi_show [OF assms(3)])
  then show ?thesis using visible_parse [OF assms(4), of c t] assms(1) by (simp add: gotAll_def)
qed

lemma excess_body_stuck_witness:
  "let c = \<lparr>httpRequest = addHeader ''Content-Length'' ''3'' (HttpRequest_init\<lparr>req_method := kPost\<rparr>),
      ctx_state = kExpectBody\<rparr>
   in visible (parseRequest c (buf_of ''a=1GET / HTTP/1.1'') 0) = Inr (True, c, ''a=1GET / HTTP/1.1'') \<and> \<not> gotAll c"
proof -
  let ?c = "\<lparr>httpRequest = addHeader ''Content-Length'' ''3'' (HttpRequest_init\<lparr>req_method := kPost\<rparr>),
      ctx_state = kExpectBody\<rparr>"
  have st: "ctx_state ?c = kExpectBody" by simp
  have len: "getHeader (httpRequest ?c) ''content-length'' = show_nat 3" by code_simp
  have ok: "buf_ok (buf_of ''a=1GET / HTTP/1.1'')" by (intro buf_of_ok) simp
  have split: "content (buf_of ''a=1GET / HTTP/1.1'') = ''a=1GET'' @ '' / HTTP/1.1''" by simp
  from excess_body_stuck [OF st len _ ok split, of 0] show ?thesis by (simp add: Let_def)
qed

text \<open>\<open>reset\<close> keeps the body: after a request with a body, a following request without one on the
  same connection is delivered with the body of the former, since \<open>HttpRequest::swap\<close> leaves
  \<open>body_\<close> out.\<close>

theorem reset_keeps_body:
  assumes "head_ok m path query v hs" and "m \<noteq> ''POST''"
    and "buf_ok b" and "content b = render_head m path query v hs"
  shows "\<exists>r. visible (parseRequest (ctx_reset c) b t) = Inr (True, \<lparr>httpRequest = r, ctx_state = kGotAll\<rparr>, []) \<and>
    req_path r = path \<and> req_body r = req_body (httpRequest c)"
proof -
  let ?c = "ctx_reset c"
  let ?r = "parsed_head m path query v hs (httpRequest ?c)"
  have st: "ctx_state ?c = kExpectRequestLine" and body: "req_body (httpRequest ?c) = req_body (httpRequest c)"
    by (simp_all add: ctx_reset_def request_swap_def)
  have "sp_parse ?c (render_head m path query v hs @ []) = Inr (True, \<lparr>httpRequest = ?r, ctx_state = kGotAll\<rparr>, [])"
    unfolding parse_head [OF assms(1) st]
    by (subst parse_blank) (simp_all add: parsed_head_fields [OF assms(1)] assms(2))
  then have "visible (parseRequest ?c b t) = Inr (True, \<lparr>httpRequest = ?r, ctx_state = kGotAll\<rparr>, [])"
    using visible_parse [OF assms(3), of ?c t] assms(4) by simp
  then show ?thesis using parsed_head_fields [OF assms(1)] body by (intro exI [of _ ?r]) simp
qed

lemma reset_keeps_body_witness:
  "\<exists>r. visible (parseRequest (ctx_reset \<lparr>httpRequest = setBody ''secret'' HttpRequest_init, ctx_state = kGotAll\<rparr>)
      (buf_of (render_head ''GET'' ''/'' None kHttp11 [])) 0)
    = Inr (True, \<lparr>httpRequest = r, ctx_state = kGotAll\<rparr>, []) \<and> req_path r = ''/'' \<and> req_body r = ''secret''"
proof -
  let ?s = "render_head ''GET'' ''/'' None kHttp11 []"
  let ?c = "\<lparr>httpRequest = setBody ''secret'' HttpRequest_init, ctx_state = kGotAll\<rparr>"
  have h: "head_ok ''GET'' ''/'' None kHttp11 []" by code_simp
  have "length ?s < 1000" by code_simp
  then have ok: "buf_ok (buf_of ?s)" by (intro buf_of_ok) simp
  have "req_body (httpRequest ?c) = ''secret''" by (simp add: setBody_def)
  with reset_keeps_body [OF h _ ok content_buf_of, of ?c 0] show ?thesis by auto
qed

section \<open>Witnesses of the first properties\<close>

lemma parseRequest_refines_witness:
  "\<exists>b'. parseRequest HttpContext_init (buf_of ''GET / HT'') 0 = Inr (True, HttpContext_init, b') \<and>
     buf_ok b' \<and> content b' = ''GET / HT''"
proof -
  have ok: "buf_ok (buf_of ''GET / HT'')" by (intro buf_of_ok) simp
  have "sp_parse HttpContext_init ''GET / HT'' = Inr (True, HttpContext_init, ''GET / HT'')" by code_simp
  with parseRequest_refines [OF ok, of HttpContext_init 0] show ?thesis by simp
qed

lemma parse_in_pieces_witness:
  "\<exists>c1 b1. parseRequest HttpContext_init (buf_of ''GET / HT'') 0 = Inr (True, c1, b1) \<and>
     visible (parseRequest c1 (buf_of (''GET / HT'' @ ''TP/1.1'')) 1) =
     visible (parseRequest HttpContext_init (buf_of (''GET / HT'' @ ''TP/1.1'')) 0)"
proof -
  have ok: "buf_ok (buf_of ''GET / HT'')" "buf_ok (buf_of (''GET / HT'' @ ''TP/1.1''))"
    by (intro buf_of_ok, simp)+
  have "visible (parseRequest HttpContext_init (buf_of ''GET / HT'') 0) = Inr (True, HttpContext_init, ''GET / HT'')"
    by code_simp
  then obtain b1 where b1: "parseRequest HttpContext_init (buf_of ''GET / HT'') 0 = Inr (True, HttpContext_init, b1)"
    "content b1 = ''GET / HT''" by (auto simp: visible_Inr)
  have "waiting HttpContext_init" by (simp add: waiting_def HttpContext_init_def)
  from parse_in_pieces [OF ok(1,2,2) b1(1) this, of "''TP/1.1''" 1 0] b1 show ?thesis by auto
qed

end
