(* ===== verification/HttpServer.thy ===== *)
theory HttpServer
  imports HttpContext HttpResponse AnyValue
begin

text \<open>
  \<open>muduo/net/http/HttpServer.h\<close>, \<open>HttpServer.cc\<close>: what the HTTP server does with the messages of a
  connection. The parser state of a connection is kept in its context (\<open>Any\<close>); an application may
  put something else there (\<open>OtherContext\<close>). The calls on the connection are recorded in order
  (\<open>conn_call\<close>, modelled with \<open>TcpConnection\<close>); the handler is the parameter \<open>httpCallback\<close>.
\<close>

datatype conn_context = HttpCtx http_context | OtherContext

fun as_http :: "conn_context \<Rightarrow> http_context option" where
  "as_http (HttpCtx c) = Some c"
| "as_http OtherContext = None"

datatype write_complete = WcNone | WcClose | WcSendFile bool send_file

datatype conn_call =
    ConnShutdown
  | ConnSetWriteComplete write_complete
  | ConnSend string
  | ConnSendFile send_file

definition onConnection :: "conn_context any \<Rightarrow> conn_context any" where
  "onConnection a = any_set a (HttpCtx HttpContext_init)"

definition onRequest :: "(http_request \<Rightarrow> http_response \<Rightarrow> http_response) \<Rightarrow> http_request \<Rightarrow>
    conn_call list result" where
  "onRequest httpCallback request =
     (let connection = getHeader request ''connection'';
          close = (connection = ''closed'' \<or>
            req_version request = kHttp10 \<and> connection \<noteq> ''keep-alive'');
          response = httpCallback request (HttpResponse_init close)
      in rbind (appendToBuffer response (Buffer_init kInitSize)) (\<lambda>b.
         rbind (if isSendFile response
                then (case resp_file response of
                        Some f \<Rightarrow> Inr [ConnSetWriteComplete (WcSendFile (closeConnection response) f)]
                      | None \<Rightarrow> Inl NullDeref)
                else if closeConnection response then Inr [ConnSetWriteComplete WcClose]
                else Inr []) (\<lambda>wc.
         Inr (wc @ [ConnSend (content b)]))))"

definition onMessage :: "(http_request \<Rightarrow> http_response \<Rightarrow> http_response) \<Rightarrow> conn_context any \<Rightarrow> buf \<Rightarrow>
    timestamp \<Rightarrow> (conn_call list \<times> conn_context any \<times> buf) result" where
  "onMessage httpCallback any b receivedTime =
     rbind (any_cast as_http any) (\<lambda>ctx.
     rbind (parseRequest ctx b receivedTime) (\<lambda>(noErr, ctx', b').
     if \<not> noErr then Inr ([ConnShutdown], any_set any (HttpCtx ctx'), b')
     else if gotAll ctx'
     then rbind (onRequest httpCallback (httpRequest ctx')) (\<lambda>calls.
          Inr (calls, any_set any (HttpCtx (ctx_reset ctx')), b'))
     else Inr ([], any_set any (HttpCtx ctx'), b')))"

text \<open>What the handler has to do: set a status, and a file only that exists; nothing too long.\<close>

definition good_response :: "http_response \<Rightarrow> bool" where
  "good_response r \<longleftrightarrow> (\<exists>code. statusCode r = Some code \<and> \<bar>code\<bar> < 10 ^ 10) \<and>
     body_length r < 10 ^ 13 \<and> (isSendFile r \<longrightarrow> resp_file r \<noteq> None) \<and>
     length (render_response (the (statusCode r)) r (body_length r)) < 2 ^ 62"

text \<open>When the connection is to be closed, as the code decides it.\<close>

definition wants_close :: "http_request \<Rightarrow> bool" where
  "wants_close r \<longleftrightarrow> getHeader r ''connection'' = ''closed'' \<or>
     req_version r = kHttp10 \<and> getHeader r ''connection'' \<noteq> ''keep-alive''"

definition answer_calls :: "http_response \<Rightarrow> conn_call list" where
  "answer_calls r =
     (if isSendFile r then [ConnSetWriteComplete (WcSendFile (closeConnection r) (the (resp_file r)))]
      else if closeConnection r then [ConnSetWriteComplete WcClose] else []) @
     [ConnSend (render_response (the (statusCode r)) r (body_length r))]"

lemma onRequest_answers:
  assumes "good_response (cb req (HttpResponse_init (wants_close req)))"
  shows "onRequest cb req = Inr (answer_calls (cb req (HttpResponse_init (wants_close req))))"
proof -
  let ?r = "cb req (HttpResponse_init (wants_close req))"
  from assms obtain code where c: "statusCode ?r = Some code" "\<bar>code\<bar> < 10 ^ 10"
    "body_length ?r < 10 ^ 13" "isSendFile ?r \<longrightarrow> resp_file ?r \<noteq> None"
    "length (render_response code ?r (body_length ?r)) < 2 ^ 62" by (auto simp: good_response_def)
  have "length (store (Buffer_init kInitSize)) + length (render_response code ?r (body_length ?r)) \<le> vec_max_size"
    using c(5) by (simp add: Buffer_init_def kInitSize_def vec_max_size_def)
  from response_pieces_ok [OF c(1-4)] obtain ss where ss: "response_pieces ?r = Inr ss"
    "concat ss = render_response code ?r (body_length ?r)" by blast
  from bq.put_all_ok [OF buf_ok_default, of ss] ss(2) \<open>length (store _) + _ \<le> _\<close> obtain b where
    b: "put_all append_buf (Buffer_init kInitSize) ss = Inr b" "content b = concat ss" by auto
  have "appendToBuffer ?r (Buffer_init kInitSize) = Inr b" using ss(1) b(1) by (simp add: appendToBuffer_def)
  moreover have "onRequest cb req = rbind (appendToBuffer ?r (Buffer_init kInitSize)) (\<lambda>b.
      rbind (if isSendFile ?r
             then (case resp_file ?r of
                     Some f \<Rightarrow> Inr [ConnSetWriteComplete (WcSendFile (closeConnection ?r) f)]
                   | None \<Rightarrow> Inl NullDeref)
             else if closeConnection ?r then Inr [ConnSetWriteComplete WcClose] else Inr []) (\<lambda>wc.
      Inr (wc @ [ConnSend (content b)])))"
    by (simp only: onRequest_def wants_close_def Let_def)
  ultimately show ?thesis using c(1,4) b(2) ss(2) by (auto simp: answer_calls_def)
qed

text \<open>A connection whose messages so far ended with a complete answer gives, for a rendered request in
  its buffer, exactly one answer: the handler's response to the parsed request, rendered, with the
  write-complete action for a file or a closing connection set before it; the next request's bytes
  stay in the buffer and the parser is ready for it.\<close>

theorem onMessage_answers:
  fixes cb and req :: http_request
  defines "resp \<equiv> cb req (HttpResponse_init (wants_close req))"
  assumes "head_ok m path query v hs" and "m \<noteq> ''POST''" and "ctx_state c = kExpectRequestLine"
    and "buf_ok b" and "content b = render_head m path query v hs @ rest"
    and "req = parsed_head m path query v hs (httpRequest c)" and "good_response resp"
  shows "\<exists>b' c'. onMessage cb (Some (HttpCtx c)) b t = Inr (answer_calls resp, Some (HttpCtx c'), b') \<and>
    buf_ok b' \<and> content b' = rest \<and> ctx_state c' = kExpectRequestLine"
proof -
  have "sp_parse c (content b) = Inr (True, \<lparr>httpRequest = req, ctx_state = kGotAll\<rparr>, rest)"
    unfolding assms(6,7) parse_head [OF assms(2,4)]
    by (subst parse_blank) (simp_all add: parsed_head_fields [OF assms(2)] assms(3))
  with loop_refines [OF assms(5), of c] obtain b' where b': "parseRequest c b t =
      Inr (True, \<lparr>httpRequest = req, ctx_state = kGotAll\<rparr>, b')" "buf_ok b'" "content b' = rest"
    by (auto simp: parseRequest_def)
  have "onRequest cb req = Inr (answer_calls resp)"
    unfolding resp_def by (rule onRequest_answers) (use assms(8) in \<open>simp add: resp_def\<close>)
  then show ?thesis using b'
    by (auto simp: onMessage_def any_cast_def gotAll_def any_set_def any_of_def ctx_reset_def)
qed

text \<open>A handler that answers every request with the same text.\<close>

definition ex_handler :: "http_request \<Rightarrow> http_response \<Rightarrow> http_response" where
  "ex_handler req r = resp_setBody ''hi'' (setStatusString ''OK'' (setHttpStatusCode 200 r))"

lemma ex_handler_good: "good_response (ex_handler req (HttpResponse_init close))"
proof -
  let ?r = "ex_handler req (HttpResponse_init close)"
  have small: "length (render_response 200 (ex_handler req (HttpResponse_init True)) 2) < 1000"
    "length (render_response 200 (ex_handler req (HttpResponse_init False)) 2) < 1000" by code_simp+
  have len: "body_length ?r = 2" and code: "statusCode ?r = Some 200" and sent: "\<not> isSendFile ?r"
    by (simp_all add: ex_handler_def resp_setBody_def setStatusString_def setHttpStatusCode_def
      HttpResponse_init_def body_length_def)
  have "length (render_response 200 ?r 2) < 1000" using small by (cases close) simp_all
  also have "(1000::nat) < 2 ^ 62" by simp
  finally show ?thesis using sent unfolding good_response_def len code option.sel by simp
qed

lemma onMessage_answers_witness:
  "\<exists>b' c'. onMessage ex_handler (Some (HttpCtx HttpContext_init))
      (buf_of (render_head ''GET'' ''/'' None kHttp10 [] @ ''GET'')) 0
    = Inr ([ConnSetWriteComplete WcClose, ConnSend (''HTTP/1.1 200 OK'' @ kCRLF @ ''Connection: close'' @ kCRLF @
        kCRLF @ ''hi'')], Some (HttpCtx c'), b') \<and> content b' = ''GET'' \<and> ctx_state c' = kExpectRequestLine"
proof -
  let ?s = "render_head ''GET'' ''/'' None kHttp10 [] @ ''GET''"
  let ?req = "parsed_head ''GET'' ''/'' None kHttp10 [] (httpRequest HttpContext_init)"
  have h: "head_ok ''GET'' ''/'' None kHttp10 []" by code_simp
  have st: "ctx_state HttpContext_init = kExpectRequestLine" by (simp add: HttpContext_init_def)
  have "length ?s < 1000" by code_simp
  then have ok: "buf_ok (buf_of ?s)" by (intro buf_of_ok) simp
  have calls: "answer_calls (ex_handler ?req (HttpResponse_init (wants_close ?req))) =
      [ConnSetWriteComplete WcClose, ConnSend (''HTTP/1.1 200 OK'' @ kCRLF @ ''Connection: close'' @ kCRLF @
        kCRLF @ ''hi'')]" by code_simp
  from onMessage_answers [where cb = ex_handler and req = ?req, OF h _ st ok content_buf_of refl ex_handler_good, of 0]
  show ?thesis unfolding calls by auto
qed

text \<open>A client that asks to close the connection with \<open>Connection: close\<close> is not heard: the server
  compares with \<open>"closed"\<close>, so an HTTP/1.1 request with this header is answered with
  \<open>Connection: Keep-Alive\<close> and no closing action, unless the handler decides otherwise.\<close>

theorem connection_close_ignored:
  assumes "getHeader req ''connection'' = ''close''" and "req_version req = kHttp11"
    and "good_response (cb req (HttpResponse_init False))" and "\<not> isSendFile (cb req (HttpResponse_init False))"
    and "closeConnection (cb req (HttpResponse_init False)) = closeConnection (HttpResponse_init False)"
  shows "\<exists>line headers. onRequest cb req = Inr [ConnSend (line @ kCRLF @ ''Content-Length: '' @
      show_nat (length (resp_body (cb req (HttpResponse_init False)))) @ kCRLF @
      ''Connection: Keep-Alive'' @ kCRLF @ headers)]"
proof -
  let ?r = "cb req (HttpResponse_init False)"
  have w: "wants_close req = False" using assms(1,2) by (simp add: wants_close_def)
  have "\<not> closeConnection ?r" using assms(5) by (simp add: HttpResponse_init_def)
  then have "answer_calls ?r = [ConnSend ((''HTTP/1.1 '' @ show_int (the (statusCode ?r)) @ '' '' @ statusString ?r) @
      kCRLF @ ''Content-Length: '' @ show_nat (length (resp_body ?r)) @ kCRLF @ ''Connection: Keep-Alive'' @ kCRLF @
      (render_resp_headers (resp_header ?r) @ kCRLF @ resp_body ?r))]"
    using assms(4) by (simp add: answer_calls_def render_response_def body_length_def)
  with onRequest_answers [of cb req, unfolded w, OF assms(3)] show ?thesis by metis
qed

lemma connection_close_ignored_witness:
  "\<exists>line headers. onRequest ex_handler ((addHeader ''Connection'' '' close'' HttpRequest_init)\<lparr>req_version := kHttp11\<rparr>) =
    Inr [ConnSend (line @ kCRLF @ ''Content-Length: '' @ show_nat 2 @ kCRLF @ ''Connection: Keep-Alive'' @ kCRLF @ headers)]"
proof -
  let ?req = "(addHeader ''Connection'' '' close'' HttpRequest_init)\<lparr>req_version := kHttp11\<rparr>"
  have h: "getHeader ?req ''connection'' = ''close''" by code_simp
  have r: "resp_body (ex_handler ?req (HttpResponse_init False)) = ''hi''" by code_simp
  have "length ''hi'' = 2" by simp
  moreover have "\<not> isSendFile (ex_handler ?req (HttpResponse_init False))" by code_simp
  moreover have "closeConnection (ex_handler ?req (HttpResponse_init False)) = closeConnection (HttpResponse_init False)"
    by code_simp
  ultimately show ?thesis using connection_close_ignored [where cb = ex_handler and req = ?req, OF h _ ex_handler_good] by (simp only: r) simp
qed

end
