(* ===== verification/HttpService.thy ===== *)
theory HttpService
  imports ConnLife HttpServer "HOL-Library.Sublist"
begin

text \<open>
  \<open>muduo/net/http/HttpServer.cc\<close> on the connections of \<open>TcpConnection\<close>: the callbacks of the HTTP server with
  all their effects, in a loop that runs them. \<open>http_value\<close> is what the server hands to a
  connection without its type: the targets of its callbacks (each a \<open>std::bind\<close> of a member function) and the
  context. A callback runs inside the function that calls it; \<open>nested n\<close> is an environment whose
  stack has room for \<open>n\<close> callbacks inside one another. What a message does to the connection, whether it completes a
  request or not; the sessions are in \<open>HttpSession\<close>.
\<close>

section \<open>Callbacks inside callbacks\<close>

primrec nested :: "nat \<Rightarrow> ('u env \<Rightarrow> 'u \<Rightarrow> 'u world \<Rightarrow> 'u world result) \<Rightarrow> 'u env \<Rightarrow> 'u env" where
  "nested 0 app env = env\<lparr>user := \<lambda>u w. Inl StackOverflow\<rparr>"
| "nested (Suc n) app env = env\<lparr>user := app (nested n app env)\<rparr>"

lemma nested_simps [simp]:
  "sys_ret (nested n app env) = sys_ret env" "sys_readv (nested n app env) = sys_readv env"
  "user (nested (Suc n) app env) = app (nested n app env)"
  by (cases n; simp)+

declare nested.simps [simp del]

lemma deliver_cong: "sys_ret env = sys_ret env' \<Longrightarrow> deliver env h cs = deliver env' h cs"
  by (induction cs arbitrary: h) (simp_all add: taken_def split: syscall.split)

lemma nested_stream [simp]: "stream (nested n app env) w = stream env w" "writes_ok (nested n app env) = writes_ok env"
  using deliver_cong [of "nested n app env" env] by (simp_all add: stream_def writes_ok_def)

section \<open>The callbacks of the server\<close>

datatype http_value =
    HttpOnConnection | HttpOnMessage
  | HttpClose | HttpSendFile bool send_file
  | ServerRemoveConnection
  | HttpContextValue http_context
  | OtherValue

fun as_http_context :: "http_value \<Rightarrow> http_context option" where
  "as_http_context (HttpContextValue c) = Some c"
| "as_http_context _ = None"

type_synonym http_handler = "http_request \<Rightarrow> http_response \<Rightarrow> http_response"

definition http_onConnection :: "http_value world \<Rightarrow> http_value world" where
  "http_onConnection w = setContext (HttpContextValue HttpContext_init) w"

definition http_onRequest :: "http_handler option \<Rightarrow> http_value env \<Rightarrow> int \<Rightarrow> http_request \<Rightarrow>
    http_value world \<Rightarrow> http_value world result" where
  "http_onRequest httpCallback env tid request w =
     (let connection = getHeader request ''connection'';
          close = (connection = ''closed'' \<or> req_version request = kHttp10 \<and> connection \<noteq> ''keep-alive'') in
      case httpCallback of None \<Rightarrow> Inl BadFunctionCall | Some handler \<Rightarrow>
      let response = handler request (HttpResponse_init close) in
      rbind (appendToBuffer response (Buffer_init kInitSize)) (\<lambda>b.
      rbind (if isSendFile response
             then (case resp_file response of
                     Some f \<Rightarrow> Inr (conn_setWriteCompleteCallback (Some (HttpSendFile (closeConnection response) f)) w)
                   | None \<Rightarrow> Inl NullDeref)
             else if closeConnection response then Inr (conn_setWriteCompleteCallback (Some HttpClose) w)
             else Inr w) (\<lambda>w.
      rbind (send_buffer env tid b w) (\<lambda>(b, w). Inr w))))"

definition http_reset :: "http_value world \<Rightarrow> http_value world result" where
  "http_reset w = rbind (any_cast as_http_context (getContext w)) (\<lambda>context.
     Inr (setContext (HttpContextValue (ctx_reset context)) w))"

text \<open>\<open>context\<close> is a reference to the value in the connection's \<open>Any\<close>: the parser changes it in place,
  and \<open>reset\<close> is called on what is there after the request was served.\<close>

definition http_onMessage :: "http_handler option \<Rightarrow> http_value env \<Rightarrow> int \<Rightarrow> http_value world \<Rightarrow> http_value world result" where
  "http_onMessage httpCallback env tid w =
     rbind (any_cast as_http_context (getContext w)) (\<lambda>context.
     rbind (parseRequest context (inputBuffer (w_conn w)) (pollReturnTime w)) (\<lambda>(noErr, context, b).
     let w = setContext (HttpContextValue context) (with_conn (\<lambda>c. c\<lparr>inputBuffer := b\<rparr>) w) in
     if \<not> noErr then conn_shutdown env tid w
     else if gotAll context
     then rbind (http_onRequest httpCallback env tid (httpRequest context) w) http_reset
     else Inr w))"

definition http_closeConnection :: "http_value env \<Rightarrow> int \<Rightarrow> http_value world \<Rightarrow> http_value world result" where
  "http_closeConnection env tid w = conn_shutdown env tid w"

text \<open>\<open>sendFile\<close> runs as the target of \<open>writeCompleteCallback_\<close>, set \<open>g\<close> times so far; its argument \<open>file\<close> is a
  reference to the pointer bound there.\<close>

definition http_sendFile :: "http_value env \<Rightarrow> int \<Rightarrow> nat \<Rightarrow> bool \<Rightarrow> send_file \<Rightarrow> http_value world \<Rightarrow> http_value world result" where
  "http_sendFile env tid g closeConn file w =
     (let w = conn_setWriteCompleteCallback (if closeConn then Some HttpClose else None) w in
      rbind (bound_arg g file w) (\<lambda>f. conn_sendFile env tid f w))"

text \<open>\<open>TcpServer::removeConnection\<close> hands the connection to the server's loop and touches nothing here.\<close>

fun http_app :: "http_handler option \<Rightarrow> int \<Rightarrow> http_value env \<Rightarrow> http_value \<Rightarrow> http_value world \<Rightarrow> http_value world result" where
  "http_app cb tid env HttpOnConnection w = Inr (http_onConnection w)"
| "http_app cb tid env HttpOnMessage w = http_onMessage cb env tid w"
| "http_app cb tid env HttpClose w = http_closeConnection env tid w"
| "http_app cb tid env (HttpSendFile closeConn file) w = http_sendFile env tid (c_wcSet (w_conn w)) closeConn file w"
| "http_app cb tid env ServerRemoveConnection w = Inr w"
| "http_app cb tid env _ w = Inl BadFunctionCall"

section \<open>Answering\<close>

lemma setContext_simps [simp]:
  "w_conn (setContext v w) = (w_conn w)\<lparr>c_context := Some v\<rparr>" "getContext (setContext v w) = Some v"
  "chans (setContext v w) = chans w" "loop_poller (setContext v w) = loop_poller w" "loop_this (setContext v w) = loop_this w"
  "threadId (setContext v w) = threadId w" "w_sys (setContext v w) = w_sys w"
  "loop_rest (setContext v w) = loop_rest w"
  by (simp_all add: setContext_def getContext_def loop_rest_def with_conn_def any_set_def any_of_def)

lemma wc_simps [simp]:
  "w_conn (conn_setWriteCompleteCallback cb w) = (w_conn w)\<lparr>writeCompleteCallback := cb, c_wcSet := Suc (c_wcSet (w_conn w))\<rparr>"
  "chans (conn_setWriteCompleteCallback cb w) = chans w" "loop_poller (conn_setWriteCompleteCallback cb w) = loop_poller w"
  "loop_this (conn_setWriteCompleteCallback cb w) = loop_this w" "threadId (conn_setWriteCompleteCallback cb w) = threadId w"
  "w_sys (conn_setWriteCompleteCallback cb w) = w_sys w" "loop_rest (conn_setWriteCompleteCallback cb w) = loop_rest w"
  by (simp_all add: loop_rest_def conn_setWriteCompleteCallback_def with_conn_def)

text \<open>What the handler's answer is, and how it looks on the wire.\<close>

definition response_to :: "http_handler \<Rightarrow> http_request \<Rightarrow> http_response" where
  "response_to h req = h req (HttpResponse_init (wants_close req))"

definition answer_text :: "http_response \<Rightarrow> string" where
  "answer_text r = render_response (the (statusCode r)) r (body_length r)"

definition completion :: "http_response \<Rightarrow> http_value option \<Rightarrow> http_value option" where
  "completion r old = (if isSendFile r then Some (HttpSendFile (closeConnection r) (the (resp_file r)))
     else if closeConnection r then Some HttpClose else old)"

text \<open>\<open>onRequest\<close> sets the completion, if any, and sends the rendered response.\<close>

lemma http_onRequest_sends:
  assumes "good_response (response_to h req)"
  obtains b w1 where "http_onRequest (Some h) env tid req w = rbind (send_buffer env tid b w1) (\<lambda>(b, w). Inr w)"
    "buf_ok b" "content b = answer_text (response_to h req)" "threadId w1 = threadId w" "chans w1 = chans w"
    "loop_poller w1 = loop_poller w" "loop_rest w1 = loop_rest w" "w_sys w1 = w_sys w"
    "\<exists>k. w_conn w1 = (w_conn w)\<lparr>writeCompleteCallback := completion (response_to h req) (writeCompleteCallback (w_conn w)), c_wcSet := k\<rparr>"
proof -
  let ?r = "response_to h req"
  from assms obtain code where c: "statusCode ?r = Some code" "\<bar>code\<bar> < 10 ^ 10"
    "body_length ?r < 10 ^ 13" "isSendFile ?r \<longrightarrow> resp_file ?r \<noteq> None"
    "length (render_response code ?r (body_length ?r)) < 2 ^ 62" by (auto simp: good_response_def)
  have "length (store (Buffer_init kInitSize)) + length (render_response code ?r (body_length ?r)) \<le> vec_max_size"
    using c(5) by (simp add: Buffer_init_def kInitSize_def vec_max_size_def)
  from response_pieces_ok [OF c(1-4)] obtain ss where ss: "response_pieces ?r = Inr ss"
    "concat ss = render_response code ?r (body_length ?r)" by blast
  from bq.put_all_ok [OF buf_ok_default, of ss] ss(2) \<open>length (store _) + _ \<le> _\<close> obtain b where
    b: "put_all append_buf (Buffer_init kInitSize) ss = Inr b" "content b = concat ss" "buf_ok b" by auto
  have app: "appendToBuffer ?r (Buffer_init kInitSize) = Inr b" using ss(1) b(1) by (simp add: appendToBuffer_def)
  let ?w1 = "if completion ?r None = None then w else conn_setWriteCompleteCallback (completion ?r None) w"
  have "http_onRequest (Some h) env tid req w = rbind (appendToBuffer ?r (Buffer_init kInitSize)) (\<lambda>b.
      rbind (if isSendFile ?r
             then (case resp_file ?r of
                     Some f \<Rightarrow> Inr (conn_setWriteCompleteCallback (Some (HttpSendFile (closeConnection ?r) f)) w)
                   | None \<Rightarrow> Inl NullDeref)
             else if closeConnection ?r then Inr (conn_setWriteCompleteCallback (Some HttpClose) w)
             else Inr w) (\<lambda>w.
      rbind (send_buffer env tid b w) (\<lambda>(b, w). Inr w)))"
    by (simp only: http_onRequest_def wants_close_def response_to_def Let_def option.case)
  also have "\<dots> = rbind (send_buffer env tid b ?w1) (\<lambda>(b, w). Inr w)"
    using app c(4) by (auto simp: completion_def)
  finally have run: "http_onRequest (Some h) env tid req w = rbind (send_buffer env tid b ?w1) (\<lambda>(b, w). Inr w)" .
  have wc: "\<exists>k. w_conn ?w1 = (w_conn w)\<lparr>writeCompleteCallback := completion ?r (writeCompleteCallback (w_conn w)), c_wcSet := k\<rparr>"
    by (cases "isSendFile ?r"; cases "closeConnection ?r") (auto simp: completion_def intro: exI [of _ "c_wcSet (w_conn w)"])
  show ?thesis by (rule that [OF run b(3)]) (use b(2) ss(2) c(1) wc in \<open>auto simp: answer_text_def\<close>)
qed

lemma streaming_cong:
  assumes "chans w' = chans w" "loop_poller w' = loop_poller w" "loop_this w' = loop_this w"
    and "c_channel (w_conn w') = c_channel (w_conn w)" "c_file (w_conn w') = c_file (w_conn w)"
    and "outputBuffer (w_conn w') = outputBuffer (w_conn w)"
  shows "streaming w' = streaming w" "writing w' = writing w" "w_sys w' = w_sys w \<Longrightarrow> stream env w' = stream env w"
proof -
  have wr: "writing w' = writing w" using assms(1,4) by (simp add: writing_def)
  have "conn_ok w' = conn_ok w" using assms(1-4) by (simp add: conn_ok_def chans_ok_def)
  then show "streaming w' = streaming w" using wr assms(5,6) by (simp add: streaming_def)
  show "writing w' = writing w" by (rule wr)
  show "stream env w' = stream env w" if "w_sys w' = w_sys w" using assms(6) that by (simp add: stream_def)
qed

text \<open>Parsing only moves the indices of the buffer.\<close>

lemma parse_step_store:
  assumes "parse_step c b ok = Inr (hasMore, ok', c', b')"
  shows "store b' = store b"
proof (cases hasMore)
  case True
  with assms have "parse_step c b ok = Inr (True, ok', c', b')" by simp
  from parse_step_more [OF this] show ?thesis by (auto simp: retrieve_store)
next
  case False
  show ?thesis
  proof (cases "ctx_state c")
    case kExpectRequestLine
    show ?thesis
    proof (cases "findCRLF b")
      case (Inr found)
      with assms False kExpectRequestLine show ?thesis
        by (cases found; cases "read_range b (peek b) (the found)";
            cases "parseRequestLine (projr (read_range b (peek b) (the found))) c")
          (auto simp: parse_step_def retrieve_store split: if_splits)
    qed (use assms kExpectRequestLine in \<open>simp add: parse_step_def\<close>)
  next
    case kExpectHeaders
    show ?thesis
    proof (cases "findCRLF b")
      case (Inr found)
      with assms False kExpectHeaders show ?thesis
        by (cases found; cases "read_range b (peek b) (the found)")
          (auto simp: parse_step_def Let_def retrieve_store split: if_splits)
    qed (use assms kExpectHeaders in \<open>simp add: parse_step_def\<close>)
  next
    case kExpectBody
    then obtain ok1 where "parseRequestBody c b = Inr (ok1, c', b')"
      using assms by (auto simp: parse_step_def rbind_eq_Inr)
    then show ?thesis
      by (auto simp: parseRequestBody_def Let_def rbind_eq_Inr retrieve_store split: if_splits)
  next
    case kGotAll
    then show ?thesis using assms by (simp add: parse_step_def)
  qed
qed

lemma parse_loop_store: "parse_loop c b ok = Inr (ok', c', b') \<Longrightarrow> store b' = store b"
proof (induction c b ok rule: parse_loop.induct)
  case (1 c b ok)
  obtain hasMore ok1 c1 b1 where st: "parse_step c b ok = Inr (hasMore, ok1, c1, b1)"
    using "1.prems" by (subst (asm) parse_loop.simps) (auto simp: rbind_eq_Inr)
  then have run: "parse_loop c b ok = (if hasMore then parse_loop c1 b1 ok1 else Inr (ok1, c1, b1))"
    by (subst parse_loop.simps) simp
  have b1: "store b1 = store b" by (rule parse_step_store [OF st])
  show ?case
  proof (cases hasMore)
    case True
    with "1.IH" [OF st refl refl refl True] run "1.prems" b1 show ?thesis by simp
  next
    case False
    with run "1.prems" b1 show ?thesis by simp
  qed
qed

lemma buffer_region:
  assumes "buf_ok b"
  shows "mem_read (store b) (peek b) (length (content b)) = Inr (content b)" "peek b < 2 ^ 63"
    "readableBytes b = length (content b)"
proof -
  have r: "readIndex b + length (content b) \<le> length (store b)" "length (store b) < 2 ^ 63"
    using assms by (auto simp: buf_ok_def length_content vec_max_size_def)
  have n: "length (content b) = writeIndex b - readIndex b" by (rule length_content [OF assms])
  have "mem_read (store b) (readIndex b) (writeIndex b - readIndex b) = Inr (content b)"
    using buf_okD(2,3) [OF assms] by (simp add: mem_read_def content_def drop_take)
  then show "mem_read (store b) (peek b) (length (content b)) = Inr (content b)" by (simp add: n peek_def)
  show "peek b < 2 ^ 63" using r by (simp add: peek_def)
  show "readableBytes b = length (content b)" using assms by simp
qed

text \<open>The world \<open>w1\<close> after a message: the parser has the context \<open>c\<close> and has left the bytes \<open>rest\<close>.\<close>

definition heard :: "http_value world \<Rightarrow> http_value world \<Rightarrow> http_context \<Rightarrow> string \<Rightarrow> http_value option \<Rightarrow> bool" where
  "heard w w1 c rest wc \<longleftrightarrow> threadId w1 = threadId w \<and> beside (c_channel (w_conn w)) w w1 \<and>
     (\<exists>ws. w_sys w1 = w_sys w @ ws \<and> only_writes ws) \<and>
     buf_ok (inputBuffer (w_conn w1)) \<and> content (inputBuffer (w_conn w1)) = rest \<and>
     length (store (inputBuffer (w_conn w1))) = length (store (inputBuffer (w_conn w))) \<and>
     (\<exists>k. w_conn w1 = (w_conn w)\<lparr>outputBuffer := outputBuffer (w_conn w1), inputBuffer := inputBuffer (w_conn w1),
        c_context := Some (HttpContextValue c), writeCompleteCallback := wc, c_wcSet := k\<rparr>)"

lemma heardD:
  assumes "heard w w1 c rest wc"
  shows "threadId w1 = threadId w" "state_of w1 = state_of w" "c_channel (w_conn w1) = c_channel (w_conn w)"
    "c_socket (w_conn w1) = c_socket (w_conn w)" "messageCallback (w_conn w1) = messageCallback (w_conn w)"
    "connectionCallback (w_conn w1) = connectionCallback (w_conn w)" "c_closeCallback (w_conn w1) = c_closeCallback (w_conn w)"
    "writeCompleteCallback (w_conn w1) = wc" "c_context (w_conn w1) = Some (HttpContextValue c)"
    "getContext w1 = Some (HttpContextValue c)"
    "beside (c_channel (w_conn w)) w w1" "\<exists>ws. w_sys w1 = w_sys w @ ws \<and> only_writes ws"
    "buf_ok (inputBuffer (w_conn w1))" "content (inputBuffer (w_conn w1)) = rest"
    "length (store (inputBuffer (w_conn w1))) = length (store (inputBuffer (w_conn w)))"
proof -
  from assms obtain k where w: "w_conn w1 = (w_conn w)\<lparr>outputBuffer := outputBuffer (w_conn w1), inputBuffer := inputBuffer (w_conn w1),
        c_context := Some (HttpContextValue c), writeCompleteCallback := wc, c_wcSet := k\<rparr>" by (auto simp: heard_def)
  show "state_of w1 = state_of w" "c_channel (w_conn w1) = c_channel (w_conn w)"
    "c_socket (w_conn w1) = c_socket (w_conn w)" "messageCallback (w_conn w1) = messageCallback (w_conn w)"
    "connectionCallback (w_conn w1) = connectionCallback (w_conn w)" "c_closeCallback (w_conn w1) = c_closeCallback (w_conn w)"
    "writeCompleteCallback (w_conn w1) = wc" "c_context (w_conn w1) = Some (HttpContextValue c)"
    by (subst w, simp)+
  then show "getContext w1 = Some (HttpContextValue c)" by (simp add: getContext_def)
qed (use assms in \<open>simp_all add: heard_def\<close>)

text \<open>A message that completes a request: \<open>onMessage\<close> sends the rendered answer and resets the context.\<close>

lemma http_onMessage_sends:
  assumes ctx: "getContext w = Some (HttpContextValue ctx)" and inb: "buf_ok (inputBuffer (w_conn w))"
    and parse: "sp_parse ctx (content (inputBuffer (w_conn w))) = Inr (True, c2, rest)" "ctx_state c2 = kGotAll"
    and good: "good_response (response_to h (httpRequest c2))"
  obtains ans w1 where
    "http_onMessage (Some h) env tid w = rbind (rbind (send_buffer env tid ans w1) (\<lambda>(b, w). Inr w)) http_reset"
    "buf_ok ans" "content ans = answer_text (response_to h (httpRequest c2))" "streaming w1 = streaming w" "writing w1 = writing w"
    "stream env w1 = stream env w" "state_of w1 = state_of w" "outputBuffer (w_conn w1) = outputBuffer (w_conn w)"
    "\<forall>w2. kept w1 w2 \<longrightarrow> heard w w2 c2 rest (completion (response_to h (httpRequest c2)) (writeCompleteCallback (w_conn w)))"
proof -
  let ?resp = "response_to h (httpRequest c2)" and ?in = "inputBuffer (w_conn w)"
  from loop_refines [OF inb, of ctx] parse(1) obtain b where
    b: "parseRequest ctx ?in (pollReturnTime w) = Inr (True, c2, b)" "buf_ok b" "content b = rest"
    by (auto simp: parseRequest_def)
  have stb: "store b = store ?in" using b(1) by (auto simp: parseRequest_def dest: parse_loop_store)
  let ?w = "setContext (HttpContextValue c2) (with_conn (\<lambda>c. c\<lparr>inputBuffer := b\<rparr>) w)"
  have run: "http_onMessage (Some h) env tid w = rbind (http_onRequest (Some h) env tid (httpRequest c2) ?w) http_reset"
    using ctx b(1) parse(2) by (simp add: http_onMessage_def any_cast_def gotAll_def Let_def)
  from http_onRequest_sends [OF good, of env tid ?w] obtain ans w1 where
    r: "http_onRequest (Some h) env tid (httpRequest c2) ?w = rbind (send_buffer env tid ans w1) (\<lambda>(b, w). Inr w)"
    "buf_ok ans" "content ans = answer_text ?resp" "threadId w1 = threadId ?w" "chans w1 = chans ?w"
    "loop_poller w1 = loop_poller ?w" "loop_rest w1 = loop_rest ?w" "w_sys w1 = w_sys ?w"
    "\<exists>k. w_conn w1 = (w_conn ?w)\<lparr>writeCompleteCallback := completion ?resp (writeCompleteCallback (w_conn ?w)), c_wcSet := k\<rparr>"
    by blast
  then obtain k where
    k: "w_conn w1 = (w_conn ?w)\<lparr>writeCompleteCallback := completion ?resp (writeCompleteCallback (w_conn ?w)), c_wcSet := k\<rparr>" by blast
  have same_w: "threadId ?w = threadId w" "chans ?w = chans w" "loop_poller ?w = loop_poller w" "loop_rest ?w = loop_rest w"
    "w_sys ?w = w_sys w" by simp_all
  note s = r(1-3) r(4-8) [unfolded same_w] k
  have conn1: "c_channel (w_conn w1) = c_channel (w_conn w)" "c_file (w_conn w1) = c_file (w_conn w)" "outputBuffer (w_conn w1) = outputBuffer (w_conn w)"
    "state_of w1 = state_of w" using s(9) by simp_all
  have this1: "loop_this w1 = loop_this w" using s(7) by (simp add: loop_rest_def)
  note same = streaming_cong [OF s(5,6) this1 conn1(1-3)]
  have heard: "heard w w2 c2 rest (completion ?resp (writeCompleteCallback (w_conn w)))" if "kept w1 w2" for w2
  proof -
    have "beside (c_channel (w_conn w)) w w1" using s(5-7) by (intro beside_same)
    moreover have "beside (c_channel (w_conn w)) w1 w2" using that conn1(1) by (simp add: kept_def)
    ultimately have "beside (c_channel (w_conn w)) w w2" by (rule beside_trans)
    moreover have w2: "w_conn w2 = (w_conn w1)\<lparr>outputBuffer := outputBuffer (w_conn w2)\<rparr>" using that by (simp add: kept_def)
    moreover have inb2: "inputBuffer (w_conn w2) = b" by (subst w2, simp add: s(9) with_conn_def)
    moreover have "w_conn w2 = (w_conn w)\<lparr>outputBuffer := outputBuffer (w_conn w2), inputBuffer := inputBuffer (w_conn w2),
        c_context := Some (HttpContextValue c2),
        writeCompleteCallback := completion ?resp (writeCompleteCallback (w_conn w)), c_wcSet := k\<rparr>"
      by (subst w2, subst s(9), simp add: inb2 with_conn_def)
    ultimately show ?thesis using that b(2,3) stb s(4,8) unfolding heard_def kept_def by auto
  qed
  then show ?thesis using run s(1-3,8) same conn1(3,4) by (intro that [of ans w1]) simp_all
qed

text \<open>The answer goes into the stream; if the kernel took all of it the completion runs before the context is reset.\<close>

lemma http_onMessage_full:
  assumes "getContext w = Some (HttpContextValue ctx)" "buf_ok (inputBuffer (w_conn w))"
    and "sp_parse ctx (content (inputBuffer (w_conn w))) = Inr (True, c2, rest)" "ctx_state c2 = kGotAll"
    and "good_response (response_to h (httpRequest c2))"
    and st: "streaming w" "state_of w = kConnected" and env: "writes_ok env"
    and room: "room w + length (answer_text (response_to h (httpRequest c2))) \<le> vec_max_size"
  obtains (all) w1 where "http_onMessage (Some h) env tid w = rbind (call_write_complete env w1) http_reset"
      "streaming w1" "\<not> writing w1" "stream env w1 = stream env w @ answer_text (response_to h (httpRequest c2))" "room w1 \<le> room w"
      "heard w w1 c2 rest (completion (response_to h (httpRequest c2)) (writeCompleteCallback (w_conn w)))" "\<not> writing w"
  | (some) w1 where "http_onMessage (Some h) env tid w = http_reset w1"
      "streaming w1" "writing w1" "stream env w1 = stream env w @ answer_text (response_to h (httpRequest c2))"
      "room w1 \<le> room w + length (answer_text (response_to h (httpRequest c2)))"
      "heard w w1 c2 rest (completion (response_to h (httpRequest c2)) (writeCompleteCallback (w_conn w)))"
proof -
  let ?resp = "response_to h (httpRequest c2)"
  obtain ans w1 where
    s: "http_onMessage (Some h) env tid w = rbind (rbind (send_buffer env tid ans w1) (\<lambda>(b, w). Inr w)) http_reset"
    "buf_ok ans" "content ans = answer_text ?resp" "streaming w1 = streaming w" "writing w1 = writing w" "stream env w1 = stream env w"
    "state_of w1 = state_of w" "outputBuffer (w_conn w1) = outputBuffer (w_conn w)"
    and heard: "\<forall>w2. kept w1 w2 \<longrightarrow> heard w w2 c2 rest (completion ?resp (writeCompleteCallback (w_conn w)))"
    by (rule http_onMessage_sends [OF assms(1-5), of env tid])
  have st1: "streaming w1" "state_of w1 = kConnected" and room1: "room w1 + length (content ans) \<le> vec_max_size"
    using st room s by simp_all
  note region = buffer_region [OF s(2)]
  have send: "send_buffer env tid ans w1 = rbind (sendInLoop env tid (store ans) (peek ans) (length (content ans)) w1)
      (\<lambda>w. Inr (retrieve ans (length (content ans)), w))"
    using st1(2) region(3) by (simp add: send_buffer_def)
  show ?thesis
  proof (cases "writing w1")
    case True
    from send_waiting [OF st1 True region(1,2) room1, of env tid] obtain w2 where
      w2: "sendInLoop env tid (store ans) (peek ans) (length (content ans)) w1 = Inr w2" "streaming w2" "writing w2"
      "stream env w2 = stream env w1 @ content ans" "room w2 \<le> room w1 + length (content ans)" "kept w1 w2" by blast
    show ?thesis by (rule some [of w2]) (use w2 s send heard in simp_all)
  next
    case False
    show ?thesis
    proof (cases rule: send_idle [OF st1 False region(1,2) room1 env, of tid])
      case w2: (1 w2)
      have "http_onMessage (Some h) env tid w = rbind (call_write_complete env w2) http_reset"
        unfolding s(1) send w2(1) by (cases "call_write_complete env w2") simp_all
      then show ?thesis by (rule all) (use w2 s heard False in simp_all)
    next
      case w2: (2 w2)
      show ?thesis by (rule some [of w2]) (use w2 s send heard in simp_all)
    qed
  qed
qed

text \<open>A message that leaves the request incomplete only changes the context.\<close>

lemma http_onMessage_more:
  assumes ctx: "getContext w = Some (HttpContextValue ctx)" and inb: "buf_ok (inputBuffer (w_conn w))"
    and parse: "sp_parse ctx (content (inputBuffer (w_conn w))) = Inr (True, c2, rest)" "waiting c2"
    and st: "streaming w"
  obtains w1 where "http_onMessage cb env tid w = Inr w1" "streaming w1" "writing w1 = writing w" "stream env w1 = stream env w"
    "room w1 = room w" "heard w w1 c2 rest (writeCompleteCallback (w_conn w))"
proof -
  let ?in = "inputBuffer (w_conn w)"
  from loop_refines [OF inb, of ctx] parse(1) obtain b where
    b: "parseRequest ctx ?in (pollReturnTime w) = Inr (True, c2, b)" "buf_ok b" "content b = rest"
    by (auto simp: parseRequest_def)
  have stb: "store b = store ?in" using b(1) by (auto simp: parseRequest_def dest: parse_loop_store)
  let ?w = "setContext (HttpContextValue c2) (with_conn (\<lambda>c. c\<lparr>inputBuffer := b\<rparr>) w)"
  have run: "http_onMessage cb env tid w = Inr ?w"
    using ctx b(1) parse(2) by (auto simp: http_onMessage_def any_cast_def gotAll_def waiting_def Let_def)
  have "streaming ?w = streaming w" "writing ?w = writing w" "stream env ?w = stream env w"
    by (rule streaming_cong; simp add: with_conn_def)+
  moreover have "heard w ?w c2 rest (writeCompleteCallback (w_conn w))" using b stb
    by (auto simp: heard_def with_conn_def setContext_def any_set_def any_of_def beside_same loop_rest_def intro!: exI [of _ "c_wcSet (w_conn w)"])
  ultimately show ?thesis using st by (intro that [OF run]) (simp_all add: with_conn_def)
qed

section \<open>Requests that arrive in pieces\<close>

text \<open>The head of a request without a body.\<close>

record http_head =
  hd_method :: string
  hd_path :: string
  hd_query :: "string option"
  hd_version :: version
  hd_headers :: "(string \<times> string) list"

definition rendered :: "http_head \<Rightarrow> string" where
  "rendered r = render_head (hd_method r) (hd_path r) (hd_query r) (hd_version r) (hd_headers r)"

definition servable :: "http_head \<Rightarrow> bool" where
  "servable r \<longleftrightarrow> head_ok (hd_method r) (hd_path r) (hd_query r) (hd_version r) (hd_headers r) \<and> hd_method r \<noteq> ''POST''"

definition head_request :: "http_head \<Rightarrow> http_request" where
  "head_request r = parsed_head (hd_method r) (hd_path r) (hd_query r) (hd_version r) (hd_headers r) HttpRequest_init"

definition answer :: "http_handler \<Rightarrow> http_head \<Rightarrow> string" where
  "answer h r = answer_text (response_to h (head_request r))"

lemma parse_rendered:
  assumes "servable r"
  shows "sp_parse HttpContext_init (rendered r @ t) = Inr (True, \<lparr>httpRequest = head_request r, ctx_state = kGotAll\<rparr>, t)"
proof -
  have h: "head_ok (hd_method r) (hd_path r) (hd_query r) (hd_version r) (hd_headers r)" "hd_method r \<noteq> ''POST''"
    using assms by (auto simp: servable_def)
  have "ctx_state HttpContext_init = kExpectRequestLine" by (simp add: HttpContext_init_def)
  note parse_head [OF h(1) this, of t]
  then show ?thesis
    unfolding rendered_def
    by (simp add: parse_blank parsed_head_fields [OF h(1)] h(2) head_request_def HttpContext_init_def)
qed

lemma request_not_post:
  assumes "servable r"
  shows "req_method (head_request r) \<noteq> kPost" "req_body (head_request r) = []"
  using assms parsed_head_fields(5,6) by (auto simp: servable_def head_request_def HttpRequest_init_def)

lemma reset_init: "req_body (httpRequest c) = [] \<Longrightarrow> ctx_reset c = HttpContext_init"
  by (simp add: ctx_reset_def request_swap_def HttpContext_init_def HttpRequest_init_def)

text \<open>A proper prefix of a request leaves the parser waiting.\<close>

lemma sp_body_method: "sp_body c s = Inr (ok, c', s') \<Longrightarrow> req_method (httpRequest c') = req_method (httpRequest c)"
  by (auto simp: sp_body_def Let_def rbind_eq_Inr setBody_def split: if_splits)

lemma sp_line_body: "sp_line c line = (True, ok, c') \<Longrightarrow> waiting c \<Longrightarrow> ctx_state c' = kExpectBody \<Longrightarrow> req_method (httpRequest c') = kPost"
  by (auto simp: sp_line_def waiting_def Let_def split: if_splits prod.splits)

lemma sp_line_state: "sp_line c line = (True, ok, c') \<Longrightarrow> waiting c \<Longrightarrow> waiting c' \<or> ctx_state c' = kExpectBody"
  by (auto simp: sp_line_def waiting_def Let_def split: if_splits prod.splits)

lemma sp_parse_prefix:
  assumes "sp_parse c (p @ t) = Inr (True, c2, [])" "req_method (httpRequest c2) \<noteq> kPost" "waiting c" "t \<noteq> []"
  shows "\<exists>c1 s1. sp_parse c p = Inr (True, c1, s1) \<and> waiting c1"
  using assms(1-3)
proof (induction c p rule: sp_parse.induct)
  case (1 c p)
  have st: "ctx_state c \<noteq> kGotAll" "ctx_state c \<noteq> kExpectBody" using "1.prems"(3) by (auto simp: waiting_def)
  show ?case
  proof (cases "crlf_pos p = length p")
    case True
    then show ?thesis using st "1.prems"(3) by (subst sp_parse.simps) simp
  next
    case found: False
    obtain m good c' where l: "sp_line c (take (crlf_pos p) p) = (m, good, c')" by (metis prod_cases3)
    note app = crlf_pos_append [OF found, of t]
    have l': "sp_line c (take (crlf_pos (p @ t)) (p @ t)) = (m, good, c')" by (simp only: app(1,2) l)
    show ?thesis
    proof (cases m)
      case True
      have lT: "sp_line c (take (crlf_pos p) p) = (True, good, c')" using l True by simp
      have whole: "sp_parse c' (drop (crlf_pos p + 2) p @ t) = Inr (True, c2, [])"
        using sp_parse_more [OF "1.prems"(3) app(4), of good c'] l' True app(1,3) "1.prems"(1) by simp
      have "waiting c'"
      proof (rule ccontr)
        assume "\<not> waiting c'"
        then have body: "ctx_state c' = kExpectBody" using sp_line_state [OF lT "1.prems"(3)] by blast
        then have "req_method (httpRequest c') = kPost" by (rule sp_line_body [OF lT "1.prems"(3)])
        moreover have "sp_body c' (drop (crlf_pos p + 2) p @ t) = Inr (True, c2, [])" using whole body by (simp add: sp_parse.simps)
        ultimately show False using sp_body_method "1.prems"(2) by metis
      qed
      from "1.IH" [OF st found l [symmetric] refl refl refl True whole "1.prems"(2) this]
      have "\<exists>c1 s1. sp_parse c' (drop (crlf_pos p + 2) p) = Inr (True, c1, s1) \<and> waiting c1" .
      then show ?thesis using sp_parse_more [OF "1.prems"(3) found, of good c'] l True by simp
    next
      case False
      with sp_parse_stop [OF "1.prems"(3) app(4), of good c'] l' "1.prems"(1) app(1,3) assms(4)
      show ?thesis by (simp split: if_splits)
    qed
  qed
qed

end
