(* ===== verification/HttpSession.thy ===== *)
theory HttpSession
  imports HttpService
begin

text \<open>
  Sessions on the connections of \<open>HttpService\<close> (\<open>muduo/net/http/HttpServer.cc\<close>): requests that arrive in any
  pieces, answered in order whatever the kernel takes of each \<open>write\<close>; the closing answer; what a
  file and a pipelined request come to; and a write-complete callback that sends again. The locale \<open>session\<close> says
  what a way of running a connection's events has to provide for this.
\<close>

section \<open>A session\<close>

text \<open>The connection serves HTTP; \<open>p\<close> has arrived of the next request.\<close>

definition http_ready :: "int \<Rightarrow> string \<Rightarrow> http_value world \<Rightarrow> bool" where
  "http_ready tid p w \<longleftrightarrow> streaming w \<and> threadId w = tid \<and> state_of w = kConnected \<and>
     messageCallback (w_conn w) = Some HttpOnMessage \<and> writeCompleteCallback (w_conn w) = None \<and>
     buf_ok (inputBuffer (w_conn w)) \<and>
     (\<exists>ctx. getContext w = Some (HttpContextValue ctx) \<and> waiting ctx \<and>
        sp_parse HttpContext_init p = Inr (True, ctx, content (inputBuffer (w_conn w))))"

abbreviation in_room :: "'u world \<Rightarrow> nat" where
  "in_room w \<equiv> length (store (inputBuffer (w_conn w)))"

definition is_readv :: "syscall \<Rightarrow> bool" where
  "is_readv sc = (case sc of SysReadv fd \<Rightarrow> True | _ \<Rightarrow> False)"

definition reads :: "syscall list \<Rightarrow> nat" where
  "reads cs = length (filter is_readv cs)"

definition shutdowns :: "syscall list \<Rightarrow> nat" where
  "shutdowns cs = length (filter (\<lambda>sc. case sc of SysShutdown fd \<Rightarrow> True | _ \<Rightarrow> False) cs)"

lemma reads_simps [simp]:
  "reads (cs @ ds) = reads cs + reads ds" "reads [SysReadv fd] = 1" "reads [SysShutdown fd] = 0" "reads [] = 0"
  "shutdowns (cs @ ds) = shutdowns cs + shutdowns ds" "shutdowns [SysReadv fd] = 0" "shutdowns [SysShutdown fd] = 1" "shutdowns [] = 0"
  by (simp_all add: reads_def shutdowns_def is_readv_def)

lemma only_writes_counts: "only_writes ws \<Longrightarrow> reads ws = 0" "only_writes ws \<Longrightarrow> shutdowns ws = 0"
  by (auto simp: only_writes_def list_all_iff reads_def shutdowns_def is_readv_def filter_empty_conv split: syscall.splits)

text \<open>Between \<open>w\<close> and \<open>w'\<close> the connection stayed what it is and where it is, with \<open>k\<close> reads.\<close>

definition later :: "nat \<Rightarrow> 'u world \<Rightarrow> 'u world \<Rightarrow> bool" where
  "later k w w' \<longleftrightarrow> beside (c_channel (w_conn w)) w w' \<and> c_channel (w_conn w') = c_channel (w_conn w) \<and>
     c_socket (w_conn w') = c_socket (w_conn w) \<and> connectionCallback (w_conn w') = connectionCallback (w_conn w) \<and>
     c_closeCallback (w_conn w') = c_closeCallback (w_conn w) \<and>
     reads (w_sys w') = reads (w_sys w) + k \<and> shutdowns (w_sys w') = shutdowns (w_sys w) \<and> (\<exists>cs. w_sys w' = w_sys w @ cs)"

lemma later_trans:
  assumes "later k u v" "later l v w"
  shows "later (k + l) u w"
proof -
  have c: "c_channel (w_conn v) = c_channel (w_conn u)" using assms(1) by (simp add: later_def)
  have "beside (c_channel (w_conn u)) u w"
    by (rule beside_trans [of _ _ v]) (use assms in \<open>simp_all add: later_def c\<close>)
  then show ?thesis using assms unfolding later_def by auto
qed

lemma kept_rest: "kept w w' \<Longrightarrow> beside (c_channel (w_conn w)) w w' \<and> (\<exists>ws. w_sys w' = w_sys w @ ws \<and> only_writes ws)"
  unfolding kept_def by blast

lemma later_kept: "kept w w' \<Longrightarrow> later 0 w w'"
  using keptD [of w w'] kept_rest [of w w'] by (auto simp: later_def only_writes_counts)

lemma later_heard: "heard w w' c rest wc \<Longrightarrow> later 0 w w'"
  using heardD [of w w' c rest wc] by (auto simp: later_def only_writes_counts)

text \<open>\<open>handleRead\<close> when data have arrived.\<close>

lemma handleRead_data:
  assumes "sys_readv env (w_sys w) = Inr x" "x \<noteq> []" "buf_ok (inputBuffer (w_conn w))" "in_room w + length x \<le> vec_max_size"
  obtains w1 where "conn_handleRead env tid w = call_user env (messageCallback (w_conn w)) w1"
    "streaming w1 = streaming w" "writing w1 = writing w" "stream env w1 = stream env w" "room w1 = room w"
    "buf_ok (inputBuffer (w_conn w1))" "content (inputBuffer (w_conn w1)) = content (inputBuffer (w_conn w)) @ x"
    "in_room w1 \<le> in_room w + length x" "w_conn w1 = (w_conn w)\<lparr>inputBuffer := inputBuffer (w_conn w1)\<rparr>"
    "threadId w1 = threadId w" "later 1 w w1"
proof -
  from readFd_ok [OF assms(3,4)] obtain b where b: "readFd (inputBuffer (w_conn w)) (Inr x) = Inr (int (length x), None, b)"
    "buf_ok b" "content b = content (inputBuffer (w_conn w)) @ x" "length (store b) \<le> in_room w + length x" by blast
  let ?w = "with_conn (\<lambda>c. c\<lparr>inputBuffer := b\<rparr>) (w\<lparr>w_sys := w_sys w @ [SysReadv (c_socket (w_conn w))]\<rparr>)"
  have "length x < 2 ^ 64" using assms(4) by (simp add: vec_max_size_def)
  then have n: "0 < (word_of_int (int (length x)) :: 64 word)" using small_word(2) [of "length x"] assms(2) by simp
  have run: "conn_handleRead env tid w = call_user env (messageCallback (w_conn w)) ?w"
    using assms(1) b(1) n by (simp add: conn_handleRead_def Let_def)
  have sc: "streaming ?w = streaming w" "writing ?w = writing w" by (rule streaming_cong; simp add: with_conn_def)+
  have str: "stream env ?w = stream env w" by (simp add: stream_def with_conn_def taken_def)
  have lat: "later 1 w ?w" by (simp add: later_def with_conn_def beside_same loop_rest_def)
  show ?thesis by (rule that [OF run sc str]) (use b lat in \<open>simp_all add: with_conn_def\<close>)
qed

text \<open>The environment of the server, whose stack has room for \<open>n\<close> callbacks inside one another.\<close>

abbreviation http_env :: "nat \<Rightarrow> http_handler \<Rightarrow> int \<Rightarrow> http_value env \<Rightarrow> http_value env" where
  "http_env n h tid env \<equiv> nested n (http_app (Some h) tid) env"

lemma parse_next:
  assumes "http_ready tid p w" "content b = content (inputBuffer (w_conn w)) @ x"
  obtains ctx where "getContext w = Some (HttpContextValue ctx)" "sp_parse ctx (content b) = sp_parse HttpContext_init (p @ x)"
proof -
  from assms(1) obtain ctx where c: "getContext w = Some (HttpContextValue ctx)" "waiting ctx"
    "sp_parse HttpContext_init p = Inr (True, ctx, content (inputBuffer (w_conn w)))" by (auto simp: http_ready_def)
  show ?thesis by (rule that [OF c(1)]) (simp add: assms(2) sp_parse_pieces [OF c(3,2)])
qed

lemma http_readyD:
  assumes "http_ready tid p w"
  shows "streaming w" "threadId w = tid" "state_of w = kConnected" "messageCallback (w_conn w) = Some HttpOnMessage"
    "writeCompleteCallback (w_conn w) = None" "buf_ok (inputBuffer (w_conn w))"
  using assms by (auto simp: http_ready_def)

text \<open>A piece that does not complete the request.\<close>

lemma read_piece:
  assumes w: "http_ready tid p w" and r: "servable r" "strict_prefix (p @ x) (rendered r)" and x: "x \<noteq> []"
    and env: "sys_readv env (w_sys w) = Inr x" and room: "in_room w + length x \<le> vec_max_size"
  obtains w' where "conn_handleRead (http_env (Suc n) h tid env) tid w = Inr w'" "http_ready tid (p @ x) w'"
    "stream env w' = stream env w" "room w' = room w" "in_room w' \<le> in_room w + length x" "later 1 w w'" "writing w' = writing w"
proof -
  note wD = http_readyD [OF w]
  obtain t where t: "rendered r = (p @ x) @ t" "t \<noteq> []" using r(2) by (auto elim: strict_prefixE')
  have init: "waiting HttpContext_init" by (simp add: waiting_def HttpContext_init_def)
  have "sp_parse HttpContext_init ((p @ x) @ t) = Inr (True, \<lparr>httpRequest = head_request r, ctx_state = kGotAll\<rparr>, [])"
    using parse_rendered [OF r(1), of "[]"] t(1) by simp
  from sp_parse_prefix [OF this _ init t(2)] request_not_post(1) [OF r(1)] obtain c1 s1 where
    c1: "sp_parse HttpContext_init (p @ x) = Inr (True, c1, s1)" "waiting c1" by auto
  have env': "sys_readv (http_env (Suc n) h tid env) (w_sys w) = Inr x" using env by simp
  from handleRead_data [OF env' x wD(6) room, of tid] obtain w1 where
    w1: "conn_handleRead (http_env (Suc n) h tid env) tid w = call_user (http_env (Suc n) h tid env) (messageCallback (w_conn w)) w1"
    "streaming w1 = streaming w" "stream (http_env (Suc n) h tid env) w1 = stream (http_env (Suc n) h tid env) w" "room w1 = room w"
    "buf_ok (inputBuffer (w_conn w1))" "content (inputBuffer (w_conn w1)) = content (inputBuffer (w_conn w)) @ x"
    "in_room w1 \<le> in_room w + length x" "w_conn w1 = (w_conn w)\<lparr>inputBuffer := inputBuffer (w_conn w1)\<rparr>"
    "threadId w1 = threadId w" "later 1 w w1" "writing w1 = writing w" by blast
  from parse_next [OF w w1(6)] obtain ctx where ctx: "getContext w = Some (HttpContextValue ctx)"
    "sp_parse ctx (content (inputBuffer (w_conn w1))) = sp_parse HttpContext_init (p @ x)" by blast
  have "getContext w1 = getContext w" unfolding getContext_def by (subst w1(8)) simp
  then have ctx1: "getContext w1 = Some (HttpContextValue ctx)" using ctx(1) by simp
  have conn1: "state_of w1 = state_of w" "messageCallback (w_conn w1) = messageCallback (w_conn w)"
    "writeCompleteCallback (w_conn w1) = writeCompleteCallback (w_conn w)" by (subst w1(8), simp)+
  have st1: "streaming w1" using w1(2) wD(1) by simp
  from http_onMessage_more [OF ctx1 w1(5) ctx(2) [unfolded c1(1)] c1(2) st1, of "Some h" "http_env n h tid env" tid] obtain w2 where
    w2: "http_onMessage (Some h) (http_env n h tid env) tid w1 = Inr w2" "streaming w2"
    "stream (http_env n h tid env) w2 = stream (http_env n h tid env) w1" "room w2 = room w1"
    "heard w1 w2 c1 s1 (writeCompleteCallback (w_conn w1))" "writing w2 = writing w1" by blast
  note hD = heardD [OF w2(5)]
  have run: "conn_handleRead (http_env (Suc n) h tid env) tid w = Inr w2"
    using w1(1) wD(4) w2(1) by (simp add: call_user_def)
  have "http_ready tid (p @ x) w2"
    using w2(2) hD conn1 wD w1(9) c1 by (simp add: http_ready_def)
  moreover have "later 1 w w2" using later_trans [OF w1(10) later_heard [OF w2(5)]] by simp
  ultimately show ?thesis using w2 w1 hD by (intro that [OF run]) simp_all
qed

text \<open>The piece that completes the request: the answer is in the stream, and if the kernel has taken all
  of it the completion has run.\<close>

lemma read_last:
  assumes w: "http_ready tid p w" and r: "servable r" "p @ x = rendered r @ rest" and x: "x \<noteq> []"
    and env: "sys_readv env (w_sys w) = Inr x" "writes_ok env"
    and good: "good_response (response_to h (head_request r))"
    and rooms: "in_room w + length x \<le> vec_max_size" "room w + length (answer h r) \<le> vec_max_size"
  obtains (all) w1 where "conn_handleRead (http_env (Suc n) h tid env) tid w =
        rbind (call_write_complete (http_env n h tid env) w1) http_reset"
      "streaming w1" "\<not> writing w1" "stream env w1 = stream env w @ answer h r" "room w1 \<le> room w + length (answer h r)"
      "getContext w1 = Some (HttpContextValue \<lparr>httpRequest = head_request r, ctx_state = kGotAll\<rparr>)"
      "writeCompleteCallback (w_conn w1) = completion (response_to h (head_request r)) None" "state_of w1 = kConnected"
      "threadId w1 = tid" "messageCallback (w_conn w1) = Some HttpOnMessage" "buf_ok (inputBuffer (w_conn w1))"
      "content (inputBuffer (w_conn w1)) = rest" "in_room w1 \<le> in_room w + length x" "later 1 w w1" "\<not> writing w"
  | (some) w1 where "conn_handleRead (http_env (Suc n) h tid env) tid w = http_reset w1"
      "streaming w1" "writing w1" "stream env w1 = stream env w @ answer h r" "room w1 \<le> room w + length (answer h r)"
      "getContext w1 = Some (HttpContextValue \<lparr>httpRequest = head_request r, ctx_state = kGotAll\<rparr>)"
      "writeCompleteCallback (w_conn w1) = completion (response_to h (head_request r)) None" "state_of w1 = kConnected"
      "threadId w1 = tid" "messageCallback (w_conn w1) = Some HttpOnMessage" "buf_ok (inputBuffer (w_conn w1))"
      "content (inputBuffer (w_conn w1)) = rest" "in_room w1 \<le> in_room w + length x" "later 1 w w1"
proof -
  note wD = http_readyD [OF w]
  let ?c2 = "\<lparr>httpRequest = head_request r, ctx_state = kGotAll\<rparr>" and ?env = "http_env (Suc n) h tid env"
  have env': "sys_readv ?env (w_sys w) = Inr x" using env(1) by simp
  from handleRead_data [OF env' x wD(6) rooms(1), of tid] obtain w0 where
    w0: "conn_handleRead ?env tid w = call_user ?env (messageCallback (w_conn w)) w0"
    "streaming w0 = streaming w" "stream ?env w0 = stream ?env w" "room w0 = room w"
    "buf_ok (inputBuffer (w_conn w0))" "content (inputBuffer (w_conn w0)) = content (inputBuffer (w_conn w)) @ x"
    "in_room w0 \<le> in_room w + length x" "w_conn w0 = (w_conn w)\<lparr>inputBuffer := inputBuffer (w_conn w0)\<rparr>"
    "threadId w0 = threadId w" "later 1 w w0" "writing w0 = writing w" by blast
  from parse_next [OF w w0(6)] obtain ctx where ctx: "getContext w = Some (HttpContextValue ctx)"
    "sp_parse ctx (content (inputBuffer (w_conn w0))) = sp_parse HttpContext_init (p @ x)" by blast
  have "getContext w0 = getContext w" unfolding getContext_def by (subst w0(8)) simp
  then have ctx0: "getContext w0 = Some (HttpContextValue ctx)" using ctx(1) by simp
  have conn0: "state_of w0 = kConnected" "messageCallback (w_conn w0) = Some HttpOnMessage"
    "writeCompleteCallback (w_conn w0) = None" by (subst w0(8), simp add: wD)+
  have st0: "streaming w0" using w0(2) wD(1) by simp
  have parse: "sp_parse ctx (content (inputBuffer (w_conn w0))) = Inr (True, ?c2, rest)"
    unfolding ctx(2) r(2) by (rule parse_rendered [OF r(1)])
  have good': "good_response (response_to h (httpRequest ?c2))" using good by simp
  have envn: "writes_ok (http_env n h tid env)" using env(2) by simp
  have ans: "answer_text (response_to h (httpRequest ?c2)) = answer h r" by (simp add: answer_def)
  have room0: "room w0 + length (answer_text (response_to h (httpRequest ?c2))) \<le> vec_max_size"
    unfolding ans using rooms(2) w0(4) by simp
  have run: "conn_handleRead ?env tid w = http_onMessage (Some h) (http_env n h tid env) tid w0"
    using w0(1) wD(4) by (simp add: call_user_def)
  have str0: "stream env w0 = stream env w" using w0(3) by simp
  show ?thesis
  proof (cases rule: http_onMessage_full [OF ctx0 w0(5) parse http_context.select_convs(2) good' st0 conn0(1) envn room0, of tid])
    case w1: (1 w1)
    note hD = heardD [OF w1(6)]
    have lat: "later 1 w w1" using later_trans [OF w0(10) later_heard [OF w1(6)]] by simp
    show ?thesis by (rule all [of w1])
      (use w1(1-5,7) w0(11) hD run lat str0 conn0 w0(4,7,9) wD(2) in \<open>simp_all add: answer_def\<close>)
  next
    case w1: (2 w1)
    note hD = heardD [OF w1(6)]
    have lat: "later 1 w w1" using later_trans [OF w0(10) later_heard [OF w1(6)]] by simp
    show ?thesis by (rule some [of w1])
      (use w1(1-5) hD run lat str0 conn0 w0(4,7,9) wD(2) in \<open>simp_all add: answer_def\<close>)
  qed
qed

text \<open>\<open>reset\<close> makes the connection ready for the next request.\<close>

lemma http_reset_ready:
  assumes "getContext w = Some (HttpContextValue \<lparr>httpRequest = head_request r, ctx_state = kGotAll\<rparr>)" "servable r"
  obtains w' where "http_reset w = Inr w'" "w' = setContext (HttpContextValue HttpContext_init) w"
    "streaming w' = streaming w" "writing w' = writing w" "stream env w' = stream env w" "later 0 w w'"
proof -
  let ?w = "setContext (HttpContextValue HttpContext_init) w"
  have "ctx_reset \<lparr>httpRequest = head_request r, ctx_state = kGotAll\<rparr> = HttpContext_init"
    using request_not_post(2) [OF assms(2)] by (intro reset_init) simp
  then have run: "http_reset w = Inr ?w" using assms(1) by (simp add: http_reset_def any_cast_def)
  have "later 0 w ?w" by (simp add: later_def beside_same)
  moreover have "streaming ?w = streaming w" "writing ?w = writing w" "stream env ?w = stream env w"
    by (rule streaming_cong; simp)+
  ultimately show ?thesis by (intro that [OF run]) simp_all
qed

text \<open>Events of the socket: it became readable or writable. The latter is reported only while the
  channel is interested in writing.\<close>

datatype net_event = Readable | Writable

fun net_run :: "'u env \<Rightarrow> int \<Rightarrow> net_event list \<Rightarrow> 'u world \<Rightarrow> 'u world result" where
  "net_run env tid [] w = Inr w"
| "net_run env tid (Readable # evs) w = rbind (conn_handleRead env tid w) (net_run env tid evs)"
| "net_run env tid (Writable # evs) w =
     rbind (if writing w then conn_handleWrite env tid w else Inr w) (net_run env tid evs)"

text \<open>The requests \<open>rs\<close>, of whose first \<open>p\<close> has already arrived, come in the pieces \<open>xs\<close>: no piece reaches from
  one request into the next, as a client sends the next request when it has the answer.\<close>

fun cut :: "string \<Rightarrow> http_head list \<Rightarrow> string list \<Rightarrow> bool" where
  "cut p rs [] = True"
| "cut p [] (x # xs) = False"
| "cut p (r # rs) (x # xs) = (x \<noteq> [] \<and>
     (if p @ x = rendered r then cut [] rs xs else strict_prefix (p @ x) (rendered r) \<and> cut (p @ x) (r # rs) xs))"

text \<open>The requests that are complete, and what has arrived of the next.\<close>

fun finished :: "string \<Rightarrow> http_head list \<Rightarrow> string list \<Rightarrow> http_head list" where
  "finished p (r # rs) (x # xs) = (if p @ x = rendered r then r # finished [] rs xs else finished (p @ x) (r # rs) xs)"
| "finished p rs xs = []"

fun unfinished :: "string \<Rightarrow> http_head list \<Rightarrow> string list \<Rightarrow> string" where
  "unfinished p (r # rs) (x # xs) = (if p @ x = rendered r then unfinished [] rs xs else unfinished (p @ x) (r # rs) xs)"
| "unfinished p rs xs = p"

text \<open>The reads after the first \<open>k\<close> return these pieces.\<close>

definition feeds :: "'u env \<Rightarrow> nat \<Rightarrow> string list \<Rightarrow> bool" where
  "feeds env k xs \<longleftrightarrow> (\<forall>cs. k \<le> reads cs \<and> reads cs < k + length xs \<longrightarrow> sys_readv env cs = Inr (xs ! (reads cs - k)))"

lemma feeds_Cons:
  assumes "feeds env k (x # xs)"
  shows "reads cs = k \<Longrightarrow> sys_readv env cs = Inr x" "feeds env (Suc k) xs"
proof -
  show "sys_readv env cs = Inr x" if "reads cs = k" using assms that by (simp add: feeds_def)
  show "feeds env (Suc k) xs" unfolding feeds_def
  proof (intro allI impI)
    fix cs assume c: "Suc k \<le> reads cs \<and> reads cs < Suc k + length xs"
    then have "reads cs - k = Suc (reads cs - Suc k)" by (simp add: Suc_diff_Suc)
    then show "sys_readv env cs = Inr (xs ! (reads cs - Suc k))" using assms c by (simp add: feeds_def)
  qed
qed

text \<open>The handler answers the request from memory and keeps the connection open.\<close>

definition persistent :: "http_handler \<Rightarrow> http_head \<Rightarrow> bool" where
  "persistent h r \<longleftrightarrow> good_response (response_to h (head_request r)) \<and>
     \<not> isSendFile (response_to h (head_request r)) \<and> \<not> closeConnection (response_to h (head_request r))"

lemma http_ready_kept:
  assumes "http_ready tid p w" "kept w w'" "streaming w'"
  shows "http_ready tid p w'"
  using assms(1,3) keptD [OF assms(2)] by (simp add: http_ready_def getContext_def)

lemma ready_writable:
  assumes "http_ready tid p w" "writes_ok env"
  obtains w' where "(if writing w then conn_handleWrite (http_env n h tid env) tid w else Inr w) = Inr w'" "http_ready tid p w'"
    "stream env w' = stream env w" "room w' = room w" "in_room w' = in_room w" "later 0 w w'"
proof -
  note wD = http_readyD [OF assms(1)]
  have "writes_ok (http_env n h tid env)" using assms(2) by simp
  from writable_kept [OF wD(1,5) this, of tid] obtain w' where
    w': "(if writing w then conn_handleWrite (http_env n h tid env) tid w else Inr w) = Inr w'" "streaming w'"
    "stream (http_env n h tid env) w' = stream (http_env n h tid env) w" "room w' = room w" "kept w w'" by blast
  show ?thesis
    by (rule that [OF w'(1)])
      (use w' http_ready_kept [OF assms(1) w'(5,2)] later_kept [OF w'(5)] keptD(6) [OF w'(5)] in simp_all)
qed

text \<open>One complete request on a connection that stays open.\<close>

lemma read_answered:
  assumes w: "http_ready tid p w" and r: "servable r" "p @ x = rendered r" and x: "x \<noteq> []"
    and env: "sys_readv env (w_sys w) = Inr x" "writes_ok env" and h: "persistent h r"
    and rooms: "in_room w + length x \<le> vec_max_size" "room w + length (answer h r) \<le> vec_max_size"
  obtains w' where "conn_handleRead (http_env (Suc n) h tid env) tid w = Inr w'" "http_ready tid [] w'"
    "stream env w' = stream env w @ answer h r" "room w' \<le> room w + length (answer h r)"
    "in_room w' \<le> in_room w + length x" "later 1 w w'" "writing w \<Longrightarrow> writing w'"
proof -
  have r': "p @ x = rendered r @ []" and good: "good_response (response_to h (head_request r))"
    and comp: "completion (response_to h (head_request r)) None = None"
    using r(2) h by (auto simp: persistent_def completion_def)
  obtain w1 where w1: "conn_handleRead (http_env (Suc n) h tid env) tid w = http_reset w1"
      "streaming w1" "stream env w1 = stream env w @ answer h r" "room w1 \<le> room w + length (answer h r)"
      "getContext w1 = Some (HttpContextValue \<lparr>httpRequest = head_request r, ctx_state = kGotAll\<rparr>)"
      "writeCompleteCallback (w_conn w1) = None" "state_of w1 = kConnected"
      "threadId w1 = tid" "messageCallback (w_conn w1) = Some HttpOnMessage" "buf_ok (inputBuffer (w_conn w1))"
      "content (inputBuffer (w_conn w1)) = []" "in_room w1 \<le> in_room w + length x" "later 1 w w1" "writing w \<Longrightarrow> writing w1"
  proof (cases rule: read_last [OF w r(1) r' x env good rooms, of n])
    case v: (1 v)
    then have "call_write_complete (http_env n h tid env) v = Inr v" using comp by (simp add: call_write_complete_def)
    with v(1) have "conn_handleRead (http_env (Suc n) h tid env) tid w = http_reset v" by simp
    then show ?thesis by (rule that) (use v comp in simp_all)
  next
    case v: (2 v)
    show ?thesis by (rule that [OF v(1)]) (use v comp in simp_all)
  qed
  from http_reset_ready [OF w1(5) r(1)] obtain w' where
    w': "http_reset w1 = Inr w'" "w' = setContext (HttpContextValue HttpContext_init) w1"
    "streaming w' = streaming w1" "stream env w' = stream env w1" "later 0 w1 w'" "writing w' = writing w1" by blast
  have init: "sp_parse HttpContext_init [] = Inr (True, HttpContext_init, [])" "waiting HttpContext_init"
    by (simp_all add: sp_parse.simps waiting_def HttpContext_init_def)
  have "http_ready tid [] w'" using w1 w'(2,3) init by (simp add: http_ready_def)
  moreover have "later 1 w w'" using later_trans [OF w1(13) w'(5)] by simp
  ultimately show ?thesis using w1 w' by (intro that [of w']) simp_all
qed

text \<open>What a way of running the connection's events has to provide: an event without input keeps all
  as it is, a piece that does not complete a request adds to what has arrived, and one that does
  adds its answer to what is sent. \<open>space i m\<close> says that the buffers have room for \<open>i\<close> bytes in and \<open>m\<close> out.\<close>

primrec run_events :: "('e \<Rightarrow> 'w \<Rightarrow> 'w result) \<Rightarrow> 'e list \<Rightarrow> 'w \<Rightarrow> 'w result" where
  "run_events step [] w = Inr w"
| "run_events step (e # es) w = rbind (step e w) (run_events step es)"

locale session =
  fixes step :: "'e \<Rightarrow> 'w \<Rightarrow> 'w result" and reading :: "'e \<Rightarrow> bool" and good :: "http_head \<Rightarrow> bool" and reply :: "http_head \<Rightarrow> string"
    and ready :: "string \<Rightarrow> 'w \<Rightarrow> bool" and fed :: "string list \<Rightarrow> 'w \<Rightarrow> bool" and space :: "nat \<Rightarrow> nat \<Rightarrow> 'w \<Rightarrow> bool"
    and out :: "'w \<Rightarrow> string" and near :: "nat \<Rightarrow> 'w \<Rightarrow> 'w \<Rightarrow> bool"
  assumes near_refl: "near 0 w w"
    and near_trans: "near k u v \<Longrightarrow> near l v w \<Longrightarrow> near (k + l) u w"
    and idle: "ready p w \<Longrightarrow> \<not> reading e \<Longrightarrow> fed xs w \<Longrightarrow> space i m w \<Longrightarrow>
      \<exists>w'. step e w = Inr w' \<and> ready p w' \<and> fed xs w' \<and> space i m w' \<and> out w' = out w \<and> near 0 w w'"
    and piece: "ready p w \<Longrightarrow> reading e \<Longrightarrow> fed (x # xs) w \<Longrightarrow> space (length x + i) m w \<Longrightarrow> good r \<Longrightarrow> x \<noteq> [] \<Longrightarrow>
      strict_prefix (p @ x) (rendered r) \<Longrightarrow>
      \<exists>w'. step e w = Inr w' \<and> ready (p @ x) w' \<and> fed xs w' \<and> space i m w' \<and> out w' = out w \<and> near 1 w w'"
    and answered: "ready p w \<Longrightarrow> reading e \<Longrightarrow> fed (x # xs) w \<Longrightarrow> space (length x + i) (length (reply r) + m) w \<Longrightarrow> good r \<Longrightarrow> x \<noteq> [] \<Longrightarrow>
      p @ x = rendered r \<Longrightarrow>
      \<exists>w'. step e w = Inr w' \<and> ready [] w' \<and> fed xs w' \<and> space i m w' \<and> out w' = out w @ reply r \<and> near 1 w w'"
begin

lemma session_run:
  assumes "ready p w" "cut p rs xs" "\<And>r. r \<in> set rs \<Longrightarrow> good r" "length (filter reading es) = length xs" "fed xs w"
    and "space (length (concat xs)) (length (concat (map reply rs))) w"
  shows "\<exists>w'. run_events step es w = Inr w' \<and> ready (unfinished p rs xs) w' \<and>
    out w' = out w @ concat (map reply (finished p rs xs)) \<and> near (length xs) w w'"
  using assms
proof (induction es arbitrary: w p rs xs)
  case Nil
  then show ?case by (cases rs) (auto simp: near_refl)
next
  case (Cons e es)
  show ?case
  proof (cases "reading e")
    case False
    from idle [OF Cons.prems(1) False Cons.prems(5,6)] obtain w1 where
      w1: "step e w = Inr w1" "ready p w1" "fed xs w1" "space (length (concat xs)) (length (concat (map reply rs))) w1"
      "out w1 = out w" "near 0 w w1" by blast
    from Cons.IH [OF w1(2) Cons.prems(2,3) _ w1(3,4)] Cons.prems(4) False obtain w' where
      w': "run_events step es w1 = Inr w'" "ready (unfinished p rs xs) w'"
      "out w' = out w1 @ concat (map reply (finished p rs xs))" "near (length xs) w1 w'" by auto
    then show ?thesis using w1 near_trans [OF w1(6) w'(4)] by (intro exI [of _ w']) simp
  next
    case True
    then obtain x xs' where xs: "xs = x # xs'" using Cons.prems(4) by (cases xs) auto
    then obtain r rs' where rs: "rs = r # rs'" using Cons.prems(2) by (cases rs) auto
    have x: "x \<noteq> []" and r: "good r" using Cons.prems(2,3) xs rs by auto
    have num: "length (filter reading es) = length xs'" using Cons.prems(4) True xs by simp
    note fed = Cons.prems(5) [unfolded xs]
    show ?thesis
    proof (cases "p @ x = rendered r")
      case True
      have "space (length x + length (concat xs')) (length (reply r) + length (concat (map reply rs'))) w"
        using Cons.prems(6) xs rs by simp
      from answered [OF Cons.prems(1) \<open>reading e\<close> fed this r x True] obtain w1 where
        w1: "step e w = Inr w1" "ready [] w1" "fed xs' w1" "space (length (concat xs')) (length (concat (map reply rs'))) w1"
        "out w1 = out w @ reply r" "near 1 w w1" by blast
      have "cut [] rs' xs'" "\<And>r. r \<in> set rs' \<Longrightarrow> good r" using Cons.prems(2,3) xs rs True by simp_all
      from Cons.IH [OF w1(2) this num w1(3,4)] obtain w' where
        w': "run_events step es w1 = Inr w'" "ready (unfinished [] rs' xs') w'"
        "out w' = out w1 @ concat (map reply (finished [] rs' xs'))" "near (length xs') w1 w'" by blast
      then show ?thesis using w1 xs rs True near_trans [OF w1(6) w'(4)] by (intro exI [of _ w']) simp
    next
      case False
      then have pre: "strict_prefix (p @ x) (rendered r)" "cut (p @ x) rs xs'" using Cons.prems(2) xs rs by auto
      have "space (length x + length (concat xs')) (length (concat (map reply rs))) w" using Cons.prems(6) xs by simp
      from piece [OF Cons.prems(1) \<open>reading e\<close> fed this r x pre(1)] obtain w1 where
        w1: "step e w = Inr w1" "ready (p @ x) w1" "fed xs' w1" "space (length (concat xs')) (length (concat (map reply rs))) w1"
        "out w1 = out w" "near 1 w w1" by blast
      from Cons.IH [OF w1(2) pre(2) Cons.prems(3) num w1(3,4)] obtain w' where
        w': "run_events step es w1 = Inr w'" "ready (unfinished (p @ x) rs xs') w'"
        "out w' = out w1 @ concat (map reply (finished (p @ x) rs xs'))" "near (length xs') w1 w'" by blast
      then show ?thesis using w1 xs rs False near_trans [OF w1(6) w'(4)] by (intro exI [of _ w']) simp
    qed
  qed
qed

end

text \<open>The events of the socket provide it.\<close>

fun net_step :: "'u env \<Rightarrow> int \<Rightarrow> net_event \<Rightarrow> 'u world \<Rightarrow> 'u world result" where
  "net_step env tid Readable w = conn_handleRead env tid w"
| "net_step env tid Writable w = (if writing w then conn_handleWrite env tid w else Inr w)"

lemma net_run_events: "net_run env tid evs w = run_events (net_step env tid) evs w"
proof (induction evs arbitrary: w)
  case (Cons e evs)
  then have "net_run env tid evs = run_events (net_step env tid) evs" by (simp add: fun_eq_iff)
  then show ?case by (cases e) simp_all
qed simp

definition fed_by :: "'u env \<Rightarrow> string list \<Rightarrow> 'u world \<Rightarrow> bool" where
  "fed_by env xs w \<longleftrightarrow> writes_ok env \<and> feeds env (reads (w_sys w)) xs"

definition has_space :: "nat \<Rightarrow> nat \<Rightarrow> 'u world \<Rightarrow> bool" where
  "has_space i n w \<longleftrightarrow> in_room w + i \<le> vec_max_size \<and> room w + n \<le> vec_max_size"

lemma fed_byD:
  assumes "fed_by env (x # xs) w"
  shows "sys_readv env (w_sys w) = Inr x" "later 1 w w' \<Longrightarrow> fed_by env xs w'" "writes_ok env"
  using assms feeds_Cons(2) [of env "reads (w_sys w)" x xs] feeds_Cons(1) [of env "reads (w_sys w)" x xs "w_sys w"]
  by (auto simp: fed_by_def later_def)

lemma fed_by_later: "fed_by env xs w \<Longrightarrow> later 0 w w' \<Longrightarrow> fed_by env xs w'"
  by (simp add: fed_by_def later_def)

interpretation net: session "net_step (http_env (Suc n) h tid env) tid" "\<lambda>e. e = Readable" "\<lambda>r. servable r \<and> persistent h r"
    "answer h" "http_ready tid" "fed_by env" has_space "stream env" later for n h tid env
proof
  fix w :: "http_value world"
  show "later 0 w w" by (simp add: later_def beside_same)
next
  fix k l :: nat and u v w :: "http_value world"
  show "later k u v \<Longrightarrow> later l v w \<Longrightarrow> later (k + l) u w" by (rule later_trans)
next
  fix p e xs i n' and w :: "http_value world"
  assume w: "http_ready tid p w" "e \<noteq> Readable" "fed_by env xs w" "has_space i n' w"
  from ready_writable [OF w(1), of env "Suc n" h] w(3) obtain w' where
    "(if writing w then conn_handleWrite (http_env (Suc n) h tid env) tid w else Inr w) = Inr w'" "http_ready tid p w'"
    "stream env w' = stream env w" "room w' = room w" "in_room w' = in_room w" "later 0 w w'" by (auto simp: fed_by_def)
  then show "\<exists>w'. net_step (http_env (Suc n) h tid env) tid e w = Inr w' \<and> http_ready tid p w' \<and> fed_by env xs w' \<and>
      has_space i n' w' \<and> stream env w' = stream env w \<and> later 0 w w'"
    using w(2-4) fed_by_later by (intro exI [of _ w']) (cases e; simp add: has_space_def)
next
  fix p e x xs i n' r and w :: "http_value world"
  assume w: "http_ready tid p w" "e = Readable" "fed_by env (x # xs) w" "has_space (length x + i) n' w" "servable r \<and> persistent h r"
    "x \<noteq> []" "strict_prefix (p @ x) (rendered r)"
  have "in_room w + length x \<le> vec_max_size" using w(4) by (simp add: has_space_def)
  from read_piece [OF w(1) _ w(7,6) fed_byD(1) [OF w(3)] this, of n h] w(5) obtain w' where
    "conn_handleRead (http_env (Suc n) h tid env) tid w = Inr w'" "http_ready tid (p @ x) w'"
    "stream env w' = stream env w" "room w' = room w" "in_room w' \<le> in_room w + length x" "later 1 w w'" by blast
  then show "\<exists>w'. net_step (http_env (Suc n) h tid env) tid e w = Inr w' \<and> http_ready tid (p @ x) w' \<and> fed_by env xs w' \<and>
      has_space i n' w' \<and> stream env w' = stream env w \<and> later 1 w w'"
    using w(2,4) fed_byD(2) [OF w(3)] by (intro exI [of _ w']) (simp add: has_space_def)
next
  fix p e x xs i r n' and w :: "http_value world"
  assume w: "http_ready tid p w" "e = Readable" "fed_by env (x # xs) w" "has_space (length x + i) (length (answer h r) + n') w"
    "servable r \<and> persistent h r" "x \<noteq> []" "p @ x = rendered r"
  have "in_room w + length x \<le> vec_max_size" "room w + length (answer h r) \<le> vec_max_size" using w(4) by (simp_all add: has_space_def)
  from read_answered [OF w(1) _ w(7,6) fed_byD(1,3) [OF w(3)] _ this, of n] w(5) obtain w' where
    "conn_handleRead (http_env (Suc n) h tid env) tid w = Inr w'" "http_ready tid [] w'"
    "stream env w' = stream env w @ answer h r" "room w' \<le> room w + length (answer h r)"
    "in_room w' \<le> in_room w + length x" "later 1 w w'" by blast
  then show "\<exists>w'. net_step (http_env (Suc n) h tid env) tid e w = Inr w' \<and> http_ready tid [] w' \<and> fed_by env xs w' \<and>
      has_space i n' w' \<and> stream env w' = stream env w @ answer h r \<and> later 1 w w'"
    using w(2,4) fed_byD(2) [OF w(3)] by (intro exI [of _ w']) (simp add: has_space_def)
qed

text \<open>C3: An HTTP connection that stays open answers its requests, while no write fails: well-formed requests without a body
  (\<open>servable\<close>; no \<open>POST\<close>) arrive in any number of pieces, each inside one request, so that the next begins after the last is
  complete (\<open>cut\<close>; for a piece that reaches into a second request see \<open>pipelined_request_waits\<close>); each \<open>write\<close> takes at most the
  bytes it is given and never returns -1 (\<open>writes_ok\<close>; for the other case see \<open>write_error_garbage\<close>); the handler's answers are
  well-formed, from memory and do not close the connection (\<open>persistent\<close>); and the buffers stay below the vector's limit. Then after
  any run of readable and writable events, however the kernel splits the writes, the stream sent has grown by exactly the rendered
  responses of the handler to the complete requests, in their order; the parser holds what has arrived of the next one, and the
  connection is as ready as before.\<close>

theorem http_session:
  assumes "http_ready tid p w" "cut p rs xs" "\<And>r. r \<in> set rs \<Longrightarrow> servable r \<and> persistent h r"
    and "length (filter (\<lambda>e. e = Readable) evs) = length xs" "feeds env (reads (w_sys w)) xs" "writes_ok env"
    and "in_room w + length (concat xs) \<le> vec_max_size" "room w + length (concat (map (answer h) rs)) \<le> vec_max_size"
  shows "\<exists>w'. net_run (http_env (Suc n) h tid env) tid evs w = Inr w' \<and> http_ready tid (unfinished p rs xs) w' \<and>
    stream env w' = stream env w @ concat (map (answer h) (finished p rs xs)) \<and> later (length xs) w w'"
proof -
  have "fed_by env xs w" "has_space (length (concat xs)) (length (concat (map (answer h) rs))) w"
    using assms(5-8) by (simp_all add: fed_by_def has_space_def)
  from net.session_run [OF assms(1,2) assms(3) assms(4) this] show ?thesis by (simp add: net_run_events)
qed

text \<open>An established connection, a socket that takes at most three bytes at a time, and what it is fed.\<close>

definition ex_http :: "http_value world" where
  "ex_http = setContext (HttpContextValue HttpContext_init)
     (ex_world_of HttpOnMessage HttpOnConnection ServerRemoveConnection kReadEvent 0 [])"

definition ex_feed :: "string list \<Rightarrow> http_value env" where
  "ex_feed xs = \<lparr>sys_ret = \<lambda>h sc. (case sc of SysWrite fd d \<Rightarrow> (min 3 (int (length d)), 0) | _ \<Rightarrow> (-1, 11)),
     sys_readv = \<lambda>h. Inr (if reads h < length xs then xs ! reads h else []), region_then = \<lambda>h r. Some r, user = \<lambda>u w. Inr w\<rparr>"

definition ex_get :: "version \<Rightarrow> http_head" where
  "ex_get v = \<lparr>hd_method = ''GET'', hd_path = ''/'', hd_query = None, hd_version = v, hd_headers = []\<rparr>"

lemma ex_feed_ok: "feeds (ex_feed xs) 0 xs" "writes_ok (ex_feed xs)" "progress (ex_feed xs)"
  by (auto simp: feeds_def writes_ok_def progress_def ex_feed_def)

lemma ex_http_simps [simp]:
  "w_sys ex_http = []" "threadId ex_http = 7" "outputBuffer (w_conn ex_http) = ex_buf []" "length (store (ex_buf [])) = 8"
  "inputBuffer (w_conn ex_http) = Buffer_init kInitSize" "length (store (Buffer_init kInitSize)) < 2000"
  "c_socket (w_conn ex_http) = 9"
proof -
  show "w_sys ex_http = []" "threadId ex_http = 7" "outputBuffer (w_conn ex_http) = ex_buf []" "c_socket (w_conn ex_http) = 9"
    by (simp_all add: ex_http_def)
  show "inputBuffer (w_conn ex_http) = Buffer_init kInitSize"
    by (simp add: ex_http_def) (simp add: ex_world_of_def TcpConnection_init_def)
  show "length (store (ex_buf [])) = 8" "length (store (Buffer_init kInitSize)) < 2000"
    by (simp_all add: ex_buf_def Buffer_init_def kInitSize_def kCheapPrepend_def)
qed

lemma ex_http_stream [simp]: "stream env ex_http = []"
  using ex_buf_ok(2) [of "[]"] by (simp add: stream_def)

lemma ex_http_ready: "http_ready 7 [] ex_http"
proof -
  let ?v = "ex_world_of HttpOnMessage HttpOnConnection ServerRemoveConnection kReadEvent 0 []"
  have "streaming ?v" by (rule ex_streaming) (simp_all add: event_bits)
  then have "streaming ex_http" unfolding ex_http_def by (subst streaming_cong(1)) simp_all
  moreover have "sp_parse HttpContext_init [] = Inr (True, HttpContext_init, [])" "waiting HttpContext_init"
    by (simp_all add: sp_parse.simps waiting_def HttpContext_init_def)
  ultimately show ?thesis using buf_ok_default
    by (simp add: http_ready_def) (simp add: ex_http_def ex_world_of_def TcpConnection_init_def)
qed

lemma ex_get_ok: "servable (ex_get kHttp11)" "servable (ex_get kHttp10)" "persistent ex_handler (ex_get kHttp11)"
  "closeConnection (response_to ex_handler (head_request (ex_get kHttp10)))"
proof -
  show "servable (ex_get kHttp11)" "servable (ex_get kHttp10)" by code_simp+
  have "good_response (response_to ex_handler req)" for req unfolding response_to_def by (rule ex_handler_good)
  moreover have "\<not> isSendFile (response_to ex_handler (head_request (ex_get kHttp11)))"
    "\<not> closeConnection (response_to ex_handler (head_request (ex_get kHttp11)))" by code_simp+
  ultimately show "persistent ex_handler (ex_get kHttp11)" by (simp add: persistent_def)
  show "closeConnection (response_to ex_handler (head_request (ex_get kHttp10)))" by code_simp
qed

lemma http_session_witness:
  "\<exists>w'. net_run (http_env (Suc 0) ex_handler 7 (ex_feed [''GET / HT'', ''TP/1.1'' @ kCRLF @ kCRLF, ''GE''])) 7
      [Readable, Writable, Readable, Writable, Readable] ex_http = Inr w' \<and> http_ready 7 ''GE'' w' \<and>
    stream (ex_feed [''GET / HT'', ''TP/1.1'' @ kCRLF @ kCRLF, ''GE'']) w' =
      ''HTTP/1.1 200 OK'' @ kCRLF @ ''Content-Length: 2'' @ kCRLF @ ''Connection: Keep-Alive'' @ kCRLF @ kCRLF @ ''hi''"
proof -
  let ?xs = "[''GET / HT'', ''TP/1.1'' @ kCRLF @ kCRLF, ''GE'']" and ?rs = "[ex_get kHttp11, ex_get kHttp11]"
  let ?ans = "''HTTP/1.1 200 OK'' @ kCRLF @ ''Content-Length: 2'' @ kCRLF @ ''Connection: Keep-Alive'' @ kCRLF @ kCRLF @ ''hi''"
  have cut: "cut [] ?rs ?xs" "finished [] ?rs ?xs = [ex_get kHttp11]" "unfinished [] ?rs ?xs = ''GE''" by code_simp+
  have ans: "answer ex_handler (ex_get kHttp11) = ?ans" by code_simp
  have len: "length ?ans < 1000" "length (concat ?xs) < 1000" by code_simp+
  have ok: "servable r \<and> persistent ex_handler r" if "r \<in> set ?rs" for r using that ex_get_ok by auto
  have num: "length (filter (\<lambda>e. e = Readable) [Readable, Writable, Readable, Writable, Readable]) = length ?xs" by simp
  have feed: "feeds (ex_feed ?xs) (reads (w_sys ex_http)) ?xs" using ex_feed_ok(1) by simp
  have big: "(4000 :: nat) \<le> vec_max_size" and small: "in_room ex_http < 2000" "room ex_http = 8"
    by (simp_all add: vec_max_size_def)
  have "length (concat (map (answer ex_handler) ?rs)) = length ?ans + length ?ans"
    by (simp only: ans list.map concat.simps append_Nil2 length_append)
  with len big small have rooms: "in_room ex_http + length (concat ?xs) \<le> vec_max_size"
    "room ex_http + length (concat (map (answer ex_handler) ?rs)) \<le> vec_max_size" by linarith+
  from http_session [OF ex_http_ready cut(1) ok num feed ex_feed_ok(2) rooms, of 0, unfolded cut(2,3)] obtain w' where
    w': "net_run (http_env (Suc 0) ex_handler 7 (ex_feed ?xs)) 7 [Readable, Writable, Readable, Writable, Readable] ex_http = Inr w'"
    "http_ready 7 ''GE'' w'"
    "stream (ex_feed ?xs) w' = stream (ex_feed ?xs) ex_http @ concat (map (answer ex_handler) [ex_get kHttp11])" by blast
  have "stream (ex_feed ?xs) w' = ?ans"
    using w'(3) by (simp only: ans list.map concat.simps append_Nil2 append_Nil ex_http_stream)
  with w'(1,2) show ?thesis by blast
qed

section \<open>The last answer\<close>

text \<open>\<open>closeConnection\<close> on an idle connection shuts the socket down for writing.\<close>

lemma close_completes:
  assumes "streaming w" "\<not> writing w" "state_of w = kConnected" "threadId w = tid"
    and "writeCompleteCallback (w_conn w) = Some HttpClose"
  obtains w' where "call_write_complete (http_env (Suc n) h tid env) w = Inr w'" "streaming w'" "\<not> writing w'"
    "stream env w' = stream env w" "w_sys w' = w_sys w @ [SysShutdown (c_socket (w_conn w))]"
    "w_conn w' = (w_conn w)\<lparr>c_state := kDisConnecting\<rparr>" "threadId w' = tid"
proof -
  obtain c where c: "sock_channel w = Inr c" "\<not> isWriting c" using sock_channel_ok assms(1,2) by (auto simp: streaming_def)
  let ?v = "with_conn (\<lambda>c. c\<lparr>c_state := kDisConnecting\<rparr>) w"
  let ?w = "?v\<lparr>w_sys := w_sys w @ [SysShutdown (c_socket (w_conn w))]\<rparr>"
  have sock: "sock_channel ?v = Inr c" using c(1) by (simp add: sock_channel_def)
  have shut: "shutdownWrite (http_env n h tid env) ?v = ?w"
    by (simp add: shutdownWrite_def sys_call_def with_conn_def split_beta)
  have run: "call_write_complete (http_env (Suc n) h tid env) w = Inr ?w"
    using assms(3-5) sock shut c(2)
    by (simp add: call_write_complete_def http_closeConnection_def conn_shutdown_def runInLoop_def isInLoopThread_def shutdownInLoop_def Let_def)
  have sc: "streaming ?w = streaming w" "writing ?w = writing w" by (rule streaming_cong; simp)+
  have "stream env ?w = stream env w" by (simp add: stream_def with_conn_def taken_def)
  then show ?thesis using assms sc by (intro that [OF run]) (simp_all add: with_conn_def)
qed

text \<open>The last answer is on its way, or gone and the socket shut down.\<close>

definition closing :: "int \<Rightarrow> nat \<Rightarrow> http_value world \<Rightarrow> bool" where
  "closing tid k w \<longleftrightarrow> streaming w \<and> threadId w = tid \<and>
     (if writing w then state_of w = kConnected \<and> writeCompleteCallback (w_conn w) = Some HttpClose \<and> shutdowns (w_sys w) = k
      else state_of w = kDisConnecting \<and> shutdowns (w_sys w) = Suc k \<and> last (w_sys w) = SysShutdown (c_socket (w_conn w)))"

lemma closing_writable:
  assumes "closing tid k w" "writes_ok env"
  obtains w' where "(if writing w then conn_handleWrite (http_env (Suc n) h tid env) tid w else Inr w) = Inr w'"
    "closing tid k w'" "stream env w' = stream env w" "c_socket (w_conn w') = c_socket (w_conn w)"
    "writing w' \<Longrightarrow> writing w" "writing w' \<Longrightarrow> progress env \<Longrightarrow> waiting_bytes w' < waiting_bytes w"
proof (cases "writing w")
  case True
  then have w: "streaming w" "threadId w = tid" "state_of w = kConnected" "writeCompleteCallback (w_conn w) = Some HttpClose"
    "shutdowns (w_sys w) = k" using assms(1) by (auto simp: closing_def)
  have env: "writes_ok (http_env (Suc n) h tid env)" using assms(2) by simp
  show ?thesis
  proof (cases rule: handleWrite_cases [OF w(1) True env, of tid])
    case v: (1 v)
    note kD = keptD [OF v(6)]
    have st: "state_of v = kConnected" "threadId v = tid" "writeCompleteCallback (w_conn v) = Some HttpClose" using kD w by simp_all
    from close_completes [OF v(2,3) st, of n h env] obtain w' where
      w': "call_write_complete (http_env (Suc n) h tid env) v = Inr w'" "streaming w'" "\<not> writing w'"
      "stream env w' = stream env v" "w_sys w' = w_sys v @ [SysShutdown (c_socket (w_conn v))]"
      "w_conn w' = (w_conn v)\<lparr>c_state := kDisConnecting\<rparr>" "threadId w' = tid" by blast
    have "shutdowns (w_sys v) = k" using later_kept [OF v(6)] w(5) by (simp add: later_def)
    then have "closing tid k w'" using w' by (simp add: closing_def)
    then show ?thesis using w' v(1,4) kD True by (intro that [of w']) simp_all
  next
    case v: (2 v)
    have cl: "closing tid k v" using v keptD [OF v(6)] later_kept [OF v(6)] w by (simp add: closing_def later_def)
    have "content (outputBuffer (w_conn w)) \<noteq> []" using w(1) True by (simp add: streaming_def)
    then have "progress env \<Longrightarrow> waiting_bytes v < waiting_bytes w" using fewer_wait [OF _ v(7), of env] v(4) by simp
    with cl show ?thesis using v True keptD [OF v(6)] by (intro that [of v]) simp_all
  qed
next
  case False
  then show ?thesis by (intro that [of w]) (use assms in simp_all)
qed

lemma idle_writables: "\<not> writing w \<Longrightarrow> net_run env tid (replicate m Writable) w = Inr w"
  by (induction m) simp_all

lemma closing_run:
  assumes "closing tid k w" "writes_ok env"
  shows "\<exists>w'. net_run (http_env (Suc n) h tid env) tid (replicate m Writable) w = Inr w' \<and> closing tid k w' \<and>
    stream env w' = stream env w \<and> c_socket (w_conn w') = c_socket (w_conn w) \<and>
    (progress env \<longrightarrow> writing w' \<longrightarrow> waiting_bytes w' + m \<le> waiting_bytes w)"
  using assms(1)
proof (induction m arbitrary: w)
  case (Suc m)
  from closing_writable [OF Suc.prems assms(2), of n h] obtain w1 where
    "(if writing w then conn_handleWrite (http_env (Suc n) h tid env) tid w else Inr w) = Inr w1"
    "closing tid k w1" "stream env w1 = stream env w" "c_socket (w_conn w1) = c_socket (w_conn w)"
    "writing w1 \<Longrightarrow> writing w" "writing w1 \<Longrightarrow> progress env \<Longrightarrow> waiting_bytes w1 < waiting_bytes w" by blast
  moreover from Suc.IH [OF this(2)] obtain w' where "net_run (http_env (Suc n) h tid env) tid (replicate m Writable) w1 = Inr w'"
    "closing tid k w'" "stream env w' = stream env w1" "c_socket (w_conn w') = c_socket (w_conn w1)"
    "progress env \<longrightarrow> writing w' \<longrightarrow> waiting_bytes w' + m \<le> waiting_bytes w1" by blast
  moreover have "writing w' \<Longrightarrow> writing w1" if "net_run (http_env (Suc n) h tid env) tid (replicate m Writable) w1 = Inr w'" for w'
    using that by (cases "writing w1") (simp_all add: idle_writables)
  ultimately show ?case by fastforce
qed auto

text \<open>C27: When the handler's answer closes the connection, the answer is sent and then the socket is
  shut down for writing: whatever the kernel takes of each \<open>write\<close>, after any number of writable events the stream
  has grown by the answer, and either bytes still wait, the connection is open and no shutdown was
  made, or all bytes are with the kernel and the last system call was the one shutdown; the latter
  holds after as many events as bytes had to be sent, if the kernel takes something each time.\<close>

theorem http_close_after_answer:
  assumes "http_ready tid p w" "servable r" "p @ x = rendered r" "x \<noteq> []" "sys_readv env (w_sys w) = Inr x" "writes_ok env"
    and "good_response (response_to h (head_request r))" "\<not> isSendFile (response_to h (head_request r))"
      "closeConnection (response_to h (head_request r))"
    and "in_room w + length x \<le> vec_max_size" "room w + length (answer h r) \<le> vec_max_size"
  shows "\<exists>w'. net_run (http_env (Suc (Suc n)) h tid env) tid (Readable # replicate m Writable) w = Inr w' \<and>
    stream env w' = stream env w @ answer h r \<and>
    (if writing w' then state_of w' = kConnected \<and> shutdowns (w_sys w') = shutdowns (w_sys w)
     else content (outputBuffer (w_conn w')) = [] \<and> state_of w' = kDisConnecting \<and>
       shutdowns (w_sys w') = Suc (shutdowns (w_sys w)) \<and> last (w_sys w') = SysShutdown (c_socket (w_conn w))) \<and>
    (progress env \<longrightarrow> length (content (outputBuffer (w_conn w))) + length (answer h r) \<le> m \<longrightarrow> \<not> writing w')"
proof -
  have r': "p @ x = rendered r @ []" and comp: "completion (response_to h (head_request r)) None = Some HttpClose"
    using assms(3,8,9) by (auto simp: completion_def)
  obtain w1 where w1: "conn_handleRead (http_env (Suc (Suc n)) h tid env) tid w = Inr w1" "closing tid (shutdowns (w_sys w)) w1"
    "stream env w1 = stream env w @ answer h r" "c_socket (w_conn w1) = c_socket (w_conn w)"
    "\<exists>cs. w_sys w1 = w_sys w @ cs"
  proof (cases rule: read_last [OF assms(1,2) r' assms(4-7,10,11), of "Suc n"])
    case v: (1 v)
    from close_completes [OF v(2,3,8,9), of n h env] v(7) comp obtain u where
      u: "call_write_complete (http_env (Suc n) h tid env) v = Inr u" "streaming u" "\<not> writing u"
      "stream env u = stream env v" "w_sys u = w_sys v @ [SysShutdown (c_socket (w_conn v))]"
      "w_conn u = (w_conn v)\<lparr>c_state := kDisConnecting\<rparr>" "threadId u = tid" by auto
    have "getContext u = getContext v" by (simp add: getContext_def u(6))
    with v(6) have "getContext u = Some (HttpContextValue \<lparr>httpRequest = head_request r, ctx_state = kGotAll\<rparr>)" by simp
    from http_reset_ready [OF this assms(2)] obtain w1 where
      w1: "http_reset u = Inr w1" "w1 = setContext (HttpContextValue HttpContext_init) u" "streaming w1 = streaming u" "writing w1 = writing u"
      "stream env w1 = stream env u" by blast
    have "closing tid (shutdowns (w_sys w)) w1"
      using w1 u v(14) by (simp add: closing_def later_def)
    moreover obtain cs where "w_sys v = w_sys w @ cs" using v(14) by (auto simp: later_def)
    then have "\<exists>cs. w_sys w1 = w_sys w @ cs" using u(5) w1(2) by simp
    ultimately show ?thesis using v(1,4,14) u w1 by (intro that [of w1]) (simp_all add: later_def)
  next
    case v: (2 v)
    from http_reset_ready [OF v(6) assms(2)] obtain w1 where
      w1: "http_reset v = Inr w1" "w1 = setContext (HttpContextValue HttpContext_init) v" "streaming w1 = streaming v" "writing w1 = writing v"
      "stream env w1 = stream env v" by blast
    have "closing tid (shutdowns (w_sys w)) w1" using w1 v comp by (simp add: closing_def later_def)
    then show ?thesis using v(1,4,14) w1 by (intro that [of w1]) (simp_all add: later_def)
  qed
  from closing_run [OF w1(2) assms(6), of "Suc n" h m] obtain w' where
    w': "net_run (http_env (Suc (Suc n)) h tid env) tid (replicate m Writable) w1 = Inr w'" "closing tid (shutdowns (w_sys w)) w'"
    "stream env w' = stream env w1" "c_socket (w_conn w') = c_socket (w_conn w1)"
    "progress env \<longrightarrow> writing w' \<longrightarrow> waiting_bytes w' + m \<le> waiting_bytes w1" by blast
  have "streaming w'" using w'(2) by (simp add: closing_def)
  then have out: "writing w' \<longleftrightarrow> content (outputBuffer (w_conn w')) \<noteq> []" by (simp add: streaming_def)
  have "waiting_bytes w1 \<le> waiting_bytes w + length (answer h r)" using w1(3,5) by (rule waiting_grows)
  moreover have "writing w' \<Longrightarrow> 0 < waiting_bytes w'" using out by simp
  ultimately have "progress env \<Longrightarrow> waiting_bytes w + length (answer h r) \<le> m \<Longrightarrow> \<not> writing w'" using w'(5) by linarith
  then show ?thesis using w1 w' out by (intro exI [of _ w']) (auto simp: closing_def)
qed

lemma http_close_after_answer_witness:
  "\<exists>w'. net_run (http_env (Suc (Suc 0)) ex_handler 7 (ex_feed [rendered (ex_get kHttp10)])) 7 (Readable # replicate 1000 Writable) ex_http = Inr w' \<and>
    delivered (ex_feed [rendered (ex_get kHttp10)]) (w_sys w') = answer ex_handler (ex_get kHttp10) \<and>
    last (w_sys w') = SysShutdown 9"
proof -
  let ?r = "ex_get kHttp10"
  have x: "[] @ rendered ?r = rendered ?r" "rendered ?r \<noteq> []" by code_simp+
  have len: "length (answer ex_handler ?r) < 1000" "length (rendered ?r) < 1000" by code_simp+
  have got: "sys_readv (ex_feed [rendered ?r]) (w_sys ex_http) = Inr (rendered ?r)" by (simp add: ex_feed_def)
  have good: "good_response (response_to ex_handler (head_request ?r))" unfolding response_to_def by (rule ex_handler_good)
  have mem: "\<not> isSendFile (response_to ex_handler (head_request ?r))" by code_simp
  have "(4000 :: nat) \<le> vec_max_size" "in_room ex_http < 2000" "room ex_http = 8" by (simp_all add: vec_max_size_def)
  with len have rooms: "in_room ex_http + length (rendered ?r) \<le> vec_max_size" "room ex_http + length (answer ex_handler ?r) \<le> vec_max_size"
    by linarith+
  have "waiting_bytes ex_http = 0" using ex_buf_ok(2) [of "[]"] by simp
  then show ?thesis
    using http_close_after_answer [OF ex_http_ready ex_get_ok(2) x got ex_feed_ok(2) good mem ex_get_ok(4) rooms, of 0 1000] ex_feed_ok(3) len(1)
    unfolding ex_http_stream append_Nil by (fastforce simp: stream_def)
qed

section \<open>Files\<close>

text \<open>The head of a file's response: when its last byte is gone, \<open>sendFile\<close> runs as the completion.\<close>

definition heading :: "int \<Rightarrow> bool \<Rightarrow> send_file \<Rightarrow> http_value world \<Rightarrow> bool" where
  "heading tid cl f w \<longleftrightarrow> streaming w \<and> threadId w = tid \<and> writing w \<and>
     writeCompleteCallback (w_conn w) = Some (HttpSendFile cl f)"

lemma file_completion:
  assumes "writeCompleteCallback (w_conn w) = Some (HttpSendFile cl f)"
  shows "call_write_complete (http_env (Suc n) h tid env) w = Inl UseAfterFree"
  using assms by (simp add: call_write_complete_def http_sendFile_def bound_arg_def)

lemma heading_run:
  assumes "heading tid cl f w" "writes_ok env"
  shows "net_run (http_env (Suc n) h tid env) tid (replicate m Writable) w = Inl UseAfterFree \<or>
    (\<exists>w'. net_run (http_env (Suc n) h tid env) tid (replicate m Writable) w = Inr w' \<and> heading tid cl f w' \<and>
       (progress env \<longrightarrow> waiting_bytes w' + m \<le> waiting_bytes w))"
  using assms(1)
proof (induction m arbitrary: w)
  case (Suc m)
  then have w: "streaming w" "writing w" "threadId w = tid" "writeCompleteCallback (w_conn w) = Some (HttpSendFile cl f)"
    by (auto simp: heading_def)
  have env: "writes_ok (http_env (Suc n) h tid env)" using assms(2) by simp
  show ?case
  proof (cases rule: handleWrite_cases [OF w(1,2) env, of tid])
    case v: (1 v)
    have "writeCompleteCallback (w_conn v) = Some (HttpSendFile cl f)" using keptD(11) [OF v(6)] w(4) by simp
    then show ?thesis using w(2) v(1) by (simp add: file_completion)
  next
    case v: (2 v)
    have "heading tid cl f v" using v keptD [OF v(6)] w by (simp add: heading_def)
    moreover have "content (outputBuffer (w_conn w)) \<noteq> []" using w(1,2) by (simp add: streaming_def)
    then have "progress env \<Longrightarrow> waiting_bytes v < waiting_bytes w" using fewer_wait [OF _ v(7), of env] v(4) by simp
    ultimately show ?thesis using Suc.IH [of v] w(2) v(1) by fastforce
  qed
qed simp

text \<open>C28: A response with a file is never completed: when the last byte of its head is with the kernel,
  \<open>HttpServer::sendFile\<close> runs as the target of the connection's write-complete callback and assigns a new
  callback there, which destroys the target with the pointer to the file bound in it; then it
  uses that pointer. So after any number of events either the head is still on its way or the
  process has used freed memory; the latter after as many events as bytes had to be sent, if the kernel
  takes something each time.\<close>

theorem http_file_use_after_free:
  assumes "http_ready tid p w" "servable r" "p @ x = rendered r" "x \<noteq> []" "sys_readv env (w_sys w) = Inr x" "writes_ok env"
    and "good_response (response_to h (head_request r))" "isSendFile (response_to h (head_request r))"
    and "in_room w + length x \<le> vec_max_size" "room w + length (answer h r) \<le> vec_max_size"
  shows "net_run (http_env (Suc (Suc n)) h tid env) tid (Readable # replicate m Writable) w = Inl UseAfterFree \<or>
    (\<exists>w'. net_run (http_env (Suc (Suc n)) h tid env) tid (Readable # replicate m Writable) w = Inr w' \<and>
       content (outputBuffer (w_conn w')) \<noteq> [] \<and> \<not> (progress env \<and> waiting_bytes w + length (answer h r) \<le> m))"
proof -
  let ?resp = "response_to h (head_request r)"
  let ?cl = "closeConnection ?resp" and ?f = "the (resp_file ?resp)"
  have r': "p @ x = rendered r @ []" and comp: "completion ?resp None = Some (HttpSendFile ?cl ?f)"
    using assms(3,8) by (auto simp: completion_def)
  show ?thesis
  proof (cases rule: read_last [OF assms(1,2) r' assms(4-7,9,10), of "Suc n"])
    case v: (1 v)
    then have "call_write_complete (http_env (Suc n) h tid env) v = Inl UseAfterFree"
      using comp by (intro file_completion) simp
    then show ?thesis using v(1) by simp
  next
    case v: (2 v)
    from http_reset_ready [OF v(6) assms(2)] obtain w1 where
      w1: "http_reset v = Inr w1" "w1 = setContext (HttpContextValue HttpContext_init) v" "streaming w1 = streaming v" "writing w1 = writing v"
      by blast
    have "heading tid ?cl ?f w1" using w1 v comp by (simp add: heading_def)
    note run = heading_run [OF this assms(6), of "Suc n" h m]
    have "\<exists>cs. w_sys v = w_sys w @ cs" using v(14) by (simp add: later_def)
    from waiting_grows [OF v(4) this] have few: "waiting_bytes w1 \<le> waiting_bytes w + length (answer h r)" using w1(2) by simp
    have "content (outputBuffer (w_conn w')) \<noteq> []" if "heading tid ?cl ?f w'" for w'
      using that by (auto simp add: heading_def streaming_def)
    note out = this
    have read: "net_run (http_env (Suc (Suc n)) h tid env) tid (Readable # replicate m Writable) w =
        net_run (http_env (Suc (Suc n)) h tid env) tid (replicate m Writable) w1" using v(1) w1(1) by simp
    have short: "\<not> waiting_bytes w + length (answer h r) \<le> m"
      if "waiting_bytes w' + m \<le> waiting_bytes w1" "content (outputBuffer (w_conn w')) \<noteq> []" for w' :: "http_value world"
      using that few length_greater_0_conv [of "content (outputBuffer (w_conn w'))"] by linarith
    have "net_run (http_env (Suc (Suc n)) h tid env) tid (replicate m Writable) w1 = Inl UseAfterFree \<or>
      (\<exists>w'. net_run (http_env (Suc (Suc n)) h tid env) tid (replicate m Writable) w1 = Inr w' \<and>
         content (outputBuffer (w_conn w')) \<noteq> [] \<and> \<not> (progress env \<and> waiting_bytes w + length (answer h r) \<le> m))"
      using run out short by blast
    then show ?thesis by (simp only: read)
  qed
qed

text \<open>A handler that answers with a file; the kernel takes three bytes at a time.\<close>

definition ex_file_handler :: http_handler where
  "ex_file_handler req r = resp_sendFile (\<lambda>name. 11) (\<lambda>fd. 5) ''a.txt'' (setStatusString ''OK'' (setHttpStatusCode 200 r))"

lemma ex_file_good: "good_response (ex_file_handler req (HttpResponse_init False))" "isSendFile (ex_file_handler req r)"
proof -
  let ?r = "ex_file_handler req (HttpResponse_init False)"
  have "length (render_response 200 ?r 5) < 1000" "body_length ?r = 5" "statusCode ?r = Some 200" "resp_file ?r \<noteq> None" by code_simp+
  then show "good_response ?r" by (simp add: good_response_def)
  show "isSendFile (ex_file_handler req r)" by (simp add: ex_file_handler_def resp_sendFile_def)
qed

lemma http_file_use_after_free_witness:
  "net_run (http_env (Suc (Suc 0)) ex_file_handler 7 (ex_feed [rendered (ex_get kHttp11)])) 7 (Readable # replicate 1000 Writable) ex_http =
     Inl UseAfterFree"
proof -
  let ?r = "ex_get kHttp11"
  have x: "[] @ rendered ?r = rendered ?r" "rendered ?r \<noteq> []" by code_simp+
  have len: "length (answer ex_file_handler ?r) < 1000" "length (rendered ?r) < 1000" by code_simp+
  have got: "sys_readv (ex_feed [rendered ?r]) (w_sys ex_http) = Inr (rendered ?r)" by (simp add: ex_feed_def)
  have wants: "\<not> wants_close (head_request ?r)" by code_simp
  then have good: "good_response (response_to ex_file_handler (head_request ?r))"
    using ex_file_good(1) [of "head_request ?r"] by (simp add: response_to_def)
  have is_file: "isSendFile (response_to ex_file_handler (head_request ?r))" unfolding response_to_def by (rule ex_file_good(2))
  have "(4000 :: nat) \<le> vec_max_size" "in_room ex_http < 2000" "room ex_http = 8" by (simp_all add: vec_max_size_def)
  with len have rooms: "in_room ex_http + length (rendered ?r) \<le> vec_max_size" "room ex_http + length (answer ex_file_handler ?r) \<le> vec_max_size"
    by linarith+
  have "waiting_bytes ex_http = 0" using ex_buf_ok(2) [of "[]"] by simp
  then show ?thesis
    using http_file_use_after_free [OF ex_http_ready ex_get_ok(1) x got ex_feed_ok(2) good is_file rooms, of 0 1000] ex_feed_ok(3) len(1)
    by fastforce
qed

section \<open>A request behind another\<close>

lemma writables_kept:
  assumes "streaming w" "writeCompleteCallback (w_conn w) = None" "writes_ok env"
  shows "\<exists>w'. net_run env tid (replicate m Writable) w = Inr w' \<and> stream env w' = stream env w \<and> kept w w'"
  using assms(1,2)
proof (induction m arbitrary: w)
  case (Suc m)
  from writable_kept [OF Suc.prems assms(3), of tid] obtain w1 where
    w1: "(if writing w then conn_handleWrite env tid w else Inr w) = Inr w1" "streaming w1" "stream env w1 = stream env w" "kept w w1" by blast
  from Suc.IH [OF w1(2)] keptD(11) [OF w1(4)] Suc.prems(2) obtain w' where
    "net_run env tid (replicate m Writable) w1 = Inr w'" "stream env w' = stream env w1" "kept w1 w'" by auto
  then show ?case using w1 kept_trans [OF w1(4)] by auto
qed auto

text \<open>C29: A request that arrives in one piece with the one before it is not answered: \<open>onMessage\<close> looks for
  one request, leaves the bytes of the second, complete in the buffer, and comes back only when
  more bytes arrive; after any number of writable events the stream has grown by the first answer alone.\<close>

theorem pipelined_request_waits:
  assumes "http_ready tid p w" "servable r" "p @ x = rendered r @ rendered r2" "x \<noteq> []"
    and "sys_readv env (w_sys w) = Inr x" "writes_ok env" "persistent h r"
    and "in_room w + length x \<le> vec_max_size" "room w + length (answer h r) \<le> vec_max_size"
  shows "\<exists>w'. net_run (http_env (Suc n) h tid env) tid (Readable # replicate m Writable) w = Inr w' \<and>
    stream env w' = stream env w @ answer h r \<and> content (inputBuffer (w_conn w')) = rendered r2 \<and>
    getContext w' = Some (HttpContextValue HttpContext_init)"
proof -
  have good: "good_response (response_to h (head_request r))"
    and comp: "completion (response_to h (head_request r)) None = None"
    using assms(7) by (auto simp: persistent_def completion_def)
  obtain v where v: "conn_handleRead (http_env (Suc n) h tid env) tid w = http_reset v" "streaming v"
    "stream env v = stream env w @ answer h r" "content (inputBuffer (w_conn v)) = rendered r2" "writeCompleteCallback (w_conn v) = None"
    "getContext v = Some (HttpContextValue \<lparr>httpRequest = head_request r, ctx_state = kGotAll\<rparr>)"
  proof (cases rule: read_last [OF assms(1-6) good assms(8,9), of n])
    case v: (1 v)
    then have "call_write_complete (http_env n h tid env) v = Inr v" using comp by (simp add: call_write_complete_def)
    with v(1) have "conn_handleRead (http_env (Suc n) h tid env) tid w = http_reset v" by simp
    then show ?thesis by (rule that) (use v comp in simp_all)
  next
    case v: (2 v)
    show ?thesis by (rule that [OF v(1)]) (use v comp in simp_all)
  qed
  from http_reset_ready [OF v(6) assms(2)] obtain w1 where
    w1: "http_reset v = Inr w1" "w1 = setContext (HttpContextValue HttpContext_init) v" "streaming w1 = streaming v"
    "stream env w1 = stream env v" by blast
  have "streaming w1" "writeCompleteCallback (w_conn w1) = None" "writes_ok (http_env (Suc n) h tid env)"
    using w1 v(2,5) assms(6) by simp_all
  from writables_kept [OF this, of tid m] obtain w' where
    w': "net_run (http_env (Suc n) h tid env) tid (replicate m Writable) w1 = Inr w'" "stream env w' = stream env w1" "kept w1 w'" by auto
  have "getContext w' = getContext w1" using keptD(7) [OF w'(3)] by (simp add: getContext_def)
  then show ?thesis using v w1 w' keptD(6) [OF w'(3)] by (intro exI [of _ w']) simp
qed

lemma pipelined_request_waits_witness:
  "\<exists>w'. net_run (http_env (Suc 0) ex_handler 7 (ex_feed [rendered (ex_get kHttp11) @ rendered (ex_get kHttp10)])) 7
      (Readable # replicate 1000 Writable) ex_http = Inr w' \<and> content (inputBuffer (w_conn w')) = rendered (ex_get kHttp10)"
proof -
  let ?x = "rendered (ex_get kHttp11) @ rendered (ex_get kHttp10)"
  have x: "[] @ ?x = ?x" "?x \<noteq> []" by code_simp+
  have len: "length (answer ex_handler (ex_get kHttp11)) < 1000" "length ?x < 1000" by code_simp+
  have got: "sys_readv (ex_feed [?x]) (w_sys ex_http) = Inr ?x" by (simp add: ex_feed_def)
  have "(4000 :: nat) \<le> vec_max_size" "in_room ex_http < 2000" "room ex_http = 8" by (simp_all add: vec_max_size_def)
  with len have rooms: "in_room ex_http + length ?x \<le> vec_max_size" "room ex_http + length (answer ex_handler (ex_get kHttp11)) \<le> vec_max_size"
    by linarith+
  show ?thesis
    using pipelined_request_waits [OF ex_http_ready ex_get_ok(1) x got ex_feed_ok(2) ex_get_ok(3) rooms, of 0 1000] by blast
qed

section \<open>Sending from the write-complete callback\<close>

text \<open>An application that sends again whenever all is sent, on a socket that takes whatever it is given.\<close>

definition resend :: "string \<Rightarrow> int \<Rightarrow> 'u env \<Rightarrow> 'u \<Rightarrow> 'u world \<Rightarrow> 'u world result" where
  "resend s tid env u w = send_string env tid s w"

definition takes_all :: "'u env \<Rightarrow> bool" where
  "takes_all env \<longleftrightarrow> (\<forall>h fd d. fst (sys_ret env h (SysWrite fd d)) = int (length d))"

lemma send_all_taken:
  assumes "streaming w" "\<not> writing w" "state_of w = kConnected" "threadId w = tid" "takes_all env" "room w + length s \<le> vec_max_size"
  obtains w1 where "send_string env tid s w = call_write_complete env w1" "streaming w1" "\<not> writing w1" "w_conn w1 = w_conn w" "threadId w1 = tid"
proof -
  have run: "send_string env tid s w = sendInLoop env tid (c_str s) 0 (length s) w"
    using assms(3,4) by (simp add: send_string_def isInLoopThread_def)
  have mem: "mem_read (c_str s) 0 (length s) = Inr s" and zero: "(0 :: nat) < 2 ^ 63" using mem_read_suffix [of 0 s] by simp_all
  have env: "writes_ok env" using assms(5) by (simp add: takes_all_def writes_ok_def)
  show ?thesis
  proof (cases rule: send_idle [OF assms(1,3,2) mem zero assms(6) env, of tid])
    case (1 w1)
    then show ?thesis using run assms(4) keptD(1) [of w w1] by (intro that [of w1]) simp_all
  next
    case (2 w1)
    have "content (outputBuffer (w_conn w)) = []" using assms(1,2) by (simp add: streaming_def)
    then have "s @ content (outputBuffer (w_conn w1)) = s"
      using 2(4,7) assms(5) by (simp add: stream_def taken_def takes_all_def)
    then show ?thesis using 2(2,3) by (simp add: streaming_def)
  qed
qed

text \<open>C30: \<open>sendInLoop\<close> calls the write-complete callback from inside, where its comment says it does not, so
  that a callback which sends again, as the one of a server that sends without end, is called
  inside itself: on a socket that takes all it is given the first \<open>send\<close> never returns, and
  exhausts the stack however many calls it has room for.\<close>

theorem resend_overflows:
  assumes "streaming w" "\<not> writing w" "state_of w = kConnected" "threadId w = tid" "writeCompleteCallback (w_conn w) = Some u"
    and "takes_all env" "room w + length s \<le> vec_max_size"
  shows "send_string (nested n (resend s tid) env) tid s w = Inl StackOverflow"
  using assms(1-5,7)
proof (induction n arbitrary: w)
  case (0 w)
  have "takes_all (nested 0 (resend s tid) env)" using assms(6) by (simp add: takes_all_def)
  from send_all_taken [OF 0(1-4) this 0(6)] 0(5) show ?case by (fastforce simp: call_write_complete_def nested.simps)
next
  case (Suc n w)
  have "takes_all (nested (Suc n) (resend s tid) env)" using assms(6) by (simp add: takes_all_def)
  from send_all_taken [OF Suc.prems(1-4) this Suc.prems(6)] obtain w1 where
    w1: "send_string (nested (Suc n) (resend s tid) env) tid s w = call_write_complete (nested (Suc n) (resend s tid) env) w1"
    "streaming w1" "\<not> writing w1" "w_conn w1 = w_conn w" "threadId w1 = tid" by blast
  have "call_write_complete (nested (Suc n) (resend s tid) env) w1 = send_string (nested n (resend s tid) env) tid s w1"
    using w1(4) Suc.prems(5) by (simp add: call_write_complete_def resend_def)
  also have "\<dots> = Inl StackOverflow" using w1 Suc.prems by (intro Suc.IH) simp_all
  finally show ?case using w1(1) by simp
qed

definition ex_open :: "nat env" where
  "ex_open = ex_env\<lparr>sys_ret := \<lambda>h sc. (case sc of SysWrite fd d \<Rightarrow> (int (length d), 0) | _ \<Rightarrow> (-1, 11))\<rparr>"

lemma resend_overflows_witness:
  "send_string (nested 100000 (resend ''chargen'' 7) ex_open) 7 ''chargen'' (conn_setWriteCompleteCallback (Some 1) (ex_world kReadEvent 0 [])) =
     Inl StackOverflow"
proof -
  let ?w = "conn_setWriteCompleteCallback (Some 1) (ex_world kReadEvent 0 [])"
  have "streaming (ex_world kReadEvent 0 [])" by (rule ex_streaming) (simp_all add: event_bits)
  then have st: "streaming ?w" by (subst streaming_cong(1)) simp_all
  have wr: "\<not> writing ?w" by (subst streaming_cong(2) [of _ "ex_world kReadEvent 0 []"]) (simp_all add: event_bits)
  have "takes_all ex_open" by (simp add: takes_all_def ex_open_def)
  moreover have "room ?w + length ''chargen'' \<le> vec_max_size" by (simp add: vec_max_size_def)
  ultimately show ?thesis by (intro resend_overflows [OF st wr]) simp_all
qed

end
