(* ===== verification/InetAddr.thy ===== *)
theory InetAddr
  imports Decimal "HOL-Library.Word"
begin

text \<open>
  \<open>muduo/net/InetAddr.h\<close>, \<open>InetAddr.cc\<close>: the union of a \<open>sockaddr_in\<close> and a \<open>sockaddr_in6\<close> as its 28
  bytes on a little-endian machine: the family at 0, the port at 2 in network order, an IPv4 address
  at 4, an IPv6 address at 8. \<open>inet_pton\<close> and \<open>inet_ntop\<close> are defined for IPv4; for IPv6 they are the
  arguments \<open>pton6\<close> and \<open>ntop6\<close>.
\<close>

section \<open>Bytes\<close>

type_synonym byte = "8 word"

definition store16 :: "16 word \<Rightarrow> byte list" where
  "store16 w = [ucast w, ucast (drop_bit 8 w)]"

definition load16 :: "byte list \<Rightarrow> 16 word" where
  "load16 bs = or (ucast (bs ! 0)) (push_bit 8 (ucast (bs ! 1)))"

definition htons :: "16 word \<Rightarrow> 16 word" where
  "htons w = load16 (rev (store16 w))"

definition ntohs :: "16 word \<Rightarrow> 16 word" where
  "ntohs w = load16 (rev (store16 w))"

definition store32_be :: "32 word \<Rightarrow> byte list" where
  "store32_be w = [ucast (drop_bit 24 w), ucast (drop_bit 16 w), ucast (drop_bit 8 w), ucast w]"

definition put_at :: "nat \<Rightarrow> byte list \<Rightarrow> byte list \<Rightarrow> byte list" where
  "put_at off bs mem = take off mem @ bs @ drop (off + length bs) mem"

definition get_at :: "nat \<Rightarrow> nat \<Rightarrow> byte list \<Rightarrow> byte list" where
  "get_at off n mem = take n (drop off mem)"

lemma byte_high_bits [simp]: "\<not> bit (a :: byte) (8 + n)"
  using bit_imp_le_length [of a "8 + n"] by auto

lemma store16_bytes: "store16 (load16 [a, b]) = [a, b]"
  by (auto simp: store16_def load16_def intro!: bit_word_eqI simp: bit_simps)

lemma load_store16 [simp]: "load16 (store16 w) = w"
  by (auto simp: store16_def load16_def bit_simps intro!: bit_word_eqI)

lemma length_store16 [simp]: "length (store16 w) = 2"
  by (simp add: store16_def)

lemma length_store32_be [simp]: "length (store32_be w) = 4"
  by (simp add: store32_be_def)

lemma store16_htons: "store16 (htons w) = rev (store16 w)"
  by (simp add: htons_def store16_bytes store16_def [of w])

lemma ntohs_load: "ntohs (load16 [a, b]) = load16 [b, a]"
  by (simp add: ntohs_def store16_bytes)

lemma ntohs_htons [simp]: "ntohs (htons w) = w"
  by (simp add: ntohs_def store16_htons)

lemma length_put_at: "off + length bs \<le> length mem \<Longrightarrow> length (put_at off bs mem) = length mem"
  by (simp add: put_at_def)

lemma get_put_same: "off + length bs \<le> length mem \<Longrightarrow> n = length bs \<Longrightarrow> get_at off n (put_at off bs mem) = bs"
  by (simp add: get_at_def put_at_def)

lemma get_put_other:
  assumes "off + length bs \<le> length mem" "off' + n \<le> off \<or> off + length bs \<le> off'"
  shows "get_at off' n (put_at off bs mem) = get_at off' n mem"
  using assms(2)
proof
  assume "off' + n \<le> off"
  then show ?thesis using assms(1) by (simp add: get_at_def put_at_def take_drop)
next
  assume "off + length bs \<le> off'"
  then show ?thesis using assms(1) by (simp add: get_at_def put_at_def)
qed

section \<open>IPv4 addresses in text\<close>

fun split_on :: "char \<Rightarrow> string \<Rightarrow> string list" where
  "split_on sep [] = [[]]"
| "split_on sep (c # cs) =
     (if c = sep then [] # split_on sep cs
      else case split_on sep cs of [] \<Rightarrow> [[c]] | p # ps \<Rightarrow> (c # p) # ps)"

text \<open>What \<open>inet_pton\<close> accepts between the dots: a numeral up to 255 without leading zeros.\<close>

definition pton_octet :: "string \<Rightarrow> byte option" where
  "pton_octet p =
     (if p \<noteq> [] \<and> list_all is_digit p \<and> (1 < length p \<longrightarrow> hd p \<noteq> CHR ''0'') \<and> nat_of_digits p < 256
      then Some (of_nat (nat_of_digits p)) else None)"

definition inet_pton4 :: "string \<Rightarrow> byte list option" where
  "inet_pton4 s =
     (case map pton_octet (split_on (CHR ''.'') s) of
        [Some a, Some b, Some c, Some d] \<Rightarrow> Some [a, b, c, d]
      | _ \<Rightarrow> None)"

fun join_dots :: "string list \<Rightarrow> string" where
  "join_dots [] = []"
| "join_dots [p] = p"
| "join_dots (p # ps) = p @ CHR ''.'' # join_dots ps"

definition inet_ntop4 :: "byte list \<Rightarrow> string" where
  "inet_ntop4 bs = join_dots (map (\<lambda>b. show_nat (unat b)) bs)"

definition c_chars :: "string \<Rightarrow> string" where
  "c_chars s = takeWhile (\<lambda>c. c \<noteq> CHR 0x00) s"

lemma split_on_simple: "sep \<notin> set p \<Longrightarrow> split_on sep p = [p]"
  by (induction p) auto

lemma split_on_append: "sep \<notin> set p \<Longrightarrow> split_on sep (p @ sep # s) = p # split_on sep s"
  by (induction p) auto

lemma show_nat_no_dot: "CHR ''.'' \<notin> set (show_nat n)"
  using show_nat_digits [of "CHR ''.''" n] by auto

lemma show_nat_hd: "1 < length (show_nat n) \<Longrightarrow> hd (show_nat n) \<noteq> CHR ''0''"
proof (induction n rule: show_nat.induct)
  case (1 n)
  have big: "\<not> n < 10" using "1.prems" by (auto simp: show_nat.simps [of n])
  show ?case
  proof (cases "1 < length (show_nat (n div 10))")
    case True
    then show ?thesis using 1(1) [OF big] big by (simp add: show_nat.simps [of n])
  next
    case False
    then have small: "n div 10 < 10" using show_nat_bound [of "n div 10"] by (cases "show_nat (n div 10)") auto
    then have "show_nat (n div 10) = [digit_char (n div 10)]" by (simp add: show_nat.simps [of "n div 10"])
    moreover have "digit_char (n div 10) \<noteq> CHR ''0''"
      using digit_val_digit_char [OF small] big by (metis digit_val_zero div_greater_zero_iff less_numeral_extra(3) not_less zero_less_numeral)
    ultimately show ?thesis using big by (simp add: show_nat.simps [of n])
  qed
qed

lemma pton_octet_show [simp]: "pton_octet (show_nat (unat (b :: byte))) = Some b"
proof -
  have "unat b < 256" using unsigned_less [of b, where 'a = nat] by simp
  then show ?thesis using show_nat_hd [of "unat b"] show_nat_digits
    by (auto simp: pton_octet_def list_all_iff)
qed

lemma inet_pton_ntop: "length bs = 4 \<Longrightarrow> inet_pton4 (inet_ntop4 bs) = Some bs"
proof -
  assume "length bs = 4"
  then obtain a b c d where "bs = [a, b, c, d]" by (auto simp: numeral_eq_Suc length_Suc_conv)
  then show ?thesis
    by (simp add: inet_pton4_def inet_ntop4_def split_on_append split_on_simple show_nat_no_dot)
qed

lemma length_inet_ntop4:
  assumes "length bs = 4"
  shows "length (inet_ntop4 bs) \<le> 15"
proof -
  obtain a b c d where bs: "bs = [a, b, c, d]" using assms by (auto simp: numeral_eq_Suc length_Suc_conv)
  have octet: "length (show_nat (unat (x :: byte))) \<le> 3" for x
    using unsigned_less [of x, where 'a = nat] length_show_nat [of "unat x" 2] by simp
  show ?thesis using octet [of a] octet [of b] octet [of c] octet [of d] by (simp add: bs inet_ntop4_def)
qed

lemma c_chars_ntop4: "length bs = 4 \<Longrightarrow> c_chars (inet_ntop4 bs) = inet_ntop4 bs"
proof -
  assume "length bs = 4"
  then obtain a b c d where bs: "bs = [a, b, c, d]" by (auto simp: numeral_eq_Suc length_Suc_conv)
  have "CHR 0x00 \<notin> set (show_nat n)" for n using show_nat_digits [of "CHR 0x00" n] by auto
  then have "CHR 0x00 \<notin> set (inet_ntop4 bs)" by (simp add: bs inet_ntop4_def)
  then show ?thesis unfolding c_chars_def by (intro takeWhile_eq_all_conv [THEN iffD2]) auto
qed


section \<open>InetAddr\<close>

type_synonym inet_addr = "byte list"

definition AF_INET :: "16 word" where "AF_INET = 2"
definition AF_INET6 :: "16 word" where "AF_INET6 = 10"

definition INADDR_LOOPBACK :: "32 word" where "INADDR_LOOPBACK = 0x7F000001"
definition INADDR_ANY :: "32 word" where "INADDR_ANY = 0"

definition in6addr_loopback :: "byte list" where "in6addr_loopback = replicate 15 0 @ [1]"
definition in6addr_any :: "byte list" where "in6addr_any = replicate 16 0"

definition addr_size :: nat where "addr_size = 28"

text \<open>The union before the constructor body runs holds anything (\<open>junk\<close>); \<open>memset\<close> clears the member in use.\<close>

definition memset0 :: "nat \<Rightarrow> byte list \<Rightarrow> byte list" where
  "memset0 n mem = put_at 0 (replicate n 0) mem"

definition InetAddr_of_ip :: "(string \<Rightarrow> byte list option) \<Rightarrow> byte list \<Rightarrow> string \<Rightarrow> 16 word \<Rightarrow> bool \<Rightarrow> inet_addr" where
  "InetAddr_of_ip pton6 junk ip port ipv6 =
     (if ipv6 then
        let mem = memset0 28 junk;
            mem = put_at 0 (store16 AF_INET6) mem;
            mem = put_at 2 (store16 (htons port)) mem
        in (case pton6 (c_chars ip) of Some a \<Rightarrow> put_at 8 a mem | None \<Rightarrow> mem)
      else
        let mem = memset0 16 junk;
            mem = put_at 0 (store16 AF_INET) mem;
            mem = put_at 2 (store16 (htons port)) mem
        in (case inet_pton4 (c_chars ip) of Some a \<Rightarrow> put_at 2 a mem | None \<Rightarrow> mem))"

definition InetAddr_of_port :: "byte list \<Rightarrow> 16 word \<Rightarrow> bool \<Rightarrow> bool \<Rightarrow> inet_addr" where
  "InetAddr_of_port junk port loopBackOnly ipv6 =
     (if ipv6 then
        let mem = memset0 28 junk;
            mem = put_at 0 (store16 AF_INET6) mem;
            mem = put_at 2 (store16 (htons port)) mem
        in put_at 8 (if loopBackOnly then in6addr_loopback else in6addr_any) mem
      else
        let mem = memset0 16 junk;
            mem = put_at 0 (store16 AF_INET) mem;
            mem = put_at 2 (store16 (htons port)) mem
        in put_at 4 (store32_be (if loopBackOnly then INADDR_LOOPBACK else INADDR_ANY)) mem)"

definition addr_family :: "inet_addr \<Rightarrow> 16 word" where
  "addr_family a = load16 (get_at 0 2 a)"

definition addr_Ip :: "(byte list \<Rightarrow> string) \<Rightarrow> inet_addr \<Rightarrow> string" where
  "addr_Ip ntop6 a =
     (if addr_family a = AF_INET then inet_ntop4 (get_at 4 4 a)
      else if addr_family a = AF_INET6 then ntop6 (get_at 8 16 a)
      else [])"

definition addr_port :: "inet_addr \<Rightarrow> 16 word" where
  "addr_port a =
     (if addr_family a = AF_INET \<or> addr_family a = AF_INET6 then ntohs (load16 (get_at 2 2 a)) else 0)"

definition addr_IpPort :: "(byte list \<Rightarrow> string) \<Rightarrow> inet_addr \<Rightarrow> string" where
  "addr_IpPort ntop6 a = addr_Ip ntop6 a @ '':'' @ show_nat (unat (addr_port a))"

definition setSockAddrInet6 :: "byte list \<Rightarrow> inet_addr \<Rightarrow> inet_addr" where
  "setSockAddrInet6 addr6 a = put_at 0 addr6 a"

text \<open>The constructors from a \<open>sockaddr_in\<close> (16 bytes) and a \<open>sockaddr_in6\<close> (28 bytes), on memory that holds \<open>junk\<close>.\<close>

definition InetAddr_of_in :: "byte list \<Rightarrow> byte list \<Rightarrow> inet_addr" where
  "InetAddr_of_in junk sin = put_at 0 sin junk"

definition InetAddr_of_in6 :: "byte list \<Rightarrow> byte list \<Rightarrow> inet_addr" where
  "InetAddr_of_in6 junk sin6 = put_at 0 sin6 junk"

lemmas addr_defs = InetAddr_of_ip_def InetAddr_of_port_def addr_Ip_def addr_port_def addr_IpPort_def
  memset0_def addr_size_def in6addr_any_def in6addr_loopback_def

lemmas mem_simps = get_put_same get_put_other length_put_at Let_def

lemma AF_distinct [simp]: "AF_INET \<noteq> AF_INET6" "AF_INET6 \<noteq> AF_INET"
  by (simp_all add: AF_INET_def AF_INET6_def)

text \<open>A \<open>sockaddr_in\<close> determines what is read of the address; a \<open>sockaddr_in6\<close> is the whole of it.\<close>

lemma InetAddr_of_in_reads:
  assumes "length junk = addr_size" "length sin = 16" "load16 (take 2 sin) = AF_INET"
  shows "addr_family (InetAddr_of_in junk sin) = AF_INET" "addr_port (InetAddr_of_in junk sin) = ntohs (load16 (take 2 (drop 2 sin)))"
    "addr_Ip ntop6 (InetAddr_of_in junk sin) = inet_ntop4 (take 4 (drop 4 sin))"
  using assms by (simp_all add: InetAddr_of_in_def addr_family_def addr_port_def addr_Ip_def get_at_def put_at_def)

lemma InetAddr_of_in6_whole: "length junk = addr_size \<Longrightarrow> length sin6 = addr_size \<Longrightarrow> InetAddr_of_in6 junk sin6 = sin6"
  by (simp add: InetAddr_of_in6_def put_at_def)

lemma addr_family_put: "2 \<le> off \<Longrightarrow> off + length bs \<le> length mem \<Longrightarrow> addr_family (put_at off bs mem) = addr_family mem"
  by (simp add: addr_family_def mem_simps)

lemma addr_family_put0: "2 \<le> length mem \<Longrightarrow> addr_family (put_at 0 (store16 f) mem) = f"
  by (simp add: addr_family_def mem_simps)

text \<open>An address built from a port reports that port and its family, and as its IP the loopback
  or the unspecified address, for both families and whatever was in memory before.\<close>

theorem InetAddr_of_port_roundtrip:
  assumes "length junk = addr_size"
  shows "addr_port (InetAddr_of_port junk port lo v6) = port \<and>
    addr_family (InetAddr_of_port junk port lo v6) = (if v6 then AF_INET6 else AF_INET) \<and>
    addr_Ip ntop6 (InetAddr_of_port junk port lo v6) =
      (if v6 then ntop6 (if lo then in6addr_loopback else in6addr_any)
       else if lo then ''127.0.0.1'' else ''0.0.0.0'')"
proof (cases v6)
  case True
  then show ?thesis using assms by (auto simp: addr_defs mem_simps addr_family_put addr_family_put0)
next
  case False
  have lo: "inet_ntop4 (store32_be INADDR_LOOPBACK) = ''127.0.0.1''" by code_simp
  have any: "inet_ntop4 (store32_be INADDR_ANY) = ''0.0.0.0''" by code_simp
  show ?thesis using assms False by (auto simp: addr_defs mem_simps addr_family_put addr_family_put0 lo any)
qed

lemma InetAddr_of_port_roundtrip_witness:
  "addr_port (InetAddr_of_port (replicate 28 7) 8080 True False) = 8080 \<and>
   addr_Ip (\<lambda>_. []) (InetAddr_of_port (replicate 28 7) 8080 True False) = ''127.0.0.1''"
  using InetAddr_of_port_roundtrip [of "replicate 28 7" 8080 True False "\<lambda>_. []"] by (simp add: addr_size_def)

text \<open>The constructor from an IPv4 text writes the address over \<open>sin_port\<close> instead of \<open>sin_addr\<close>:
  the object built from \<open>a.b.c.d\<close> and a port reports port \<open>256 a + b\<close> and the address
  \<open>c.d.0.0\<close>, whatever the port was.\<close>

theorem InetAddr_ip_overwrites_port:
  assumes "length junk = addr_size"
  shows "addr_port (InetAddr_of_ip pton6 junk (inet_ntop4 [a, b, c, d]) port False) = load16 [b, a] \<and>
    addr_Ip ntop6 (InetAddr_of_ip pton6 junk (inet_ntop4 [a, b, c, d]) port False) = inet_ntop4 [c, d, 0, 0]"
proof -
  have pton: "inet_pton4 (c_chars (inet_ntop4 [a, b, c, d])) = Some [a, b, c, d]"
    by (simp add: c_chars_ntop4 inet_pton_ntop)
  let ?m = "put_at 2 (store16 (htons port)) (put_at 0 (store16 AF_INET) (memset0 16 junk))"
  have len: "length ?m = 28" using assms by (simp add: memset0_def addr_size_def length_put_at)
  have fam: "addr_family (put_at 2 [a, b, c, d] ?m) = AF_INET"
    using assms len by (simp add: addr_family_put addr_family_put0 memset0_def addr_size_def length_put_at)
  have port: "get_at 2 2 (put_at 2 [a, b, c, d] ?m) = [a, b]" using len by (simp add: get_at_def put_at_def)
  have "get_at 6 2 ?m = get_at 6 2 (memset0 16 junk)"
    using assms by (simp add: mem_simps memset0_def addr_size_def)
  also have "\<dots> = [0, 0]"
    by (simp add: memset0_def get_at_def put_at_def) (simp add: numeral_eq_Suc)
  finally have ip: "get_at 4 4 (put_at 2 [a, b, c, d] ?m) = [c, d, 0, 0]"
    using len by (simp add: get_at_def put_at_def)
  show ?thesis using pton fam port ip by (simp add: InetAddr_of_ip_def addr_port_def addr_Ip_def Let_def ntohs_load)
qed

lemma InetAddr_ip_overwrites_port_witness:
  "addr_port (InetAddr_of_ip (\<lambda>_. None) (replicate 28 7) (inet_ntop4 [10, 0, 2, 3]) 80 False) = load16 [0, 10] \<and>
   addr_Ip (\<lambda>_. []) (InetAddr_of_ip (\<lambda>_. None) (replicate 28 7) (inet_ntop4 [10, 0, 2, 3]) 80 False) = inet_ntop4 [2, 3, 0, 0]"
  using InetAddr_ip_overwrites_port [of "replicate 28 7" "\<lambda>_. None" 10 0 2 3 80 "\<lambda>_. []"] by (simp add: addr_size_def)

text \<open>\<open>IpPort\<close> is short when IPv6 texts fit their \<open>INET6_ADDRSTRLEN\<close>.\<close>

lemma length_IpPort:
  assumes "length a = addr_size" "\<And>bs. length (ntop6 bs) \<le> 45"
  shows "length (addr_IpPort ntop6 a) \<le> 51"
proof -
  have "length (get_at 4 4 a) = 4" using assms(1) by (simp add: get_at_def addr_size_def)
  then have ip: "length (addr_Ip ntop6 a) \<le> 45"
    using length_inet_ntop4 [of "get_at 4 4 a"] assms(2) by (simp add: addr_Ip_def)
  have "unat (addr_port a) < 10 ^ 5" using unsigned_less [of "addr_port a", where 'a = nat] by simp
  then have "length (show_nat (unat (addr_port a))) \<le> 5" using length_show_nat [of _ 4] by simp
  then show ?thesis using ip by (simp add: addr_IpPort_def)
qed

end
