(* ===== verification/Acceptor.thy ===== *)
theory Acceptor
  imports EventLoop InetAddr
begin

text \<open>
  \<open>muduo/net/Acceptor.h\<close>, \<open>Acceptor.cc\<close>, with what they call of \<open>Socket.cc\<close> and \<open>SocketOps.cc\<close>. The world extends
  the loop by the kernel's part: the descriptors of the process, their limit, the addresses and options of
  its sockets, and the connections waiting at the listening socket (or errors \<open>accept4\<close> will report
  for them), and by the acceptor's members. The new-connection callback is an argument, as a function on the world. The locale
  \<open>connection_handler\<close> is the acceptor's contract with it.
\<close>

section \<open>The kernel\<close>

datatype fd_kind = FdStream | FdListen | FdNull | FdSock inet_addr

datatype incoming = Peer inet_addr | AcceptErr int

record 'cb acc_world = "'cb loop" +
  k_fds :: "int \<rightharpoonup> fd_kind"
  k_limit :: nat
  k_pending :: "incoming list"
  k_bound :: "int \<rightharpoonup> inet_addr"
  k_opts :: "int \<Rightarrow> bool \<times> bool"
  k_refuses :: "bool \<times> bool \<Rightarrow> inet_addr \<Rightarrow> bool"
  k_no_listen :: "bool \<times> bool \<Rightarrow> inet_addr option \<Rightarrow> bool"
  a_socket :: int
  a_channel :: addr
  a_idlefd :: int

definition EAGAIN :: int where "EAGAIN = 11"
definition EBADF :: int where "EBADF = 9"
definition EMFILE :: int where "EMFILE = 24"
definition EINVAL :: int where "EINVAL = 22"
definition ENOTSOCK :: int where "ENOTSOCK = 88"

lemmas errno_defs = EAGAIN_def EBADF_def EMFILE_def EINVAL_def ENOTSOCK_def

text \<open>POSIX: a new descriptor is the lowest free one.\<close>

definition k_free :: "('cb, 'z) acc_world_scheme \<Rightarrow> int option" where
  "k_free w = find (\<lambda>n. k_fds w n = None) (map int [0..<k_limit w])"

definition k_close :: "int \<Rightarrow> ('cb, 'z) acc_world_scheme \<Rightarrow> ('cb, 'z) acc_world_scheme" where
  "k_close fd w = w\<lparr>k_fds := (k_fds w)(fd := None)\<rparr>"

text \<open>\<open>accept4\<close> on the non-blocking listening socket: the result, \<open>errno\<close> and the peer. Linux takes the new
  descriptor first: when none is free it reports \<open>EMFILE\<close>, whether or not a connection waits.\<close>

definition k_accept :: "int \<Rightarrow> ('cb, 'z) acc_world_scheme \<Rightarrow> int \<times> int \<times> inet_addr \<times> ('cb, 'z) acc_world_scheme" where
  "k_accept fd w =
     (let none = replicate addr_size 0 in
      if k_fds w fd = None then (-1, EBADF, none, w)
      else case k_free w of
        None \<Rightarrow> (-1, EMFILE, none, w)
      | Some n \<Rightarrow>
          if k_fds w fd = Some FdNull then (-1, ENOTSOCK, none, w)
          else if k_fds w fd \<noteq> Some FdListen then (-1, EINVAL, none, w)
          else case k_pending w of
            [] \<Rightarrow> (-1, EAGAIN, none, w)
          | AcceptErr e # rest \<Rightarrow> (-1, e, none, w\<lparr>k_pending := rest\<rparr>)
          | Peer p # rest \<Rightarrow> (n, 0, p, w\<lparr>k_fds := (k_fds w)(n \<mapsto> FdSock p), k_pending := rest\<rparr>))"

text \<open>\<open>socket\<close>, \<open>open\<close> of \<open>/dev/null\<close>, \<open>setsockopt\<close> with the options \<open>SO_REUSEADDR\<close> and \<open>SO_REUSEPORT\<close> (a pair),
  \<open>bind\<close> and \<open>listen\<close>, with their results. Which addresses the kernel refuses for a socket with given
  options (they are in use, say) is \<open>k_refuses\<close>; a socket that listens without an address gets
  one of the kernel's choice. For which options and address \<open>listen\<close> fails (another socket listens there, or
  there is no port to choose) is \<open>k_no_listen\<close>; on a socket that listens already it succeeds.\<close>

definition k_open :: "fd_kind \<Rightarrow> ('cb, 'z) acc_world_scheme \<Rightarrow> int \<times> ('cb, 'z) acc_world_scheme" where
  "k_open kind w =
     (case k_free w of
        None \<Rightarrow> (-1, w)
      | Some n \<Rightarrow> (n, w\<lparr>k_fds := (k_fds w)(n \<mapsto> kind), k_bound := (k_bound w)(n := None), k_opts := (k_opts w)(n := (False, False))\<rparr>))"

definition k_is_socket :: "int \<Rightarrow> ('cb, 'z) acc_world_scheme \<Rightarrow> bool" where
  "k_is_socket fd w \<longleftrightarrow> k_fds w fd = Some FdStream \<or> k_fds w fd = Some FdListen"

definition k_setsockopt :: "(bool \<times> bool \<Rightarrow> bool \<times> bool) \<Rightarrow> int \<Rightarrow> ('cb, 'z) acc_world_scheme \<Rightarrow> int \<times> ('cb, 'z) acc_world_scheme" where
  "k_setsockopt f fd w =
     (if k_is_socket fd w then (0, w\<lparr>k_opts := (k_opts w)(fd := f (k_opts w fd))\<rparr>) else (-1, w))"

definition k_bind :: "int \<Rightarrow> inet_addr \<Rightarrow> ('cb, 'z) acc_world_scheme \<Rightarrow> int \<times> ('cb, 'z) acc_world_scheme" where
  "k_bind fd addr w =
     (if k_is_socket fd w \<and> k_bound w fd = None \<and> \<not> k_refuses w (k_opts w fd) addr
      then (0, w\<lparr>k_bound := (k_bound w)(fd \<mapsto> addr)\<rparr>) else (-1, w))"

definition k_listen :: "int \<Rightarrow> ('cb, 'z) acc_world_scheme \<Rightarrow> int \<times> ('cb, 'z) acc_world_scheme" where
  "k_listen fd w =
     (if k_fds w fd = Some FdListen then (0, w)
      else if k_fds w fd = Some FdStream \<and> \<not> k_no_listen w (k_opts w fd) (k_bound w fd)
      then (0, w\<lparr>k_fds := (k_fds w)(fd \<mapsto> FdListen)\<rparr>)
      else (-1, w))"

section \<open>Operations\<close>

text \<open>Whatever the system calls return, these only write a log line.\<close>

definition createNonBlockSocketOrDie :: "('cb, 'z) acc_world_scheme \<Rightarrow> int \<times> ('cb, 'z) acc_world_scheme" where
  "createNonBlockSocketOrDie w = k_open FdStream w"

definition bindOrDie :: "int \<Rightarrow> inet_addr \<Rightarrow> ('cb, 'z) acc_world_scheme \<Rightarrow> ('cb, 'z) acc_world_scheme" where
  "bindOrDie fd addr w = (let (ret, w) = k_bind fd addr w in if ret < 0 then w else w)"

definition listenOrDie :: "int \<Rightarrow> ('cb, 'z) acc_world_scheme \<Rightarrow> ('cb, 'z) acc_world_scheme" where
  "listenOrDie fd w = (let (ret, w) = k_listen fd w in if ret < 0 then w else w)"

definition Socket_bindInetAddr :: "int \<Rightarrow> inet_addr \<Rightarrow> ('cb, 'z) acc_world_scheme \<Rightarrow> ('cb, 'z) acc_world_scheme" where
  "Socket_bindInetAddr sockfd localAddr w = bindOrDie sockfd localAddr w"

definition Socket_listen :: "int \<Rightarrow> ('cb, 'z) acc_world_scheme \<Rightarrow> ('cb, 'z) acc_world_scheme" where
  "Socket_listen sockfd w = listenOrDie sockfd w"

definition setReuseAddr :: "int \<Rightarrow> bool \<Rightarrow> ('cb, 'z) acc_world_scheme \<Rightarrow> ('cb, 'z) acc_world_scheme" where
  "setReuseAddr sockfd on w = (let (ret, w) = k_setsockopt (\<lambda>(_, port). (on, port)) sockfd w in w)"

definition setReusePort :: "int \<Rightarrow> bool \<Rightarrow> ('cb, 'z) acc_world_scheme \<Rightarrow> ('cb, 'z) acc_world_scheme" where
  "setReusePort sockfd on w = (let (ret, w) = k_setsockopt (\<lambda>(addr, _). (addr, on)) sockfd w in w)"

text \<open>\<open>sockets::accept\<close> keeps \<open>errno\<close> as it is on every branch.\<close>

definition sockets_accept :: "int \<Rightarrow> ('cb, 'z) acc_world_scheme \<Rightarrow> int \<times> int \<times> inet_addr \<times> ('cb, 'z) acc_world_scheme" where
  "sockets_accept fd w = k_accept fd w"

definition sockets_close :: "int \<Rightarrow> ('cb, 'z) acc_world_scheme \<Rightarrow> ('cb, 'z) acc_world_scheme" where
  "sockets_close fd w = k_close fd w"

definition Socket_accept :: "int \<Rightarrow> inet_addr \<Rightarrow> ('cb, 'z) acc_world_scheme \<Rightarrow> int \<times> int \<times> inet_addr \<times> ('cb, 'z) acc_world_scheme" where
  "Socket_accept sockfd peerAddr w =
     (let (conn, err, addr, w) = sockets_accept sockfd w in (conn, err, setSockAddrInet6 addr peerAddr, w))"

definition Socket_dtor :: "int \<Rightarrow> ('cb, 'z) acc_world_scheme \<Rightarrow> ('cb, 'z) acc_world_scheme" where
  "Socket_dtor sockfd w = sockets_close sockfd w"

text \<open>The constructor, with the channel at address \<open>a\<close>: the members in their order, then the body.\<close>

definition Acceptor_init :: "addr \<Rightarrow> 'cb \<Rightarrow> inet_addr \<Rightarrow> bool \<Rightarrow> ('cb, 'z) acc_world_scheme \<Rightarrow> ('cb, 'z) acc_world_scheme result" where
  "Acceptor_init a on_read addr reusePort w =
     (let (sock, w) = createNonBlockSocketOrDie w;
          w = new_Channel a sock (w\<lparr>a_socket := sock, a_channel := a\<rparr>);
          (idle, w) = k_open FdNull w;
          w = setReuseAddr (a_socket w) True (w\<lparr>a_idlefd := idle\<rparr>);
          w = setReusePort (a_socket w) reusePort w;
          w = Socket_bindInetAddr (a_socket w) addr w
      in rbind (chan_upd (chans w) a (setReadCallback on_read)) (\<lambda>m. Inr (w\<lparr>chans := m\<rparr>)))"

definition acc_listen :: "int \<Rightarrow> ('cb, 'z) acc_world_scheme \<Rightarrow> ('cb, 'z) acc_world_scheme result" where
  "acc_listen tid w = (let w = Socket_listen (a_socket w) w in enableReading tid (a_channel w) w)"

text \<open>The destructor's body, then those of the members \<open>acceptChannel_\<close> and \<open>acceptSocket_\<close>.\<close>

definition Acceptor_dtor :: "int \<Rightarrow> ('cb, 'z) acc_world_scheme \<Rightarrow> ('cb, 'z) acc_world_scheme result" where
  "Acceptor_dtor tid w =
     (let w = sockets_close (a_idlefd w) w in
      rbind (Channel_dtor tid (a_channel w) w) (\<lambda>w. Inr (Socket_dtor (a_socket w) w)))"

text \<open>The loop of \<open>handleRead\<close>: it ends with the \<open>errno\<close> of the failed \<open>accept\<close>. Fuel: one more than the
  pending connections is enough (\<open>accept_loop_hands\<close>).\<close>

fun accept_loop :: "nat \<Rightarrow> (int \<Rightarrow> inet_addr \<Rightarrow> ('cb, 'z) acc_world_scheme \<Rightarrow> ('cb, 'z) acc_world_scheme result) option \<Rightarrow>
    inet_addr \<Rightarrow> ('cb, 'z) acc_world_scheme \<Rightarrow> (int \<times> ('cb, 'z) acc_world_scheme) result option" where
  "accept_loop 0 cb peerAddr w = None"
| "accept_loop (Suc n) cb peerAddr w =
     (case Socket_accept (a_socket w) peerAddr w of (connfd, err, peerAddr, w) \<Rightarrow>
        if 0 \<le> connfd then
          (case (case cb of Some f \<Rightarrow> f connfd peerAddr w | None \<Rightarrow> Inr (k_close connfd w)) of
             Inl e \<Rightarrow> Some (Inl e)
           | Inr w \<Rightarrow> accept_loop n cb peerAddr w)
        else Some (Inr (err, w)))"

text \<open>The branch for \<open>EMFILE\<close>.\<close>

definition drop_one :: "('cb, 'z) acc_world_scheme \<Rightarrow> ('cb, 'z) acc_world_scheme" where
  "drop_one w =
     (let w = k_close (a_idlefd w) w;
          (fd, err, addr, w) = k_accept (a_socket w) w;
          w = w\<lparr>a_idlefd := fd\<rparr>
      in k_close (a_idlefd w) w)"

definition acc_handleRead :: "nat \<Rightarrow> (int \<Rightarrow> inet_addr \<Rightarrow> ('cb, 'z) acc_world_scheme \<Rightarrow> ('cb, 'z) acc_world_scheme result) option \<Rightarrow>
    inet_addr \<Rightarrow> ('cb, 'z) acc_world_scheme \<Rightarrow> ('cb, 'z) acc_world_scheme result option" where
  "acc_handleRead n cb junk w =
     map_option (\<lambda>r. rbind r (\<lambda>(err, w). Inr (if err = EMFILE then drop_one w else w))) (accept_loop n cb junk w)"

section \<open>Free descriptors\<close>

lemma k_free_Some:
  assumes "k_free w = Some n"
  shows "0 \<le> n" "n < int (k_limit w)" "k_fds w n = None"
  using assms by (auto simp: k_free_def find_Some_iff)

lemma k_free_None: "k_free w = None \<longleftrightarrow> (\<forall>n. 0 \<le> n \<longrightarrow> n < int (k_limit w) \<longrightarrow> k_fds w n \<noteq> None)"
proof
  show "\<forall>n. 0 \<le> n \<longrightarrow> n < int (k_limit w) \<longrightarrow> k_fds w n \<noteq> None" if "k_free w = None"
  proof (intro allI impI)
    fix n assume n: "0 \<le> n" "n < int (k_limit w)"
    then obtain k where k: "n = int k" using zero_le_imp_eq_int by blast
    then have "k < k_limit w" using n by simp
    then show "k_fds w n \<noteq> None" using that by (simp add: k k_free_def find_None_iff)
  qed
qed (simp add: k_free_def find_None_iff)

lemma find_unique: "P x \<Longrightarrow> x \<in> set xs \<Longrightarrow> (\<And>y. y \<in> set xs \<Longrightarrow> y \<noteq> x \<Longrightarrow> \<not> P y) \<Longrightarrow> find P xs = Some x"
  by (induction xs) (auto split: if_splits)

lemma k_free_only:
  assumes "k_free w = None" "0 \<le> n" "n < int (k_limit w)"
  shows "k_free (w\<lparr>k_fds := (k_fds w)(n := None)\<rparr>) = Some n"
proof -
  have "n \<in> set (map int [0..<k_limit w])" using assms(2,3) by (auto simp: image_iff intro!: bexI [of _ "nat n"])
  then show ?thesis using assms(1) unfolding k_free_def by (intro find_unique) (auto simp: find_None_iff split: if_splits)
qed

lemma setSockAddrInet6_all: "length a = addr_size \<Longrightarrow> length b = addr_size \<Longrightarrow> setSockAddrInet6 a b = a"
  by (simp add: setSockAddrInet6_def put_at_def)

section \<open>Handing connections over\<close>

text \<open>The contract of the new-connection callback: while there is \<open>room\<close> it takes a connection, records
  it in \<open>handed\<close> and leaves the kernel's part and the acceptor alone.\<close>

locale connection_handler =
  fixes cb :: "int \<Rightarrow> inet_addr \<Rightarrow> ('cb, 'z) acc_world_scheme \<Rightarrow> ('cb, 'z) acc_world_scheme result"
    and handed :: "('cb, 'z) acc_world_scheme \<Rightarrow> (int \<times> inet_addr) list"
    and room :: "('cb, 'z) acc_world_scheme \<Rightarrow> nat"
  assumes takes: "0 < room w \<Longrightarrow> \<exists>w'. cb fd p w = Inr w' \<and> handed w' = handed w @ [(fd, p)] \<and> room w = Suc (room w') \<and>
      k_fds w' = k_fds w \<and> k_limit w' = k_limit w \<and> k_pending w' = k_pending w \<and> a_socket w' = a_socket w \<and>
      a_idlefd w' = a_idlefd w"
    and kernel_only: "handed (w\<lparr>k_fds := fds, k_pending := ps\<rparr>) = handed w" "room (w\<lparr>k_fds := fds, k_pending := ps\<rparr>) = room w"

definition incoming_ok :: "('cb, 'z) acc_world_scheme \<Rightarrow> bool" where
  "incoming_ok w \<longleftrightarrow> (\<forall>i \<in> set (k_pending w). case i of Peer p \<Rightarrow> length p = addr_size | AcceptErr e \<Rightarrow> e \<noteq> EMFILE) \<and>
     k_fds w (a_socket w) = Some FdListen"

text \<open>Why the loop ended: nothing is left, no descriptor is free, or an error was reported.\<close>

definition loop_end :: "int \<Rightarrow> incoming list \<Rightarrow> ('cb, 'z) acc_world_scheme \<Rightarrow> bool" where
  "loop_end err rest w \<longleftrightarrow>
     rest = [] \<and> k_pending w = [] \<and> err = EAGAIN \<or>
     k_pending w = rest \<and> k_free w = None \<and> err = EMFILE \<or>
     (\<exists>ps. rest = AcceptErr err # ps \<and> k_pending w = ps)"

text \<open>\<open>new\<close> was accepted on the way from \<open>w\<close> to \<open>w'\<close>: on fresh descriptors of the process, in order.\<close>

definition accepted :: "(int \<times> inet_addr) list \<Rightarrow> ('cb, 'z) acc_world_scheme \<Rightarrow> ('cb, 'z) acc_world_scheme \<Rightarrow> bool" where
  "accepted new w w' \<longleftrightarrow> distinct (map fst new) \<and> (\<forall>fd \<in> fst ` set new. k_fds w fd = None \<and> 0 \<le> fd \<and> fd < int (k_limit w)) \<and>
     k_fds w' = k_fds w ++ map_of (map (\<lambda>(fd, p). (fd, FdSock p)) new)"

lemma accepted_Nil: "accepted [] w w' \<longleftrightarrow> k_fds w' = k_fds w"
  by (simp add: accepted_def)

lemma accepted_Cons:
  assumes "k_fds w fd = None" "0 \<le> fd" "fd < int (k_limit w)" "k_fds w1 = (k_fds w)(fd \<mapsto> FdSock p)" "k_limit w1 = k_limit w"
    and "accepted new w1 w'"
  shows "accepted ((fd, p) # new) w w'"
proof -
  have fresh: "fd \<notin> fst ` set new" "\<forall>g \<in> fst ` set new. k_fds w g = None"
    using assms(4,6) by (auto simp: accepted_def split: if_splits)
  then have "fd \<notin> dom (map_of (map (\<lambda>(fd, p). (fd, FdSock p)) new))" by (auto simp: dom_map_of_conv_image_fst image_image split_beta)
  then have "(k_fds w)(fd \<mapsto> FdSock p) ++ map_of (map (\<lambda>(fd, p). (fd, FdSock p)) new) =
      (k_fds w ++ map_of (map (\<lambda>(fd, p). (fd, FdSock p)) new))(fd \<mapsto> FdSock p)" by (rule map_add_upd_left)
  then show ?thesis using assms fresh by (auto simp: accepted_def)
qed

lemma accepted_fds:
  assumes "accepted new w w'"
  shows "fd \<in> fst ` set new \<Longrightarrow> k_fds w' fd \<noteq> None" "fd \<notin> fst ` set new \<Longrightarrow> k_fds w' fd = k_fds w fd"
    "k_fds w fd \<noteq> None \<Longrightarrow> k_fds w' fd = k_fds w fd"
proof -
  have fds: "k_fds w' = k_fds w ++ map_of (map (\<lambda>(fd, p). (fd, FdSock p)) new)" using assms by (simp add: accepted_def)
  have none: "map_of (map (\<lambda>(fd, p). (fd, FdSock p)) new) fd = None \<longleftrightarrow> fd \<notin> fst ` set new"
    by (force simp: map_of_eq_None_iff)
  show "fd \<in> fst ` set new \<Longrightarrow> k_fds w' fd \<noteq> None" using none unfolding fds by (auto simp: map_add_None)
  have other: "k_fds w' fd = k_fds w fd" if "fd \<notin> fst ` set new"
    using that none unfolding fds by (simp add: map_add_def)
  then show "fd \<notin> fst ` set new \<Longrightarrow> k_fds w' fd = k_fds w fd" .
  show "k_fds w' fd = k_fds w fd" if "k_fds w fd \<noteq> None"
  proof (rule other)
    show "fd \<notin> fst ` set new" using that assms by (auto simp: accepted_def)
  qed
qed

context connection_handler begin

lemma accept_loop_hands:
  assumes "length (k_pending w) < n" "length (k_pending w) \<le> room w" "incoming_ok w" "length junk = addr_size"
  shows "\<exists>err w' new. accept_loop n (Some cb) junk w = Some (Inr (err, w')) \<and> handed w' = handed w @ new \<and>
    accepted new w w' \<and> map (\<lambda>x. Peer (snd x)) new = take (length new) (k_pending w) \<and>
    loop_end err (drop (length new) (k_pending w)) w' \<and> k_limit w' = k_limit w \<and> a_socket w' = a_socket w \<and> a_idlefd w' = a_idlefd w"
  using assms
proof (induction n arbitrary: w junk)
  case (Suc n)
  have sock: "k_fds w (a_socket w) = Some FdListen" using Suc.prems(3) by (simp add: incoming_ok_def)
  note acc = Socket_accept_def sockets_accept_def k_accept_def sock Let_def
  show ?case
  proof (cases "k_free w")
    case None
    then show ?thesis
      by (intro exI [of _ EMFILE] exI [of _ w] exI [of _ "[]"]) (simp add: acc loop_end_def accepted_Nil)
  next
    case (Some fd)
    note free = this
    show ?thesis
    proof (cases "k_pending w")
      case Nil
      then show ?thesis using free
        by (intro exI [of _ EAGAIN] exI [of _ w] exI [of _ "[]"]) (simp add: acc loop_end_def accepted_Nil)
    next
      case (Cons i ps)
      show ?thesis
      proof (cases i)
        case (AcceptErr e)
        then show ?thesis using Cons free kernel_only [where w = w and fds = "k_fds w" and ps = ps]
          by (intro exI [of _ e] exI [of _ "w\<lparr>k_pending := ps\<rparr>"] exI [of _ "[]"]) (simp add: acc loop_end_def accepted_Nil)
      next
        case (Peer p)
        have lp: "length p = addr_size" using Suc.prems(3) Cons Peer by (auto simp: incoming_ok_def)
        note fd = k_free_Some [OF free]
        let ?w = "w\<lparr>k_fds := (k_fds w)(fd \<mapsto> FdSock p), k_pending := ps\<rparr>"
        have room: "room ?w = room w" "handed ?w = handed w" by (rule kernel_only)+
        then have "0 < room ?w" using Suc.prems(2) Cons by simp
        from takes [OF this, of fd p] obtain w1 where w1: "cb fd p ?w = Inr w1" "handed w1 = handed w @ [(fd, p)]"
          "room w = Suc (room w1)" "k_fds w1 = (k_fds w)(fd \<mapsto> FdSock p)" "k_limit w1 = k_limit w" "k_pending w1 = ps"
          "a_socket w1 = a_socket w" "a_idlefd w1 = a_idlefd w" using room by auto
        have "a_socket w \<noteq> fd" using sock fd(3) by auto
        then have ok1: "incoming_ok w1" using Suc.prems(3) Cons w1 sock by (simp add: incoming_ok_def)
        have loop: "accept_loop (Suc n) (Some cb) junk w = accept_loop n (Some cb) p w1"
          using Cons Peer free fd(1) w1(1) Suc.prems(4) lp by (simp add: acc setSockAddrInet6_all)
        have "length (k_pending w1) < n" "length (k_pending w1) \<le> room w1" using Suc.prems(1,2) Cons w1(3,6) by simp_all
        from Suc.IH [OF this ok1 lp] obtain err w' new where r: "accept_loop n (Some cb) p w1 = Some (Inr (err, w'))"
          "handed w' = handed w1 @ new" "accepted new w1 w'" "map (\<lambda>x. Peer (snd x)) new = take (length new) (k_pending w1)"
          "loop_end err (drop (length new) (k_pending w1)) w'" "k_limit w' = k_limit w1" "a_socket w' = a_socket w1"
          "a_idlefd w' = a_idlefd w1" by blast
        show ?thesis
          using r w1 Cons Peer loop accepted_Cons [OF fd(3,1,2) w1(4,5) r(3)]
          by (intro exI [of _ err] exI [of _ w'] exI [of _ "(fd, p) # new"]) simp
      qed
    qed
  qed
qed simp

end


text \<open>Whatever the callback keeps, the loop keeps.\<close>

lemma accept_loop_keeps:
  assumes "\<And>w junk c e p w1 w2. I w \<Longrightarrow> length junk = addr_size \<Longrightarrow> Socket_accept (a_socket w) junk w = (c, e, p, w1) \<Longrightarrow>
      0 \<le> c \<Longrightarrow> cb c p w1 = Inr w2 \<Longrightarrow> I w2 \<and> length p = addr_size"
    and "\<And>w junk c e p w1. I w \<Longrightarrow> length junk = addr_size \<Longrightarrow> Socket_accept (a_socket w) junk w = (c, e, p, w1) \<Longrightarrow>
      c < 0 \<Longrightarrow> I w1"
    and "accept_loop n (Some cb) junk w = Some (Inr (err, w'))" "length junk = addr_size" "I w"
  shows "I w'"
  using assms(3-)
proof (induction n arbitrary: junk w)
  case (Suc n)
  obtain c e p w1 where acc: "Socket_accept (a_socket w) junk w = (c, e, p, w1)" by (metis prod_cases4)
  show ?case
  proof (cases "0 \<le> c")
    case True
    with Suc.prems(1) acc obtain w2 where w2: "cb c p w1 = Inr w2" "accept_loop n (Some cb) p w2 = Some (Inr (err, w'))"
      by (auto split: sum.splits)
    from assms(1) [OF Suc.prems(3,2) acc True w2(1)] Suc.IH [OF w2(2)] show ?thesis by simp
  next
    case False
    then show ?thesis using assms(2) [OF Suc.prems(3,2) acc] Suc.prems(1) acc by simp
  qed
qed simp

text \<open>\<open>accept\<close> changes the descriptors and the waiting connections only.\<close>

lemma Socket_accept_cases:
  assumes "Socket_accept fd junk w = (c, e, p, w1)" "length junk = addr_size"
    and "\<forall>i \<in> set (k_pending w). case i of Peer p \<Rightarrow> length p = addr_size | AcceptErr e \<Rightarrow> True"
  shows "w1 = w\<lparr>k_fds := k_fds w1, k_pending := k_pending w1\<rparr> \<and> set (k_pending w1) \<subseteq> set (k_pending w) \<and>
    (0 \<le> c \<longrightarrow> length p = addr_size)"
proof (cases "k_fds w fd = Some FdListen \<and> (\<exists>n i rest. k_free w = Some n \<and> k_pending w = i # rest)")
  case True
  then obtain n i rest where "k_fds w fd = Some FdListen" "k_free w = Some n" "k_pending w = i # rest" by blast
  then show ?thesis using assms
    by (cases i) (auto simp: Socket_accept_def sockets_accept_def k_accept_def Let_def setSockAddrInet6_all)
next
  case False
  then have "w1 = w \<and> c = -1" using assms(1)
    by (auto simp: Socket_accept_def sockets_accept_def k_accept_def Let_def split: option.splits if_splits list.splits)
  then show ?thesis by simp
qed

section \<open>Out of descriptors\<close>

lemma k_accept_after_close:
  assumes "k_fds w (a_socket w) = Some FdListen" "a_idlefd w \<noteq> a_socket w" "0 \<le> a_idlefd w" "a_idlefd w < int (k_limit w)"
    and "k_free w = None" "k_pending w = Peer p # ps"
  shows "k_accept (a_socket w) (k_close (a_idlefd w) w) =
    (a_idlefd w, 0, p, w\<lparr>k_fds := (k_fds w)(a_idlefd w \<mapsto> FdSock p), k_pending := ps\<rparr>)"
  using assms k_free_only [OF assms(5,3,4)] by (simp add: k_accept_def k_close_def)

text \<open>The reserve is closed, and one waiting connection is dropped. \<open>idlefd_\<close> keeps the number of a
  closed descriptor.\<close>

lemma drop_one_eq:
  assumes "k_fds w (a_socket w) = Some FdListen" "a_idlefd w \<noteq> a_socket w" "0 \<le> a_idlefd w" "a_idlefd w < int (k_limit w)"
    and "k_free w = None" "k_pending w = Peer p # ps"
  shows "drop_one w = w\<lparr>k_fds := (k_fds w)(a_idlefd w := None), k_pending := ps\<rparr>"
  using k_accept_after_close [OF assms] unfolding drop_one_def Let_def by (simp add: k_close_def)

text \<open>When nothing waits or an error is reported, the second \<open>accept\<close> fails, too, and \<open>idlefd_\<close> becomes -1.\<close>

lemma drop_one_fails:
  assumes "k_fds w (a_socket w) = Some FdListen" "a_idlefd w \<noteq> a_socket w" "0 \<le> a_idlefd w" "a_idlefd w < int (k_limit w)"
    and "k_free w = None" "k_pending w = [] \<or> k_pending w = AcceptErr e # ps"
  shows "drop_one w = w\<lparr>k_fds := (k_fds w)(a_idlefd w := None, -1 := None), k_pending := tl (k_pending w), a_idlefd := -1\<rparr>"
  using assms(1,2,6) k_free_only [OF assms(5,3,4)] by (auto simp: drop_one_def k_accept_def k_close_def Let_def)

lemma drop_one_keeps:
  assumes "k_fds w (a_socket w) = Some FdListen" "a_idlefd w \<noteq> a_socket w" "0 \<le> a_idlefd w" "a_idlefd w < int (k_limit w)"
    and "k_free w = None"
  shows "\<exists>fds i. drop_one w = w\<lparr>k_fds := fds, k_pending := tl (k_pending w), a_idlefd := i\<rparr> \<and>
    (\<forall>fd. fd \<noteq> a_idlefd w \<longrightarrow> 0 \<le> fd \<longrightarrow> fds fd = k_fds w fd)"
proof -
  consider p ps where "k_pending w = Peer p # ps" | e ps where "k_pending w = [] \<or> k_pending w = AcceptErr e # ps"
    by (cases "k_pending w"; cases "hd (k_pending w)") auto
  then show ?thesis
  proof cases
    case (1 p ps)
    then show ?thesis unfolding drop_one_eq [OF assms 1]
      by (intro exI [of _ "(k_fds w)(a_idlefd w := None)"] exI [of _ "a_idlefd w"]) simp
  next
    case (2 e ps)
    then show ?thesis unfolding drop_one_fails [OF assms 2]
      by (intro exI [of _ "(k_fds w)(a_idlefd w := None, -1 := None)"] exI [of _ "-1"]) simp
  qed
qed

text \<open>Setting callbacks does not concern the poller.\<close>

lemma chans_ok_callback:
  assumes ok: "chans_ok l" and c: "chans l a = Some c" and fresh: "ch_index c = kNew"
    and same: "ch_fd c' = ch_fd c" "ch_index c' = ch_index c" "ch_loop c' = ch_loop c"
  shows "chans_ok (l\<lparr>chans := (chans l)(a \<mapsto> c')\<rparr>)"
proof -
  have pok: "poller_ok (chans l) (loop_poller l)" using ok by (simp add: chans_ok_def)
  have unmapped: "channel_map (loop_poller l) fd \<noteq> Some a" for fd
    using poller_okD(1) [OF pok, of fd a] c fresh by auto
  have "registered ((chans l)(a \<mapsto> c')) (loop_poller l) = registered (chans l) (loop_poller l)"
    using unmapped by (auto simp: registered_def fun_eq_iff split: option.splits)
  then have "poller_ok ((chans l)(a \<mapsto> c')) (loop_poller l)"
    using pok unmapped c fresh same unfolding poller_ok_def by auto
  then show ?thesis using ok c fresh same by (auto simp: chans_ok_def)
qed

section \<open>Starting\<close>

lemma Socket_listen_keeps [simp]:
  "chans (Socket_listen fd w) = chans w" "loop_poller (Socket_listen fd w) = loop_poller w" "loop_this (Socket_listen fd w) = loop_this w"
  "a_channel (Socket_listen fd w) = a_channel w" "a_idlefd (Socket_listen fd w) = a_idlefd w" "a_socket (Socket_listen fd w) = a_socket w"
  "k_bound (Socket_listen fd w) = k_bound w" "k_opts (Socket_listen fd w) = k_opts w" "chans_ok (Socket_listen fd w) = chans_ok w"
  by (simp_all add: Socket_listen_def listenOrDie_def k_listen_def chans_ok_def)

lemma Socket_listen_stream:
  "k_fds w fd = Some FdStream \<Longrightarrow> k_fds (Socket_listen fd w) =
     (k_fds w)(fd \<mapsto> if k_no_listen w (k_opts w fd) (k_bound w fd) then FdStream else FdListen)"
  by (auto simp: Socket_listen_def listenOrDie_def k_listen_def fun_upd_idem)

lemmas acceptor_start_defs = Acceptor_init_def createNonBlockSocketOrDie_def k_open_def new_Channel_def setReuseAddr_def setReusePort_def
  k_setsockopt_def k_is_socket_def Socket_bindInetAddr_def bindOrDie_def k_bind_def

text \<open>The members of a new acceptor.\<close>

lemma Acceptor_init_ok:
  assumes "chans_ok w" "chans w a = None" "k_free w = Some sock" "k_free (w\<lparr>k_fds := (k_fds w)(sock \<mapsto> FdStream)\<rparr>) = Some idle"
  obtains w1 where "Acceptor_init a on_read addr reusePort w = Inr w1" "k_fds w1 = (k_fds w)(sock \<mapsto> FdStream, idle \<mapsto> FdNull)"
    "a_socket w1 = sock" "a_idlefd w1 = idle" "a_channel w1 = a"
    "chans w1 = (chans w)(a \<mapsto> setReadCallback on_read (Channel_init (loop_this w) sock))" "loop_poller w1 = loop_poller w"
    "k_opts w1 sock = (True, reusePort)" "k_bound w1 sock = (if k_refuses w (True, reusePort) addr then None else Some addr)"
    "chans_ok w1" "interest_of w1 = interest_of w"
    "k_limit w1 = k_limit w" "k_pending w1 = k_pending w" "loop_this w1 = loop_this w" "k_no_listen w1 = k_no_listen w"
proof -
  let ?c = "setReadCallback on_read (Channel_init (loop_this w) sock)"
  let ?o = "(k_opts w)(sock := (False, False), idle := (False, False))"
  have diff: "sock \<noteq> idle" using k_free_Some(3) [OF assms(4)] by auto
  obtain w1 where w1: "Acceptor_init a on_read addr reusePort w = Inr w1" "k_fds w1 = (k_fds w)(sock \<mapsto> FdStream, idle \<mapsto> FdNull)"
    "a_socket w1 = sock" "a_idlefd w1 = idle" "a_channel w1 = a" "chans w1 = (chans w)(a \<mapsto> ?c)" "loop_poller w1 = loop_poller w"
    "loop_this w1 = loop_this w" "k_opts w1 sock = (True, reusePort)"
    "k_bound w1 sock = (if k_refuses w (True, reusePort) addr then None else Some addr)"
    "k_limit w1 = k_limit w" "k_pending w1 = k_pending w" "k_no_listen w1 = k_no_listen w"
  proof (rule that)
    let ?w1 = "w\<lparr>k_fds := (k_fds w)(sock \<mapsto> FdStream, idle \<mapsto> FdNull), a_socket := sock, a_idlefd := idle, a_channel := a,
      chans := (chans w)(a \<mapsto> ?c), k_opts := ?o(sock := (True, reusePort)),
      k_bound := (if k_refuses w (True, reusePort) addr then (k_bound w)(sock := None, idle := None)
        else (k_bound w)(sock := None, idle := None, sock \<mapsto> addr))\<rparr>"
    have second: "k_free v = Some idle" if "k_fds v = (k_fds w)(sock \<mapsto> FdStream)" "k_limit v = k_limit w" for v :: "('a, 'b) acc_world_scheme"
      using assms(4) that by (simp add: k_free_def)
    show "Acceptor_init a on_read addr reusePort w = Inr ?w1"
      using assms(3) diff by (simp add: acceptor_start_defs second Let_def fun_upd_twist)
  qed (use diff in simp_all)
  have "chans_ok (new_Channel a sock w)" using new_effect [OF assms(1,2)] by blast
  from chans_ok_callback [OF this, of a "Channel_init (loop_this w) sock" ?c]
  have "chans_ok (w\<lparr>chans := (chans w)(a \<mapsto> ?c)\<rparr>)" by (simp add: new_Channel_def Channel_init_def setReadCallback_def kNew_def)
  then have ok1: "chans_ok w1" using w1(6-8) by (simp add: chans_ok_def)
  have "channel_map (loop_poller w) fd \<noteq> Some a" for fd
    using assms(1,2) poller_okD(1) [of "chans w" "loop_poller w" fd a] by (auto simp: chans_ok_def)
  then have same: "interest_of w1 = interest_of w"
    using w1(6,7) by (auto simp: registered_def fun_eq_iff split: option.splits)
  show ?thesis using w1 ok1 same by (intro that [of w1]) simp_all
qed

text \<open>C22: Starting an acceptor in a process with two free descriptors \<open>sock\<close> and \<open>idle\<close>: the socket gets its options, it
  listens unless the kernel refuses even that, its channel reads in the loop, and nothing fails. The socket has the
  given address, unless the kernel refuses it: then \<open>bindOrDie\<close> does not die, and the server listens all the same, at
  an address of the kernel's choice. Neither does \<open>listenOrDie\<close>: when the kernel refuses, the channel reads
  on a socket that does not listen.\<close>

theorem acceptor_starts:
  assumes "chans_ok w" "chans w a = None" "k_free w = Some sock" "k_free (w\<lparr>k_fds := (k_fds w)(sock \<mapsto> FdStream)\<rparr>) = Some idle"
    and "channel_map (loop_poller w) sock = None"
  shows "\<exists>w1 w2. Acceptor_init a on_read addr reusePort w = Inr w1 \<and> acc_listen tid w1 = Inr w2 \<and>
    k_fds w2 = (k_fds w)(sock \<mapsto> if k_no_listen w (True, reusePort) (k_bound w2 sock) then FdStream else FdListen, idle \<mapsto> FdNull) \<and>
    a_socket w2 = sock \<and> a_idlefd w2 = idle \<and>
    k_opts w2 sock = (True, reusePort) \<and>
    k_bound w2 sock = (if k_refuses w (True, reusePort) addr then None else Some addr) \<and>
    chans_ok w2 \<and> interest_of w2 = (interest_of w)(sock \<mapsto> (kReadEvent, a))"
proof -
  let ?c = "setReadCallback on_read (Channel_init (loop_this w) sock)"
  have diff: "sock \<noteq> idle" using k_free_Some(3) [OF assms(4)] by auto
  obtain w1 where w1: "Acceptor_init a on_read addr reusePort w = Inr w1" "k_fds w1 = (k_fds w)(sock \<mapsto> FdStream, idle \<mapsto> FdNull)"
    "a_socket w1 = sock" "a_idlefd w1 = idle" "a_channel w1 = a" "chans w1 = (chans w)(a \<mapsto> ?c)" "loop_poller w1 = loop_poller w"
    "k_opts w1 sock = (True, reusePort)" "k_bound w1 sock = (if k_refuses w (True, reusePort) addr then None else Some addr)"
    and ok1: "chans_ok w1" and same: "interest_of w1 = interest_of w" and nl: "k_no_listen w1 = k_no_listen w"
    using Acceptor_init_ok [OF assms(1-4)] by metis
  let ?v = "Socket_listen sock w1"
  have v: "chans_ok ?v" "chans ?v a = Some ?c" "channel_map (loop_poller ?v) (ch_fd ?c) = None"
    using ok1 w1(6,7) assms(5) by (simp_all add: setReadCallback_def Channel_init_def)
  from with_events_effect [OF v(1,2), where f = "\<lambda>e. e OR kReadEvent" and tid = tid] v(3) obtain p where
    p: "with_events (\<lambda>e. e OR kReadEvent) tid a ?v = Inr (?v\<lparr>chans := (chans ?v)(a \<mapsto> after_events (\<lambda>e. e OR kReadEvent) ?c), loop_poller := p\<rparr>)"
    "chans_ok (?v\<lparr>chans := (chans ?v)(a \<mapsto> after_events (\<lambda>e. e OR kReadEvent) ?c), loop_poller := p\<rparr>)"
    and reg: "registered ((chans ?v)(a \<mapsto> after_events (\<lambda>e. e OR kReadEvent) ?c)) p =
      (interest_of ?v)(ch_fd ?c := if ch_index ?c = kAdded \<and> ch_events ?c OR kReadEvent = kNoneEvent then None
         else Some (ch_events ?c OR kReadEvent, a))" by blast
  have "ch_fd ?c = sock" "ch_index ?c \<noteq> kAdded" "ch_events ?c OR kReadEvent = kReadEvent"
    by (simp_all add: setReadCallback_def Channel_init_def index_defs event_bits)
  with reg same have interest: "registered ((chans ?v)(a \<mapsto> after_events (\<lambda>e. e OR kReadEvent) ?c)) p = (interest_of w)(sock \<mapsto> (kReadEvent, a))"
    by simp
  let ?w2 = "?v\<lparr>chans := (chans ?v)(a \<mapsto> after_events (\<lambda>e. e OR kReadEvent) ?c), loop_poller := p\<rparr>"
  have run: "acc_listen tid w1 = Inr ?w2" using p(1) w1(3,5) by (simp add: acc_listen_def enableReading_def)
  have "k_fds w1 sock = Some FdStream" using w1(2) diff by simp
  from Socket_listen_stream [OF this] have fds: "k_fds ?w2 = (k_fds w)(sock \<mapsto>
      if k_no_listen w (True, reusePort) (k_bound ?w2 sock) then FdStream else FdListen, idle \<mapsto> FdNull)"
    using w1(2,8) nl diff by (simp add: fun_upd_twist)
  show ?thesis
    by (intro exI [of _ w1] exI [of _ ?w2] conjI w1(1) run fds p(2)) (use w1 interest in simp_all)
qed

text \<open>An acceptor that has started to listen cannot be destroyed: its destructor leaves
  \<open>acceptChannel_\<close> registered, and the channel's destructor asserts that it is not.\<close>

theorem acceptor_dtor_aborts:
  assumes "acc_listen tid w = Inr w'" "chans_ok w"
  shows "Acceptor_dtor tid' w' = Inl AssertFail"
proof -
  let ?v = "Socket_listen (a_socket w) w"
  have run: "enableReading tid (a_channel w) ?v = Inr w'" and ok: "chans_ok ?v" using assms by (simp_all add: acc_listen_def)
  obtain c where c: "chans ?v (a_channel w) = Some c"
    using run by (auto simp: enableReading_def with_events_def rbind_eq_Inr chan_upd_Inr)
  have free: "channel_map (loop_poller ?v) (ch_fd c) = None" if "ch_index c = kNew"
    using run c that by (auto simp: enableReading_def with_events_def Channel_update_def
        loop_updateChannel_def rbind_eq_Inr ep_updateChannel_def Let_def)
  from with_events_effect [OF ok c free, where f = "\<lambda>e. e OR kReadEvent" and tid = tid] run
  obtain p where "w' = ?v\<lparr>chans := (chans ?v)(a_channel w \<mapsto> after_events (\<lambda>e. e OR kReadEvent) c), loop_poller := p\<rparr>"
    by (auto simp: enableReading_def)
  then have "chans w' (a_channel w') = Some (after_events (\<lambda>e. e OR kReadEvent) c)" by simp
  moreover have "addedToLoop (after_events f c)" for f by (simp add: after_events_def Let_def)
  ultimately show ?thesis
    by (auto simp: Acceptor_dtor_def Channel_dtor_def sockets_close_def k_close_def chan_deref_def Let_def require_def)
qed

text \<open>A process with three descriptors, one of them in use, a peer waiting, and an acceptor in it.\<close>

definition ex_peer :: "16 word \<Rightarrow> inet_addr" where
  "ex_peer port = InetAddr_of_port (replicate 28 0) port True False"

definition ex_process :: "(bool \<times> bool \<Rightarrow> inet_addr \<Rightarrow> bool) \<Rightarrow> nat acc_world" where
  "ex_process refuses = loop.extend ex_loop
     (acc_world.fields [2 \<mapsto> FdSock (ex_peer 7)] 3 [Peer (ex_peer 8)] Map.empty (\<lambda>_. (False, False)) refuses (\<lambda>_ _. False) 0 0 0)"

definition ex_acceptor :: "nat acc_world" where
  "ex_acceptor = (case Acceptor_init 200 1 (ex_peer 80) False (ex_process (\<lambda>_ _. False)) of Inr w \<Rightarrow> w)"

lemma ex_process_fields:
  "chans (ex_process rf) = chans ex_loop" "loop_poller (ex_process rf) = loop_poller ex_loop" "loop_this (ex_process rf) = loop_this ex_loop"
  "k_fds (ex_process rf) = [2 \<mapsto> FdSock (ex_peer 7)]" "k_limit (ex_process rf) = 3" "k_pending (ex_process rf) = [Peer (ex_peer 8)]"
  "k_refuses (ex_process rf) = rf" "k_no_listen (ex_process rf) = (\<lambda>_ _. False)"
  by (simp_all add: ex_process_def acc_world.defs loop.defs)

lemma ex_process_free:
  "chans_ok (ex_process rf)" "chans (ex_process rf) 200 = None" "k_free (ex_process rf) = Some 0"
  "k_free ((ex_process rf)\<lparr>k_fds := (k_fds (ex_process rf))(0 \<mapsto> FdStream)\<rparr>) = Some 1"
proof -
  have "[0..<3] = [0, 1, 2 :: nat]" by (simp add: numeral_eq_Suc)
  then show "k_free (ex_process rf) = Some 0" "k_free ((ex_process rf)\<lparr>k_fds := (k_fds (ex_process rf))(0 \<mapsto> FdStream)\<rparr>) = Some 1"
    by (simp_all add: k_free_def ex_process_fields)
  show "chans_ok (ex_process rf)" "chans (ex_process rf) 200 = None"
    using ex_loop_ok by (simp_all add: chans_ok_def ex_process_fields ex_loop_state)
qed

lemma ex_acceptor_state:
  "k_fds ex_acceptor = [2 \<mapsto> FdSock (ex_peer 7), 0 \<mapsto> FdStream, 1 \<mapsto> FdNull]" "k_limit ex_acceptor = 3"
  "k_pending ex_acceptor = [Peer (ex_peer 8)]" "a_socket ex_acceptor = 0" "a_idlefd ex_acceptor = 1"
  "a_channel ex_acceptor = 200" "chans ex_acceptor = (chans ex_loop)(200 \<mapsto> setReadCallback 1 (Channel_init 1 0))"
  "loop_poller ex_acceptor = loop_poller ex_loop" "loop_this ex_acceptor = loop_this ex_loop"
proof -
  let ?w = "ex_process (\<lambda>_ _. False)"
  have "chans_ok ?w" "chans ?w 200 = None" by (rule ex_process_free)+
  from Acceptor_init_ok [OF this ex_process_free(3,4), of 1 "ex_peer 80" False] obtain w1 where
    run: "Acceptor_init 200 1 (ex_peer 80) False ?w = Inr w1" and
    w1: "k_fds w1 = (k_fds ?w)(0 \<mapsto> FdStream, 1 \<mapsto> FdNull)" "k_limit w1 = k_limit ?w" "k_pending w1 = k_pending ?w"
      "a_socket w1 = 0" "a_idlefd w1 = 1" "a_channel w1 = 200"
      "chans w1 = (chans ?w)(200 \<mapsto> setReadCallback 1 (Channel_init (loop_this ?w) 0))"
      "loop_poller w1 = loop_poller ?w" "loop_this w1 = loop_this ?w" by metis
  have w: "ex_acceptor = w1" by (simp only: ex_acceptor_def run sum.case)
  show "k_fds ex_acceptor = [2 \<mapsto> FdSock (ex_peer 7), 0 \<mapsto> FdStream, 1 \<mapsto> FdNull]" "k_limit ex_acceptor = 3"
    "k_pending ex_acceptor = [Peer (ex_peer 8)]" "a_socket ex_acceptor = 0" "a_idlefd ex_acceptor = 1"
    "a_channel ex_acceptor = 200" "chans ex_acceptor = (chans ex_loop)(200 \<mapsto> setReadCallback 1 (Channel_init 1 0))"
    "loop_poller ex_acceptor = loop_poller ex_loop" "loop_this ex_acceptor = loop_this ex_loop"
    unfolding w w1 by (simp_all add: ex_process_fields ex_loop_state(3))
qed

lemma acceptor_starts_witness:
  "\<exists>w1 w2. Acceptor_init 200 1 (ex_peer 80) True (ex_process (\<lambda>_ addr. addr = ex_peer 80)) = Inr w1 \<and> acc_listen 7 w1 = Inr w2 \<and>
     k_fds w2 0 = Some FdListen \<and> k_bound w2 0 = None"
proof -
  let ?w = "ex_process (\<lambda>_ addr. addr = ex_peer 80)"
  have "channel_map (loop_poller ?w) 0 = None" by (simp add: ex_process_fields ex_loop_state)
  from acceptor_starts [OF ex_process_free this, of 1 "ex_peer 80" True 7] obtain w1 w2 where
    "Acceptor_init 200 1 (ex_peer 80) True ?w = Inr w1" "acc_listen 7 w1 = Inr w2" "k_fds w2 = (k_fds ?w)(0 \<mapsto> if k_no_listen ?w (True, True) (k_bound w2 0) then FdStream else FdListen, 1 \<mapsto> FdNull)"
    "k_bound w2 0 = (if k_refuses ?w (True, True) (ex_peer 80) then None else Some (ex_peer 80))" by blast
  moreover have "k_refuses ?w (True, True) (ex_peer 80)" "\<not> k_no_listen ?w (True, True) (k_bound w2 0)"
    by (simp_all add: ex_process_fields)
  ultimately show ?thesis by auto
qed

lemma acceptor_dtor_aborts_witness:
  "\<exists>w'. acc_listen 7 ex_acceptor = Inr w' \<and> Acceptor_dtor 7 w' = Inl AssertFail"
proof -
  let ?c = "setReadCallback (1 :: nat) (Channel_init 1 0)"
  have new: "chans ex_loop 200 = None" by (simp add: ex_loop_state)
  have "chans_ok (ex_loop\<lparr>chans := (chans ex_loop)(200 \<mapsto> ?c)\<rparr>)"
    using chans_ok_callback [of "new_Channel 200 0 ex_loop" 200 "Channel_init 1 0" ?c] new_effect [OF ex_loop_ok new, of 0]
    by (simp add: new_Channel_def ex_loop_state(3) Channel_init_def setReadCallback_def kNew_def)
  then have ok: "chans_ok ex_acceptor" by (simp add: chans_ok_def ex_acceptor_state)
  have c: "chans ex_acceptor 200 = Some ?c" by (simp add: ex_acceptor_state)
  have free: "channel_map (loop_poller ex_acceptor) (ch_fd ?c) = None"
    by (simp add: ex_acceptor_state ex_loop_state setReadCallback_def Channel_init_def)
  let ?v = "Socket_listen 0 ex_acceptor"
  have "chans_ok ?v" "chans ?v 200 = Some ?c" "channel_map (loop_poller ?v) (ch_fd ?c) = None" using ok c free by simp_all
  from with_events_effect [OF this(1,2), where f = "\<lambda>e. e OR kReadEvent" and tid = 7] this(3)
  obtain w' where "acc_listen 7 ex_acceptor = Inr w'" by (auto simp: acc_listen_def enableReading_def ex_acceptor_state)
  with acceptor_dtor_aborts [OF this ok] show ?thesis by blast
qed

end
