(* ===== verification/TcpServer.thy ===== *)
theory TcpServer
  imports Acceptor TcpConnection Atomic
begin

text \<open>
  \<open>muduo/net/TcpServer.h\<close>, \<open>TcpServer.cc\<close>, \<open>EventLoopThreadPool.h\<close>, \<open>EventLoopThreadPool.cc\<close>: the server extends
  the world of its acceptor by its members. Connections are those of \<open>TcpConnection\<close>, each with the loop
  that owns it. What the server hands to \<open>runInLoop\<close> or \<open>queueInLoop\<close> of a loop is recorded in order
  (\<open>srv_posted\<close>), and so is every descriptor \<open>newConnection\<close> received (\<open>srv_handed\<close>). \<open>started_\<close> is one
  byte. The text of IPv6 addresses (\<open>ntop6\<close>), the address of a new channel (\<open>alloc\<close>) and the
  closure \<open>removeConnection\<close> as a connection stores it (\<open>rm\<close>) are arguments.
\<close>

section \<open>The pool of loops\<close>

record loop_pool =
  lp_base :: addr
  lp_loops :: "addr list"
  lp_next :: int
  lp_numThreads :: int
  lp_name :: string
  lp_threadNames :: "string list"

definition EventLoopThreadPool_init :: "addr \<Rightarrow> string \<Rightarrow> loop_pool" where
  "EventLoopThreadPool_init base name =
     \<lparr>lp_base = base, lp_loops = [], lp_next = 0, lp_numThreads = 0, lp_name = name, lp_threadNames = []\<rparr>"

definition setThreadNum :: "int \<Rightarrow> loop_pool \<Rightarrow> loop_pool" where
  "setThreadNum n p = p\<lparr>lp_numThreads := n\<rparr>"

text \<open>\<open>start_loop i\<close> is the loop that the \<open>i\<close>-th \<open>EventLoopThread\<close> returns from \<open>startLoop\<close>.\<close>

definition pool_start :: "(nat \<Rightarrow> addr) \<Rightarrow> loop_pool \<Rightarrow> loop_pool" where
  "pool_start start_loop p =
     foldl (\<lambda>p i. p\<lparr>lp_threadNames := lp_threadNames p @ [snprintf_trunc (length (lp_name p) + 32) (c_chars (lp_name p) @ show_int (int i))],
                   lp_loops := lp_loops p @ [start_loop i]\<rparr>) p [0..<nat (lp_numThreads p)]"

definition getNextLoop :: "loop_pool \<Rightarrow> (addr \<times> loop_pool) result" where
  "getNextLoop p =
     (if lp_loops p \<noteq> [] then
        if 0 \<le> lp_next p \<and> nat (lp_next p) < length (lp_loops p) then
          let l = lp_loops p ! nat (lp_next p);
              next = lp_next p + 1
          in Inr (l, p\<lparr>lp_next := if int (length (lp_loops p)) \<le> next then 0 else next\<rparr>)
        else Inl OutOfBounds
      else Inr (lp_base p, p))"

text \<open>The loops that \<open>n\<close> calls return.\<close>

fun next_loops :: "nat \<Rightarrow> loop_pool \<Rightarrow> addr list result" where
  "next_loops 0 p = Inr []"
| "next_loops (Suc n) p = rbind (getNextLoop p) (\<lambda>(l, p). rbind (next_loops n p) (\<lambda>ls. Inr (l # ls)))"

definition pool_ok :: "loop_pool \<Rightarrow> bool" where
  "pool_ok p \<longleftrightarrow> lp_loops p = [] \<or> 0 \<le> lp_next p \<and> lp_next p < int (length (lp_loops p))"

lemma getNextLoop_ok:
  assumes "pool_ok p"
  obtains l p' where "getNextLoop p = Inr (l, p')" "pool_ok p'" "l \<in> insert (lp_base p) (set (lp_loops p))"
    "lp_loops p' = lp_loops p" "lp_base p' = lp_base p"
proof (cases "lp_loops p = []")
  case True
  then have "getNextLoop p = Inr (lp_base p, p)" by (simp add: getNextLoop_def)
  then show ?thesis by (rule that [OF _ assms]) simp_all
next
  case False
  then have bounds: "0 \<le> lp_next p" "nat (lp_next p) < length (lp_loops p)" using assms by (auto simp: pool_ok_def)
  let ?n = "if int (length (lp_loops p)) \<le> lp_next p + 1 then 0 else lp_next p + 1"
  have ok: "pool_ok (p\<lparr>lp_next := ?n\<rparr>)" using False bounds by (simp add: pool_ok_def)
  have get: "getNextLoop p = Inr (lp_loops p ! nat (lp_next p), p\<lparr>lp_next := ?n\<rparr>)"
    using False bounds by (simp add: getNextLoop_def Let_def)
  have "lp_loops p ! nat (lp_next p) \<in> insert (lp_base p) (set (lp_loops p))"
    using nth_mem [OF bounds(2)] by (rule insertI2)
  then show ?thesis by (rule that [OF get ok]) simp_all
qed

text \<open>C36: The pool hands its loops out in turn: whatever its position, \<open>n\<close> calls return the loops
  from there on cyclically, never reading outside of the vector.\<close>

theorem getNextLoop_round_robin:
  assumes "pool_ok p" "lp_loops p \<noteq> []"
  shows "next_loops n p = Inr (map (\<lambda>k. lp_loops p ! ((nat (lp_next p) + k) mod length (lp_loops p))) [0..<n])"
  using assms
proof (induction n arbitrary: p)
  case (Suc n)
  let ?len = "length (lp_loops p)"
  let ?n = "if int ?len \<le> lp_next p + 1 then 0 else lp_next p + 1"
  have bounds: "0 \<le> lp_next p" "nat (lp_next p) < ?len" using Suc.prems by (auto simp: pool_ok_def)
  have first: "getNextLoop p = Inr (lp_loops p ! nat (lp_next p), p\<lparr>lp_next := ?n\<rparr>)"
    using Suc.prems(2) bounds by (simp add: getNextLoop_def Let_def)
  have "pool_ok (p\<lparr>lp_next := ?n\<rparr>)" using Suc.prems(2) bounds by (simp add: pool_ok_def)
  from Suc.IH [OF this] Suc.prems(2)
  have rest: "next_loops n (p\<lparr>lp_next := ?n\<rparr>) = Inr (map (\<lambda>k. lp_loops p ! ((nat ?n + k) mod ?len)) [0..<n])" by simp
  have turn: "(nat ?n + k) mod ?len = (nat (lp_next p) + Suc k) mod ?len" for k
  proof (cases "int ?len \<le> lp_next p + 1")
    case True
    then have "nat (lp_next p) + Suc k = ?len + k" using bounds by simp
    then have "(nat (lp_next p) + Suc k) mod ?len = k mod ?len" by (simp only: mod_add_self1)
    then show ?thesis using True by simp
  next
    case False
    then have "nat (lp_next p + 1) = Suc (nat (lp_next p))" using bounds by simp
    then show ?thesis using False by simp
  qed
  have "map (\<lambda>k. lp_loops p ! ((nat ?n + k) mod ?len)) [0..<n] =
      map (\<lambda>k. lp_loops p ! ((nat (lp_next p) + k) mod ?len)) (map Suc [0..<n])"
    by (simp only: turn map_map o_def)
  also have "map Suc [0..<n] = [1..<Suc n]" by (simp add: map_Suc_upt)
  finally show ?case using first rest bounds(2) by (simp add: upt_rec [of 0] del: upt_Suc)
qed simp

lemma getNextLoop_round_robin_witness:
  "next_loops 5 ((EventLoopThreadPool_init 1 ''x'')\<lparr>lp_loops := [10, 20, 30], lp_next := 2\<rparr>) = Inr [30, 10, 20, 30, 10]"
proof -
  let ?p = "(EventLoopThreadPool_init 1 ''x'')\<lparr>lp_loops := [10, 20, 30], lp_next := 2\<rparr>"
  have "pool_ok ?p" "lp_loops ?p \<noteq> []" by (simp_all add: pool_ok_def EventLoopThreadPool_init_def)
  from getNextLoop_round_robin [OF this, of 5] show ?thesis
    by (simp add: EventLoopThreadPool_init_def upt_conv_Cons)
qed

section \<open>The server\<close>

record 'u server_conn =
  sc_loop :: addr
  sc_conn :: "'u conn"
  sc_localAddr :: inet_addr
  sc_peerAddr :: inet_addr

datatype server_task = AcceptorListen | ConnEstablishedIn string | RemoveInLoop string | ConnDestroyedIn string

datatype posted = RunIn addr server_task | QueueIn addr server_task

record ('u, 'cb) server = "'cb acc_world" +
  srv_name :: string
  srv_IpPort :: string
  srv_localAddr :: inet_addr
  srv_connCallback :: "'u option"
  srv_messageCallback :: "'u option"
  srv_writeCompleteCallback :: "'u option"
  srv_pool :: loop_pool
  srv_conns :: "string \<rightharpoonup> 'u server_conn"
  srv_nextConnId :: int
  srv_started :: "8 word"
  srv_posted :: "posted list"
  srv_handed :: "(int \<times> inet_addr) list"

definition conn_name :: "(byte list \<Rightarrow> string) \<Rightarrow> string \<Rightarrow> inet_addr \<Rightarrow> int \<Rightarrow> string" where
  "conn_name ntop6 name peer n =
     name @ snprintf_trunc 64 (''-'' @ c_chars (addr_IpPort ntop6 peer) @ ''#'' @ show_int n)"

definition make_conn :: "'u \<Rightarrow> addr \<Rightarrow> string \<Rightarrow> int \<Rightarrow> addr \<Rightarrow> inet_addr \<Rightarrow> ('u, 'cb) server \<Rightarrow> 'u server_conn" where
  "make_conn rm ioloop name sockfd a peer w =
     \<lparr>sc_loop = ioloop,
      sc_conn = (TcpConnection_init name sockfd a)\<lparr>connectionCallback := srv_connCallback w,
        c_closeCallback := Some rm, messageCallback := srv_messageCallback w, writeCompleteCallback := srv_writeCompleteCallback w, c_wcSet := 1\<rparr>,
      sc_localAddr = srv_localAddr w, sc_peerAddr = peer\<rparr>"

definition TcpServer_newConnection :: "(byte list \<Rightarrow> string) \<Rightarrow> (('u, 'cb) server \<Rightarrow> addr) \<Rightarrow> 'u \<Rightarrow> int \<Rightarrow> inet_addr \<Rightarrow>
    ('u, 'cb) server \<Rightarrow> ('u, 'cb) server result" where
  "TcpServer_newConnection ntop6 alloc rm sockfd peer w =
     (let name = conn_name ntop6 (srv_name w) peer (srv_nextConnId w) in
      rbind (require SignedOverflow (srv_nextConnId w < 2 ^ 31 - 1)) (\<lambda>_.
      let w = w\<lparr>srv_nextConnId := srv_nextConnId w + 1\<rparr> in
      rbind (getNextLoop (srv_pool w)) (\<lambda>(ioloop, pool).
      Inr (w\<lparr>srv_pool := pool, srv_conns := (srv_conns w)(name \<mapsto> make_conn rm ioloop name sockfd (alloc w) peer w),
           srv_posted := srv_posted w @ [RunIn ioloop (ConnEstablishedIn name)],
           srv_handed := srv_handed w @ [(sockfd, peer)]\<rparr>))))"

definition TcpServer_removeConnection :: "'u conn \<Rightarrow> ('u, 'cb) server \<Rightarrow> ('u, 'cb) server" where
  "TcpServer_removeConnection conn w = w\<lparr>srv_posted := srv_posted w @ [RunIn (loop_this w) (RemoveInLoop (c_name conn))]\<rparr>"

definition removeConnectionInLoop :: "'u server_conn \<Rightarrow> ('u, 'cb) server \<Rightarrow> ('u, 'cb) server" where
  "removeConnectionInLoop sc w =
     w\<lparr>srv_conns := (srv_conns w)(c_name (sc_conn sc) := None),
       srv_posted := srv_posted w @ [QueueIn (sc_loop sc) (ConnDestroyedIn (c_name (sc_conn sc)))]\<rparr>"

definition TcpServer_start :: "(nat \<Rightarrow> addr) \<Rightarrow> ('u, 'cb) server \<Rightarrow> ('u, 'cb) server" where
  "TcpServer_start start_loop w =
     (let (old, started) = getAndSet 1 (srv_started w);
          w = w\<lparr>srv_started := started\<rparr>
      in if old = 0
         then w\<lparr>srv_pool := pool_start start_loop (srv_pool w), srv_posted := srv_posted w @ [RunIn (loop_this w) AcceptorListen]\<rparr>
         else w)"

text \<open>The body of the destructor; the map is in the order of the names.\<close>

definition TcpServer_dtor :: "('u, 'cb) server \<Rightarrow> ('u, 'cb) server" where
  "TcpServer_dtor w =
     w\<lparr>srv_posted := srv_posted w @ map (\<lambda>k. RunIn (sc_loop (the (srv_conns w k))) (ConnDestroyedIn k))
         (sorted_list_of_set (dom (srv_conns w))), srv_conns := Map.empty\<rparr>"

definition TcpServer_init :: "(byte list \<Rightarrow> string) \<Rightarrow> string \<Rightarrow> inet_addr \<Rightarrow> 'u \<Rightarrow> 'cb acc_world \<Rightarrow> ('u, 'cb) server" where
  "TcpServer_init ntop6 name addr defaultConnCallback w =
     acc_world.extend w (server.fields name (addr_IpPort ntop6 addr) addr (Some defaultConnCallback) None None
       (EventLoopThreadPool_init (loop_this w) name) Map.empty 1 atomic_init [] [])"

definition srv_setThreadNum :: "int \<Rightarrow> ('u, 'cb) server \<Rightarrow> ('u, 'cb) server" where
  "srv_setThreadNum n w = w\<lparr>srv_pool := setThreadNum n (srv_pool w)\<rparr>"

definition srv_setConnectionCallback :: "'u option \<Rightarrow> ('u, 'cb) server \<Rightarrow> ('u, 'cb) server" where
  "srv_setConnectionCallback cb w = w\<lparr>srv_connCallback := cb\<rparr>"

definition srv_setMessageCallback :: "'u option \<Rightarrow> ('u, 'cb) server \<Rightarrow> ('u, 'cb) server" where
  "srv_setMessageCallback cb w = w\<lparr>srv_messageCallback := cb\<rparr>"

definition srv_setWriteCompleteCallback :: "'u option \<Rightarrow> ('u, 'cb) server \<Rightarrow> ('u, 'cb) server" where
  "srv_setWriteCompleteCallback cb w = w\<lparr>srv_writeCompleteCallback := cb\<rparr>"

section \<open>Names\<close>

lemma hash_suffix:
  assumes "xs @ c # ds = ys @ c # es" "c \<notin> set ds" "c \<notin> set es"
  shows "ds = es"
proof -
  have "takeWhile (\<lambda>x. x \<noteq> c) (rev zs @ c # r) = rev zs" if "c \<notin> set zs" for zs r
  proof -
    have "\<forall>x \<in> set (rev zs). x \<noteq> c" using that by auto
    then show ?thesis by (subst takeWhile_append2) auto
  qed
  from this [of ds "rev xs"] this [of es "rev ys"] assms have "rev ds = rev es"
    by (metis append.assoc append_Cons append_Nil rev.simps(2) rev_append)
  then show ?thesis by simp
qed

lemma hash_not_digit: "CHR ''#'' \<notin> set (show_nat n)"
  using show_nat_digits [of "CHR ''#''" n] by (auto simp: is_digit_code)

definition names_short :: "(byte list \<Rightarrow> string) \<Rightarrow> bool" where
  "names_short ntop6 \<longleftrightarrow> (\<forall>bs. length (ntop6 bs) \<le> 45)"

text \<open>The buffer of 64 characters holds the longest name.\<close>

lemma conn_name_eq:
  assumes "names_short ntop6" "length peer = addr_size" "1 \<le> n" "n < 2 ^ 31"
  shows "conn_name ntop6 name peer n = name @ ''-'' @ c_chars (addr_IpPort ntop6 peer) @ ''#'' @ show_nat (nat n)"
proof -
  have "length (addr_IpPort ntop6 peer) \<le> 51" using assms(1,2) by (intro length_IpPort) (auto simp: names_short_def)
  then have ip: "length (c_chars (addr_IpPort ntop6 peer)) \<le> 51"
    using length_takeWhile_le [of _ "addr_IpPort ntop6 peer"] unfolding c_chars_def by (rule order_trans [rotated])
  have "nat n < 10 ^ Suc 9" using assms(4) by simp
  from length_show_nat [OF this] ip show ?thesis using assms(3) by (simp add: conn_name_def show_int_def)
qed

text \<open>The names in the map are those given out so far.\<close>

definition names_ok :: "('u, 'cb) server \<Rightarrow> bool" where
  "names_ok w \<longleftrightarrow> 1 \<le> srv_nextConnId w \<and> pool_ok (srv_pool w) \<and>
     (\<forall>k sc. srv_conns w k = Some sc \<longrightarrow> c_name (sc_conn sc) = k \<and>
        (\<exists>pre n. 1 \<le> n \<and> n < srv_nextConnId w \<and> k = pre @ CHR ''#'' # show_nat (nat n)))"

inductive srv_step :: "(byte list \<Rightarrow> string) \<Rightarrow> (('u, 'cb) server \<Rightarrow> addr) \<Rightarrow> 'u \<Rightarrow> ('u, 'cb) server \<Rightarrow> ('u, 'cb) server \<Rightarrow> bool"
  for ntop6 alloc rm where
  connect: "length peer = addr_size \<Longrightarrow> TcpServer_newConnection ntop6 alloc rm fd peer w = Inr w' \<Longrightarrow> srv_step ntop6 alloc rm w w'"
| request: "srv_step ntop6 alloc rm w (TcpServer_removeConnection c w)"
| removal: "srv_step ntop6 alloc rm w (removeConnectionInLoop sc w)"
| kernel: "srv_step ntop6 alloc rm w (w\<lparr>k_fds := fds, k_pending := ps, a_idlefd := i\<rparr>)"

inductive srv_reach :: "(byte list \<Rightarrow> string) \<Rightarrow> (('u, 'cb) server \<Rightarrow> addr) \<Rightarrow> 'u \<Rightarrow> ('u, 'cb) server \<Rightarrow> ('u, 'cb) server \<Rightarrow> bool"
  for ntop6 alloc rm w0 where
  begin_ok: "srv_reach ntop6 alloc rm w0 w0"
| step: "srv_reach ntop6 alloc rm w0 w \<Longrightarrow> srv_step ntop6 alloc rm w w' \<Longrightarrow> srv_reach ntop6 alloc rm w0 w'"

inductive_cases srv_stepE: "srv_step ntop6 alloc rm w w'"

lemma make_conn_simps [simp]:
  "sc_loop (make_conn rm l name fd a peer w) = l" "c_name (sc_conn (make_conn rm l name fd a peer w)) = name"
  "c_socket (sc_conn (make_conn rm l name fd a peer w)) = fd" "sc_peerAddr (make_conn rm l name fd a peer w) = peer"
  "c_state (sc_conn (make_conn rm l name fd a peer w)) = kConnecting"
  by (simp_all add: make_conn_def TcpConnection_init_def)

lemma newConnection_run:
  assumes "getNextLoop (srv_pool w) = Inr (l, p)" "srv_nextConnId w < 2 ^ 31 - 1"
  shows "\<exists>sc. TcpServer_newConnection ntop6 alloc rm fd peer w =
      Inr (w\<lparr>srv_nextConnId := srv_nextConnId w + 1, srv_pool := p,
       srv_conns := (srv_conns w)(conn_name ntop6 (srv_name w) peer (srv_nextConnId w) \<mapsto> sc),
       srv_posted := srv_posted w @ [RunIn l (ConnEstablishedIn (conn_name ntop6 (srv_name w) peer (srv_nextConnId w)))],
       srv_handed := srv_handed w @ [(fd, peer)]\<rparr>) \<and>
    sc_loop sc = l \<and> c_name (sc_conn sc) = conn_name ntop6 (srv_name w) peer (srv_nextConnId w) \<and> c_socket (sc_conn sc) = fd \<and>
    c_state (sc_conn sc) = kConnecting \<and> sc_peerAddr sc = peer"
  using assms
  by (intro exI [of _ "make_conn rm l (conn_name ntop6 (srv_name w) peer (srv_nextConnId w)) fd
        (alloc (w\<lparr>srv_nextConnId := srv_nextConnId w + 1\<rparr>)) peer (w\<lparr>srv_nextConnId := srv_nextConnId w + 1\<rparr>)"])
    (simp add: TcpServer_newConnection_def Let_def)

lemma newConnection_Inr:
  assumes "TcpServer_newConnection ntop6 alloc rm fd peer w = Inr w'"
  obtains l p sc where "srv_nextConnId w < 2 ^ 31 - 1" "getNextLoop (srv_pool w) = Inr (l, p)"
    "w' = w\<lparr>srv_nextConnId := srv_nextConnId w + 1, srv_pool := p,
       srv_conns := (srv_conns w)(conn_name ntop6 (srv_name w) peer (srv_nextConnId w) \<mapsto> sc),
       srv_posted := srv_posted w @ [RunIn l (ConnEstablishedIn (conn_name ntop6 (srv_name w) peer (srv_nextConnId w)))],
       srv_handed := srv_handed w @ [(fd, peer)]\<rparr>"
    "sc_loop sc = l" "c_name (sc_conn sc) = conn_name ntop6 (srv_name w) peer (srv_nextConnId w)" "c_socket (sc_conn sc) = fd"
    "c_state (sc_conn sc) = kConnecting" "sc_peerAddr sc = peer"
proof -
  obtain l p where g: "srv_nextConnId w < 2 ^ 31 - 1" "getNextLoop (srv_pool w) = Inr (l, p)"
    using assms by (auto simp: TcpServer_newConnection_def rbind_eq_Inr Let_def)
  from newConnection_run [OF g(2,1), of ntop6 alloc rm fd peer] assms show ?thesis by (auto intro: that [OF g])
qed

lemma names_ok_connect:
  assumes "names_short ntop6" "length peer = addr_size" "names_ok w" "TcpServer_newConnection ntop6 alloc rm fd peer w = Inr w'"
  shows "names_ok w'" "srv_conns w (conn_name ntop6 (srv_name w) peer (srv_nextConnId w)) = None"
proof -
  let ?n = "srv_nextConnId w" and ?name = "conn_name ntop6 (srv_name w) peer (srv_nextConnId w)"
  from newConnection_Inr [OF assms(4)] obtain l p sc where new: "?n < 2 ^ 31 - 1" "getNextLoop (srv_pool w) = Inr (l, p)"
    "w' = w\<lparr>srv_nextConnId := ?n + 1, srv_pool := p, srv_conns := (srv_conns w)(?name \<mapsto> sc),
       srv_posted := srv_posted w @ [RunIn l (ConnEstablishedIn ?name)], srv_handed := srv_handed w @ [(fd, peer)]\<rparr>"
    "c_name (sc_conn sc) = ?name" by metis
  have pos: "1 \<le> ?n" and pool: "pool_ok (srv_pool w)" using assms(3) by (auto simp: names_ok_def)
  have "?name = srv_name w @ ''-'' @ c_chars (addr_IpPort ntop6 peer) @ ''#'' @ show_nat (nat ?n)"
    using assms(1,2) pos new(1) by (intro conn_name_eq) auto
  then obtain pre where name: "?name = pre @ CHR ''#'' # show_nat (nat ?n)" by (metis append.assoc append_Cons append_Nil)
  show "srv_conns w ?name = None"
  proof (rule ccontr)
    assume "srv_conns w ?name \<noteq> None"
    then obtain pre' m where m: "1 \<le> m" "m < ?n" "?name = pre' @ CHR ''#'' # show_nat (nat m)"
      using assms(3) unfolding names_ok_def by fast
    then have "show_nat (nat m) = show_nat (nat ?n)" using name hash_not_digit by (metis hash_suffix)
    then show False using m pos by simp
  qed
  obtain l' p' where "getNextLoop (srv_pool w) = Inr (l', p')" "pool_ok p'" using getNextLoop_ok [OF pool] by metis
  then have "pool_ok p" using new(2) by simp
  moreover have "\<exists>pre n. 1 \<le> n \<and> n < ?n + 1 \<and> ?name = pre @ CHR ''#'' # show_nat (nat n)"
    using name pos by (intro exI [of _ pre] exI [of _ ?n]) simp
  moreover have "\<exists>pre n. 1 \<le> n \<and> n < ?n + 1 \<and> k = pre @ CHR ''#'' # show_nat (nat n)"
    if "srv_conns w k = Some sc'" for k sc'
    using assms(3) that unfolding names_ok_def by force
  ultimately show "names_ok w'" using assms(3) new(4) pos unfolding names_ok_def new(3) by simp
qed

lemma names_ok_step: "srv_step ntop6 alloc rm w w' \<Longrightarrow> names_short ntop6 \<Longrightarrow> names_ok w \<Longrightarrow> names_ok w'"
  by (elim srv_stepE)
    (auto dest: names_ok_connect(1), auto simp: names_ok_def TcpServer_removeConnection_def removeConnectionInLoop_def)

lemma names_ok_reach: "srv_reach ntop6 alloc rm w0 w \<Longrightarrow> names_short ntop6 \<Longrightarrow> names_ok w0 \<Longrightarrow> names_ok w"
  by (induction rule: srv_reach.induct) (auto intro: names_ok_step)

text \<open>C12: As long as the text of an IPv6 address has at most 45 characters, a new connection's name is none of
  those in the map, however many connections came and went before: the connection is entered
  in the map under a name that is not there, in state \<open>kConnecting\<close>, and its loop is told to
  establish it.\<close>

theorem new_connection_fresh:
  assumes "names_short ntop6" "srv_conns w0 = Map.empty" "srv_nextConnId w0 = 1" "pool_ok (srv_pool w0)"
    and "srv_reach ntop6 alloc rm w0 w" "length peer = addr_size" "TcpServer_newConnection ntop6 alloc rm fd peer w = Inr w'"
  shows "\<exists>name sc. srv_conns w name = None \<and> srv_conns w' = (srv_conns w)(name \<mapsto> sc) \<and>
    c_name (sc_conn sc) = name \<and> c_socket (sc_conn sc) = fd \<and> c_state (sc_conn sc) = kConnecting \<and> sc_peerAddr sc = peer \<and>
    srv_posted w' = srv_posted w @ [RunIn (sc_loop sc) (ConnEstablishedIn name)]"
proof -
  have "names_ok w0" using assms(2-4) by (simp add: names_ok_def)
  then have "names_ok w" using names_ok_reach [OF assms(5,1)] by blast
  from names_ok_connect(2) [OF assms(1,6) this assms(7)] show ?thesis
    by (intro exI [of _ "conn_name ntop6 (srv_name w) peer (srv_nextConnId w)"]) (rule newConnection_Inr [OF assms(7)]; force)
qed


text \<open>A server on \<open>ex_acceptor\<close>, with three connections waiting.\<close>

definition ex_server :: "incoming list \<Rightarrow> (nat, nat) server" where
  "ex_server ps = TcpServer_init (\<lambda>_. []) ''echo'' (ex_peer 80) 1 (ex_acceptor\<lparr>k_pending := ps, k_fds := [0 \<mapsto> FdListen, 1 \<mapsto> FdNull]\<rparr>)"

lemma length_ex_peer [simp]: "length (ex_peer port) = addr_size"
  by (simp add: ex_peer_def InetAddr_of_port_def memset0_def addr_size_def length_put_at Let_def)

lemma ex_server_state:
  "srv_conns (ex_server ps) = Map.empty" "srv_nextConnId (ex_server ps) = 1" "pool_ok (srv_pool (ex_server ps))"
  "k_fds (ex_server ps) = [0 \<mapsto> FdListen, 1 \<mapsto> FdNull]" "k_limit (ex_server ps) = 3" "k_pending (ex_server ps) = ps"
  "a_socket (ex_server ps) = 0" "a_idlefd (ex_server ps) = 1" "srv_handed (ex_server ps) = []"
  "srv_pool (ex_server ps) = EventLoopThreadPool_init 1 ''echo''" "srv_name (ex_server ps) = ''echo''"
  by (simp_all add: ex_server_def TcpServer_init_def acc_world.defs server.defs pool_ok_def EventLoopThreadPool_init_def
      ex_acceptor_state Let_def ex_loop_state)

lemma new_connection_fresh_witness:
  "\<exists>w name. TcpServer_newConnection (\<lambda>_. []) (\<lambda>_. 300) 9 2 (ex_peer 8) (ex_server []) = Inr w \<and> srv_conns (ex_server []) name = None \<and>
     srv_conns w name \<noteq> None"
proof -
  have short: "names_short (\<lambda>_. [])" by (simp add: names_short_def)
  obtain w where w: "TcpServer_newConnection (\<lambda>_. []) (\<lambda>_. 300) 9 2 (ex_peer 8) (ex_server []) = Inr w"
    by (simp add: TcpServer_newConnection_def ex_server_state getNextLoop_def EventLoopThreadPool_init_def Let_def)
  from new_connection_fresh [OF short ex_server_state(1-3) srv_reach.begin_ok length_ex_peer w] w show ?thesis by auto
qed

section \<open>The acceptor's callback\<close>

definition srv_room :: "('u, 'cb) server \<Rightarrow> nat" where
  "srv_room w = (if pool_ok (srv_pool w) then nat (2 ^ 31 - 1 - srv_nextConnId w) else 0)"

interpretation srv: connection_handler "TcpServer_newConnection ntop6 alloc rm" srv_handed srv_room
  for ntop6 and alloc :: "('u, 'cb) server \<Rightarrow> addr" and rm
proof unfold_locales
  fix w :: "('u, 'cb) server" and fd p fds ps
  show "srv_handed (w\<lparr>k_fds := fds, k_pending := ps\<rparr>) = srv_handed w" by simp
  show "srv_room (w\<lparr>k_fds := fds, k_pending := ps\<rparr>) = srv_room w" by (simp add: srv_room_def)
  assume "0 < srv_room w"
  then have pool: "pool_ok (srv_pool w)" and ids: "srv_nextConnId w < 2 ^ 31 - 1" by (auto simp: srv_room_def split: if_splits)
  obtain l p' where turn: "getNextLoop (srv_pool w) = Inr (l, p')" "pool_ok p'" using getNextLoop_ok [OF pool] by metis
  have "srv_room w = Suc (srv_room (w\<lparr>srv_nextConnId := srv_nextConnId w + 1, srv_pool := p', srv_conns := cs, srv_posted := po, srv_handed := h\<rparr>))"
    for cs po h using pool turn(2) ids by (simp add: srv_room_def)
  then show "\<exists>w'. TcpServer_newConnection ntop6 alloc rm fd p w = Inr w' \<and> srv_handed w' = srv_handed w @ [(fd, p)] \<and>
      srv_room w = Suc (srv_room w') \<and> k_fds w' = k_fds w \<and> k_limit w' = k_limit w \<and> k_pending w' = k_pending w \<and>
      a_socket w' = a_socket w \<and> a_idlefd w' = a_idlefd w"
    using ids turn(1) by (simp add: TcpServer_newConnection_def Let_def)
qed

text \<open>C11: One readable event of the listening socket, for a server with room: \<open>handleRead\<close> ends after at most
  one round per waiting connection, hands over exactly the first ones, in order, each on a fresh
  descriptor of its own, and leaves nothing waiting, or has used up one more entry, which was an error
  or was dropped because no descriptor was free.\<close>

theorem server_accepts:
  assumes "incoming_ok w" "length (k_pending w) < n" "length (k_pending w) \<le> srv_room w" "length junk = addr_size"
    and "0 \<le> a_idlefd w" "a_idlefd w < int (k_limit w)" "a_idlefd w \<noteq> a_socket w" "k_fds w (a_idlefd w) \<noteq> None"
  shows "\<exists>w' new. acc_handleRead n (Some (TcpServer_newConnection ntop6 alloc rm)) junk w = Some (Inr w') \<and>
    srv_handed w' = srv_handed w @ new \<and> map (\<lambda>x. Peer (snd x)) new = take (length new) (k_pending w) \<and>
    distinct (map fst new) \<and> (\<forall>fd \<in> fst ` set new. k_fds w fd = None \<and> k_fds w' fd \<noteq> None) \<and>
    (drop (length new) (k_pending w) = [] \<and> k_pending w' = [] \<or> (\<exists>i. drop (length new) (k_pending w) = i # k_pending w'))"
proof -
  from srv.accept_loop_hands [OF assms(2,3,1,4), of ntop6 alloc rm] obtain err w1 new where
    run: "accept_loop n (Some (TcpServer_newConnection ntop6 alloc rm)) junk w = Some (Inr (err, w1))"
    and handed: "srv_handed w1 = srv_handed w @ new" and acc: "accepted new w w1"
    and pre: "map (\<lambda>x. Peer (snd x)) new = take (length new) (k_pending w)"
    and stop: "loop_end err (drop (length new) (k_pending w)) w1"
    and kept: "k_limit w1 = k_limit w" "a_socket w1 = a_socket w" "a_idlefd w1 = a_idlefd w" by blast
  have fresh: "distinct (map fst new)" "\<forall>fd \<in> fst ` set new. k_fds w fd = None \<and> 0 \<le> fd"
    using acc by (auto simp: accepted_def)
  have open1: "\<forall>fd \<in> fst ` set new. k_fds w1 fd \<noteq> None" and listening: "k_fds w1 (a_socket w1) = Some FdListen"
    using accepted_fds [OF acc] assms(1) kept(2) by (auto simp: incoming_ok_def)
  show ?thesis
  proof (cases "err = EMFILE")
    case True
    have "AcceptErr err \<notin> set (k_pending w)" using True assms(1) by (force simp: incoming_ok_def)
    then have "drop (length new) (k_pending w) \<noteq> AcceptErr err # ps" for ps
      using in_set_dropD [of "AcceptErr err" "length new" "k_pending w"] by force
    moreover have "err \<noteq> EAGAIN" using True by (simp add: errno_defs)
    ultimately have full: "k_pending w1 = drop (length new) (k_pending w)" "k_free w1 = None" using stop by (auto simp: loop_end_def)
    from drop_one_keeps [OF listening _ _ _ full(2)] assms(5-7) kept obtain fds i where
      drop: "drop_one w1 = w1\<lparr>k_fds := fds, k_pending := tl (k_pending w1), a_idlefd := i\<rparr>"
      "\<forall>fd. fd \<noteq> a_idlefd w \<longrightarrow> 0 \<le> fd \<longrightarrow> fds fd = k_fds w1 fd" by auto
    have "\<forall>fd \<in> fst ` set new. fd \<noteq> a_idlefd w \<and> 0 \<le> fd" using fresh(2) assms(8) by auto
    then have "\<forall>fd \<in> fst ` set new. k_fds w fd = None \<and> k_fds (drop_one w1) fd \<noteq> None" using drop open1 fresh(2) by simp
    moreover have "acc_handleRead n (Some (TcpServer_newConnection ntop6 alloc rm)) junk w = Some (Inr (drop_one w1))"
      using run True by (simp add: acc_handleRead_def)
    moreover have "k_pending (drop_one w1) = tl (drop (length new) (k_pending w))" "srv_handed (drop_one w1) = srv_handed w @ new"
      using drop full(1) handed by simp_all
    ultimately show ?thesis using pre fresh(1)
      by (intro exI [of _ "drop_one w1"] exI [of _ new]) (cases "drop (length new) (k_pending w)"; simp)
  next
    case False
    then have "drop (length new) (k_pending w) = [] \<and> k_pending w1 = [] \<or> (\<exists>i. drop (length new) (k_pending w) = i # k_pending w1)"
      using stop by (auto simp: loop_end_def)
    then show ?thesis using run handed pre fresh open1 False by (intro exI [of _ w1] exI [of _ new]) (auto simp: acc_handleRead_def)
  qed
qed

lemma ex_pool_ok [simp]: "pool_ok (EventLoopThreadPool_init 1 ''echo'')"
  by (simp add: pool_ok_def EventLoopThreadPool_init_def)

lemma ex_free: "k_free w = find (\<lambda>n. k_fds w n = None) [0, 1, 2]" if "k_limit w = 3" for w :: "(nat, nat) server"
  using that by (simp add: k_free_def upt_rec)

text \<open>An event with two peers waiting and one free descriptor \<open>fd\<close>.\<close>

definition ex_like :: "(nat, nat) server \<Rightarrow> bool" where
  "ex_like w \<longleftrightarrow> k_limit w = 3 \<and> a_socket w = 0 \<and> a_idlefd w = 1 \<and> k_fds w 0 = Some FdListen \<and>
     srv_pool w = EventLoopThreadPool_init 1 ''echo'' \<and> srv_nextConnId w < 100"

lemma ex_event:
  assumes w: "ex_like w" "k_pending w = [Peer p, Peer q]" "length p = addr_size"
    and free: "k_free w = Some fd" "k_free (w\<lparr>k_fds := (k_fds w)(fd \<mapsto> FdSock p)\<rparr>) = None"
  shows "\<exists>w' name sc. acc_handleRead 3 (Some (TcpServer_newConnection (\<lambda>_. []) (\<lambda>_. 300) 9)) (ex_peer 0) w = Some (Inr w') \<and>
    srv_conns w' name = Some sc \<and> sc_peerAddr sc = p \<and> c_socket (sc_conn sc) = fd \<and>
    k_fds w' = (k_fds w)(fd \<mapsto> FdSock p, 1 := None) \<and> k_limit w' = 3 \<and> a_socket w' = 0 \<and> a_idlefd w' = 1 \<and>
    k_pending w' = [] \<and> srv_pool w' = srv_pool w \<and> srv_nextConnId w' = srv_nextConnId w + 1"
proof -
  note st = w(1) [unfolded ex_like_def]
  note fd = k_free_Some [OF free(1)]
  have "fd \<noteq> 0" using fd(3) st by auto
  let ?v = "w\<lparr>k_fds := (k_fds w)(fd \<mapsto> FdSock p), k_pending := [Peer q]\<rparr>"
  have pl: "getNextLoop (srv_pool ?v) = Inr (1, srv_pool w)" "srv_nextConnId ?v < 2 ^ 31 - 1"
    using st by (simp_all add: getNextLoop_def EventLoopThreadPool_init_def)
  from newConnection_run [OF pl, of "\<lambda>_. []" "\<lambda>_. 300" 9 fd p] obtain sc where
    sc: "c_socket (sc_conn sc) = fd" "sc_peerAddr sc = p" and
    run: "TcpServer_newConnection (\<lambda>_. []) (\<lambda>_. 300) 9 fd p ?v = Inr (?v\<lparr>srv_nextConnId := srv_nextConnId ?v + 1, srv_pool := srv_pool w,
       srv_conns := (srv_conns ?v)(conn_name (\<lambda>_. []) (srv_name ?v) p (srv_nextConnId ?v) \<mapsto> sc),
       srv_posted := srv_posted ?v @ [RunIn 1 (ConnEstablishedIn (conn_name (\<lambda>_. []) (srv_name ?v) p (srv_nextConnId ?v)))],
       srv_handed := srv_handed ?v @ [(fd, p)]\<rparr>)" by blast
  define v where v_eq: "v = ?v\<lparr>srv_nextConnId := srv_nextConnId ?v + 1, srv_pool := srv_pool w,
       srv_conns := (srv_conns ?v)(conn_name (\<lambda>_. []) (srv_name ?v) p (srv_nextConnId ?v) \<mapsto> sc),
       srv_posted := srv_posted ?v @ [RunIn 1 (ConnEstablishedIn (conn_name (\<lambda>_. []) (srv_name ?v) p (srv_nextConnId ?v)))],
       srv_handed := srv_handed ?v @ [(fd, p)]\<rparr>"
  have v: "TcpServer_newConnection (\<lambda>_. []) (\<lambda>_. 300) 9 fd p ?v = Inr v" using run v_eq by simp
  have vs: "k_limit v = 3" "a_socket v = 0" "a_idlefd v = 1" "k_fds v = (k_fds w)(fd \<mapsto> FdSock p)" "k_pending v = [Peer q]"
    using st by (simp_all add: v_eq)
  have "k_free v = None" using free(2) by (simp add: v_eq k_free_def)
  have listening: "k_fds v (a_socket v) = Some FdListen" using vs st \<open>fd \<noteq> 0\<close> by simp
  have drop: "drop_one v = v\<lparr>k_fds := (k_fds v)(1 := None), k_pending := []\<rparr>"
    using drop_one_eq [OF listening _ _ _ \<open>k_free v = None\<close> vs(5)] vs by simp
  have "accept_loop 3 (Some (TcpServer_newConnection (\<lambda>_. []) (\<lambda>_. 300) 9)) (ex_peer 0) w = Some (Inr (EMFILE, v))"
    using st w(2,3) free(1) fd(1) v vs listening \<open>k_free v = None\<close>
    by (simp add: numeral_eq_Suc Socket_accept_def sockets_accept_def k_accept_def setSockAddrInet6_all)
  then have "acc_handleRead 3 (Some (TcpServer_newConnection (\<lambda>_. []) (\<lambda>_. 300) 9)) (ex_peer 0) w = Some (Inr (drop_one v))"
    by (simp add: acc_handleRead_def)
  then show ?thesis
    using vs sc unfolding drop
    by (intro exI [of _ "v\<lparr>k_fds := (k_fds v)(1 := None), k_pending := []\<rparr>"]
        exI [of _ "conn_name (\<lambda>_. []) (srv_name w) p (srv_nextConnId w)"] exI [of _ sc]) (simp add: v_eq)
qed

lemma server_accepts_witness:
  "\<exists>w'. acc_handleRead 3 (Some (TcpServer_newConnection (\<lambda>_. []) (\<lambda>_. 300) 9)) (ex_peer 0)
       (ex_server [Peer (ex_peer 1), Peer (ex_peer 2)]) = Some (Inr w') \<and> k_pending w' = []"
proof -
  let ?w = "ex_server [Peer (ex_peer 1), Peer (ex_peer 2)]"
  have "incoming_ok ?w" by (simp add: incoming_ok_def ex_server_state)
  moreover have "2 \<le> srv_room ?w" by (simp add: srv_room_def ex_server_state)
  ultimately obtain w' new where w': "acc_handleRead 3 (Some (TcpServer_newConnection (\<lambda>_. []) (\<lambda>_. 300) 9)) (ex_peer 0) ?w = Some (Inr w')"
    "map (\<lambda>x. Peer (snd x)) new = take (length new) (k_pending ?w)" "distinct (map fst new)"
    "\<forall>fd \<in> fst ` set new. k_fds ?w fd = None \<and> k_fds w' fd \<noteq> None"
    "drop (length new) (k_pending ?w) = [] \<and> k_pending w' = [] \<or> (\<exists>i. drop (length new) (k_pending ?w) = i # k_pending w')"
    using server_accepts [of ?w 3 "ex_peer 0" "\<lambda>_. []" "\<lambda>_. 300" 9] by (auto simp: ex_server_state)
  have like: "ex_like ?w" by (simp add: ex_like_def ex_server_state)
  have free: "k_free ?w = Some 2" "k_free (?w\<lparr>k_fds := (k_fds ?w)(2 \<mapsto> FdSock (ex_peer 1))\<rparr>) = None"
    by (simp_all add: ex_free ex_server_state)
  have "k_pending w' = []" using ex_event [OF like ex_server_state(6) length_ex_peer free] w'(1) by auto
  then show ?thesis using w'(1) by blast
qed





lemma drop_one_conns [simp]:
  fixes w :: "('u, 'cb) server"
  shows "srv_conns (drop_one w) = srv_conns w" "srv_nextConnId (drop_one w) = srv_nextConnId w" "srv_pool (drop_one w) = srv_pool w"
  by (simp_all add: drop_one_def k_close_def k_accept_def Let_def split: option.splits list.splits incoming.splits)




section \<open>Start and end\<close>

lemma pool_start_fold:
  "lp_loops (foldl (\<lambda>p i. p\<lparr>lp_threadNames := lp_threadNames p @ [nm p i], lp_loops := lp_loops p @ [f i]\<rparr>) p is) = lp_loops p @ map f is"
  by (induction "is" arbitrary: p) simp_all

lemma started_again: "srv_started w = 1 \<Longrightarrow> (TcpServer_start f ^^ k) w = w"
  by (induction k) (simp_all add: TcpServer_start_def getAndSet_def)

text \<open>However often \<open>start\<close> is called, from whatever threads, the thread pool is started once, with one
  loop per thread, and the acceptor is told to listen once.\<close>

theorem server_starts_once:
  assumes "srv_started w = atomic_init" "lp_loops (srv_pool w) = []" "srv_posted w = []"
  shows "srv_posted ((TcpServer_start f ^^ Suc k) w) = [RunIn (loop_this w) AcceptorListen] \<and>
    lp_loops (srv_pool ((TcpServer_start f ^^ Suc k) w)) = map f [0..<nat (lp_numThreads (srv_pool w))]"
proof -
  have "srv_started (TcpServer_start f w) = 1" using assms(1) by (simp add: TcpServer_start_def getAndSet_def atomic_init_def)
  then have "(TcpServer_start f ^^ Suc k) w = TcpServer_start f w"
    by (simp only: funpow_Suc_right o_def started_again)
  then show ?thesis using assms
    by (simp add: TcpServer_start_def getAndSet_def atomic_init_def pool_start_def pool_start_fold)
qed

lemma server_starts_once_witness:
  "srv_posted ((TcpServer_start (\<lambda>i. 10 + of_nat i) ^^ 4) (ex_server [])) = [RunIn 1 AcceptorListen]"
  using server_starts_once [of "ex_server []" 3 "\<lambda>i. 10 + of_nat i"]
  by (simp add: numeral_eq_Suc ex_server_def TcpServer_init_def acc_world.defs server.defs EventLoopThreadPool_init_def
      ex_acceptor_state Let_def ex_loop_state)

end
