(* ===== verification/ServerConn.thy ===== *)
theory ServerConn
  imports ConnLife TcpServer
begin

text \<open>
  A connection of \<open>TcpServer.cc\<close> in the loop it was given to: its way from acceptance to the freed object.
\<close>

section \<open>A connection of the server in its loop\<close>

text \<open>The connection the server has made, in the loop it was given to, with its new channel there.\<close>

definition placed :: "'u server_conn \<Rightarrow> int \<Rightarrow> 'u world \<Rightarrow> bool" where
  "placed sc tid v \<longleftrightarrow> w_conn v = sc_conn sc \<and> threadId v = tid \<and> chans_ok v \<and>
     chans v (c_channel (sc_conn sc)) = Some (conn_channel (Channel_init (loop_this v) (c_socket (sc_conn sc)))) \<and>
     channel_map (loop_poller v) (c_socket (sc_conn sc)) = None"

lemma conn_channel_new:
  "ch_index (conn_channel (Channel_init l fd)) = kNew" "\<not> ch_eventHandling (conn_channel (Channel_init l fd))"
  "ch_fd (conn_channel (Channel_init l fd)) = fd" "ch_events (conn_channel (Channel_init l fd)) = kNoneEvent"
  by (simp_all add: conn_channel_def setReadCallback_def setWriteCallback_def setErrorCallback_def setCloseCallback_def
      Channel_init_def kNew_def)

lemma placed_fresh:
  assumes "placed (make_conn rm l name fd a peer w) tid v" "srv_connCallback w \<noteq> None"
  shows "conn_fresh tid v"
  using assms by (simp add: placed_def conn_fresh_def conn_channel_new) (simp add: make_conn_def)

text \<open>What accepting a connection does: a new entry in the map and a functor for its loop; removing it
  restores the map.\<close>

lemma connection_made:
  assumes "names_short ntop6" "names_ok w" "length peer = addr_size" "TcpServer_newConnection ntop6 alloc rm fd peer w = Inr w'"
  obtains name sc l a where "srv_conns w name = None" "srv_conns w' name = Some sc" "srv_conns (removeConnectionInLoop sc w') = srv_conns w"
    "srv_posted (removeConnectionInLoop sc w') =
      srv_posted w @ [RunIn (sc_loop sc) (ConnEstablishedIn name), QueueIn (sc_loop sc) (ConnDestroyedIn name)]"
    "sc = make_conn rm l name fd a peer w"
proof -
  let ?name = "conn_name ntop6 (srv_name w) peer (srv_nextConnId w)"
  have free: "srv_conns w ?name = None" by (rule names_ok_connect(2) [OF assms(1,3,2,4)])
  obtain l p u where ids: "u = w\<lparr>srv_nextConnId := srv_nextConnId w + 1\<rparr>"
    "w' = u\<lparr>srv_pool := p, srv_conns := (srv_conns w)(?name \<mapsto> make_conn rm l ?name fd (alloc u) peer u),
       srv_posted := srv_posted w @ [RunIn l (ConnEstablishedIn ?name)], srv_handed := srv_handed w @ [(fd, peer)]\<rparr>"
    using assms(4) by (auto simp: TcpServer_newConnection_def rbind_eq_Inr Let_def)
  let ?sc = "make_conn rm l ?name fd (alloc u) peer u"
  have same: "?sc = make_conn rm l ?name fd (alloc u) peer w" by (simp add: make_conn_def ids(1))
  show ?thesis
    by (rule that [OF free _ _ _ same]) (use free in \<open>auto simp: ids(2) removeConnectionInLoop_def\<close>)
qed

text \<open>The whole way of a connection. The server enters it in its map under a new name and tells its
  loop to establish it; in that loop it is established, closed by its peer, destroyed and freed
  without any failure, its descriptor being closed at the very end; the server takes it out of its map and tells the loop to destroy it. At the end
  the map, the loop's channels and the kernel's interest list are what they were before.\<close>

theorem served_connection_life:
  assumes "names_short ntop6" "names_ok w" "length peer = addr_size" "srv_connCallback w \<noteq> None" "calm env"
    and "TcpServer_newConnection ntop6 alloc rm fd peer w = Inr w'"
  shows "\<exists>name sc. srv_conns w name = None \<and> srv_conns w' name = Some sc \<and>
    (\<forall>tid v. placed sc tid v \<longrightarrow> (\<exists>v1 v2 v3 v4. connectEstablished env tid v = Inr v1 \<and> conn_handleClose env tid v1 = Inr v2 \<and>
       connectDestroyed env tid v2 = Inr v3 \<and> TcpConnection_dtor tid v3 = Inr v4 \<and>
       chans v4 = (chans v)(c_channel (sc_conn sc) := None) \<and> interest_of v4 = interest_of v \<and>
       last (w_sys v4) = SysClose (c_socket (sc_conn sc)))) \<and>
    srv_conns (removeConnectionInLoop sc w') = srv_conns w \<and>
    srv_posted (removeConnectionInLoop sc w') =
      srv_posted w @ [RunIn (sc_loop sc) (ConnEstablishedIn name), QueueIn (sc_loop sc) (ConnDestroyedIn name)]"
proof -
  from connection_made [OF assms(1-3,6)] obtain name sc l a where
    sc: "srv_conns w name = None" "srv_conns w' name = Some sc" "srv_conns (removeConnectionInLoop sc w') = srv_conns w"
      "srv_posted (removeConnectionInLoop sc w') =
        srv_posted w @ [RunIn (sc_loop sc) (ConnEstablishedIn name), QueueIn (sc_loop sc) (ConnDestroyedIn name)]"
    and made: "sc = make_conn rm l name fd a peer w" .
  have life: "\<exists>v1 v2 v3 v4. connectEstablished env tid v = Inr v1 \<and> conn_handleClose env tid v1 = Inr v2 \<and>
       connectDestroyed env tid v2 = Inr v3 \<and> TcpConnection_dtor tid v3 = Inr v4 \<and>
       chans v4 = (chans v)(c_channel (sc_conn sc) := None) \<and> interest_of v4 = interest_of v \<and>
       last (w_sys v4) = SysClose (c_socket (sc_conn sc))"
    if v: "placed sc tid v" for tid v
  proof -
    have "conn_fresh tid v" using placed_fresh [OF v [unfolded made]] assms(4) by simp
    moreover have "w_conn v = sc_conn sc" using v by (simp add: placed_def)
    ultimately show ?thesis using connection_life [OF assms(5), of tid v] by auto
  qed
  with sc show ?thesis by blast
qed

text \<open>The server \<open>ex_server\<close> and the loop of \<open>ex_fresh\<close>.\<close>

lemma served_connection_life_witness:
  "\<exists>w' name sc v1 v2 v3 v4. TcpServer_newConnection (\<lambda>_. []) (\<lambda>_. 200) 5 9 (ex_peer 8) (ex_server []) = Inr w' \<and>
     srv_conns w' name = Some sc \<and> connectEstablished ex_env 7 (ex_fresh\<lparr>w_conn := sc_conn sc\<rparr>) = Inr v1 \<and>
     conn_handleClose ex_env 7 v1 = Inr v2 \<and> connectDestroyed ex_env 7 v2 = Inr v3 \<and> TcpConnection_dtor 7 v3 = Inr v4"
proof -
  have short: "names_short (\<lambda>_. [])" by (simp add: names_short_def)
  have ok: "names_ok (ex_server [])" by (simp add: names_ok_def ex_server_state)
  have cb: "srv_connCallback (ex_server []) \<noteq> None"
    by (simp add: ex_server_def TcpServer_init_def acc_world.defs server.defs)
  obtain w' where w': "TcpServer_newConnection (\<lambda>_. []) (\<lambda>_. 200) 5 9 (ex_peer 8) (ex_server []) = Inr w'"
    by (simp add: TcpServer_newConnection_def ex_server_state getNextLoop_def EventLoopThreadPool_init_def Let_def)
  from served_connection_life [OF short ok length_ex_peer cb ex_env_ok(1) w'] obtain name sc where
    sc: "srv_conns w' name = Some sc" "srv_conns (ex_server []) name = None" and
    life: "\<forall>tid v. placed sc tid v \<longrightarrow> (\<exists>v1 v2 v3 v4. connectEstablished ex_env tid v = Inr v1 \<and> conn_handleClose ex_env tid v1 = Inr v2 \<and>
       connectDestroyed ex_env tid v2 = Inr v3 \<and> TcpConnection_dtor tid v3 = Inr v4 \<and>
       chans v4 = (chans v)(c_channel (sc_conn sc) := None) \<and> interest_of v4 = interest_of v)" by blast
  have "c_channel (sc_conn sc) = 200 \<and> c_socket (sc_conn sc) = 9"
    using w' sc by (auto simp: TcpServer_newConnection_def ex_server_state getNextLoop_def EventLoopThreadPool_init_def Let_def
        make_conn_def TcpConnection_init_def split: if_splits)
  moreover have "chans_ok ex_fresh" "threadId ex_fresh = 7" using ex_conn_fresh by (auto simp: conn_fresh_def)
  ultimately have "placed sc 7 (ex_fresh\<lparr>w_conn := sc_conn sc\<rparr>)"
    by (simp add: placed_def chans_ok_def) (simp add: ex_fresh_def ex_world_of_def EpollPoller_init_def)
  with life w' sc(1) show ?thesis by blast
qed

end
