(* ===== verification/HttpSite.thy ===== *)
theory HttpSite
  imports HttpSession ServerConn
begin

text \<open>
  \<open>muduo/net/http/HttpServer.h\<close>, \<open>HttpServer.cc\<close>: the server as a whole, a \<open>TcpServer\<close> with the callbacks of
  \<open>HttpService\<close> and a handler; and how one of its connections is established and ended.
\<close>

section \<open>The server\<close>

record 'cb http_server =
  hs_server :: "(http_value, 'cb) server"
  hs_callback :: "http_handler option"

text \<open>The constructor, around the \<open>TcpServer\<close> that its initialiser list makes.\<close>

definition HttpServer_init :: "(byte list \<Rightarrow> string) \<Rightarrow> string \<Rightarrow> inet_addr \<Rightarrow> http_value \<Rightarrow> 'cb acc_world \<Rightarrow> 'cb http_server" where
  "HttpServer_init ntop6 name addr defaultConnCallback w =
     \<lparr>hs_server = srv_setMessageCallback (Some HttpOnMessage) (srv_setConnectionCallback (Some HttpOnConnection)
        (TcpServer_init ntop6 name addr defaultConnCallback w)),
      hs_callback = None\<rparr>"

definition setHttpCallback :: "http_handler option \<Rightarrow> 'cb http_server \<Rightarrow> 'cb http_server" where
  "setHttpCallback cb s = s\<lparr>hs_callback := cb\<rparr>"

definition http_setThreadNum :: "int \<Rightarrow> 'cb http_server \<Rightarrow> 'cb http_server" where
  "http_setThreadNum n s = s\<lparr>hs_server := srv_setThreadNum n (hs_server s)\<rparr>"

definition HttpServer_start :: "(nat \<Rightarrow> addr) \<Rightarrow> 'cb http_server \<Rightarrow> 'cb http_server" where
  "HttpServer_start start_loop s = s\<lparr>hs_server := TcpServer_start start_loop (hs_server s)\<rparr>"

text \<open>A \<open>File\<close> of a response closes its descriptor in the process when it is destroyed.\<close>

definition File_dtor :: "send_file \<Rightarrow> ('cb, 'z) acc_world_scheme \<Rightarrow> ('cb, 'z) acc_world_scheme" where
  "File_dtor f w = (if 0 \<le> file_fd f then k_close (file_fd f) w else w)"

text \<open>What every operation keeps: the callbacks the constructor installed.\<close>

definition serves_http :: "(http_value, 'cb) server \<Rightarrow> bool" where
  "serves_http w \<longleftrightarrow> srv_connCallback w = Some HttpOnConnection \<and> srv_messageCallback w = Some HttpOnMessage \<and>
     srv_writeCompleteCallback w = None"

lemma serves_http_init: "serves_http (hs_server (HttpServer_init ntop6 name addr d w))"
  by (simp add: serves_http_def HttpServer_init_def srv_setMessageCallback_def srv_setConnectionCallback_def TcpServer_init_def
      acc_world.defs server.defs)

lemma serves_http_step: "srv_step ntop6 alloc rm w w' \<Longrightarrow> serves_http w \<Longrightarrow> serves_http w'"
  by (elim srv_stepE newConnection_Inr) (auto simp: serves_http_def TcpServer_removeConnection_def removeConnectionInLoop_def
      elim!: newConnection_Inr)

lemma serves_http_reach: "srv_reach ntop6 alloc rm w0 w \<Longrightarrow> serves_http w0 \<Longrightarrow> serves_http w"
  by (induction rule: srv_reach.induct) (auto intro: serves_http_step)

section \<open>Establishing and ending a connection\<close>

text \<open>The connection callback runs last in \<open>connectEstablished\<close>.\<close>

lemma established_by:
  "connectEstablished env tid w =
     rbind (connectEstablished (env\<lparr>user := \<lambda>u w. Inr w\<rparr>) tid w) (\<lambda>w1. call_user env (connectionCallback (w_conn w1)) w1)"
proof (cases "isInLoopThread tid w")
  case True
  let ?v = "with_conn (\<lambda>c. c\<lparr>c_state := kConnected\<rparr>) w"
  show ?thesis
  proof (cases "enableReading tid (c_channel (w_conn ?v)) ?v")
    case (Inr u)
    with True show ?thesis
      by (cases "connectionCallback (w_conn u)") (simp_all add: connectEstablished_def call_user_def Let_def)
  qed (use True in \<open>simp add: connectEstablished_def Let_def\<close>)
qed (simp add: connectEstablished_def)

lemma http_establish:
  assumes v: "placed sc tid v" and w: "serves_http w" "sc = make_conn ServerRemoveConnection l name fd a peer w"
  obtains v1 where "connectEstablished (http_env (Suc n) h tid env) tid v = Inr v1" "http_ready tid [] v1"
    "w_sys v1 = w_sys v" "outputBuffer (w_conn v1) = Buffer_init kInitSize" "inputBuffer (w_conn v1) = Buffer_init kInitSize"
    "later 0 v v1" "\<exists>c. chans v1 (c_channel (w_conn v1)) = Some c \<and> listening c"
proof -
  have conn: "w_conn v = sc_conn sc" "threadId v = tid" "chans_ok v"
    and chan: "chans v (c_channel (sc_conn sc)) = Some (conn_channel (Channel_init (loop_this v) (c_socket (sc_conn sc))))"
    using v by (simp_all add: placed_def)
  have fresh: "conn_fresh tid v"
    by (rule placed_fresh [OF v [unfolded w(2)]]) (use w(1) in \<open>simp add: serves_http_def\<close>)
  have "calm ((http_env (Suc n) h tid env)\<lparr>user := \<lambda>u w. Inr w\<rparr>)" by (simp add: calm_def)
  from establish [OF this fresh] obtain u where
    u: "connectEstablished ((http_env (Suc n) h tid env)\<lparr>user := \<lambda>u w. Inr w\<rparr>) tid v = Inr u" "conn_up v u" by blast
  let ?v1 = "setContext (HttpContextValue HttpContext_init) u" and ?a = "c_channel (w_conn v)"
  obtain c c1 where c: "chans v ?a = Some c" "chans u = (chans v)(?a \<mapsto> c1)" "ch_fd c1 = ch_fd c" "ch_index c1 = kAdded"
    "ch_events c1 = ch_events c OR kReadEvent" "ch_loop c1 = ch_loop c" "ch_eventHandling c1 = ch_eventHandling c"
    "channel_map (loop_poller u) = (channel_map (loop_poller v))(ch_fd c \<mapsto> ?a)"
    "interest_of u = (interest_of v)(ch_fd c \<mapsto> (ch_events c1, ?a))" "same_channel c c1"
    and up: "chans_ok u" "threadId u = threadId v" "loop_this u = loop_this v" "w_conn u = (w_conn v)\<lparr>c_state := kConnected\<rparr>"
    using conn_upE [OF u(2)] by blast
  have callback: "connectionCallback (w_conn u) = Some HttpOnConnection"
    using up(4) conn(1) w by (simp add: serves_http_def) (simp add: make_conn_def)
  have run: "connectEstablished (http_env (Suc n) h tid env) tid v = Inr ?v1"
    using callback u(1) by (subst established_by) (simp add: call_user_def http_onConnection_def)
  have fields: "messageCallback (w_conn v) = Some HttpOnMessage" "writeCompleteCallback (w_conn v) = None" "c_file (w_conn v) = None"
    "outputBuffer (w_conn v) = Buffer_init kInitSize" "inputBuffer (w_conn v) = Buffer_init kInitSize"
    unfolding conn(1) w(2) using w(1) by (simp_all add: make_conn_def TcpConnection_init_def serves_http_def)
  have new: "c = conn_channel (Channel_init (loop_this v) (c_socket (sc_conn sc)))" using chan c(1) conn(1) by simp
  have "ch_events c1 = kNoneEvent OR kReadEvent" unfolding c(5) new by (simp only: conn_channel_new)
  then have quiet: "ch_events c1 AND kWriteEvent = 0" by (simp add: event_bits)
  have "conn_ok u" using up(1,4) c(2,4) by (simp add: conn_ok_def index_defs)
  moreover have "\<not> writing u" using c(2) up(4) quiet by (simp add: writing_def isWriting_def)
  ultimately have "streaming u" using fields up(4) buf_ok_default by (simp add: streaming_def)
  moreover have "streaming ?v1 = streaming u" by (rule streaming_cong) simp_all
  moreover have "sp_parse HttpContext_init [] = Inr (True, HttpContext_init, [])" "waiting HttpContext_init"
    by (simp_all add: sp_parse.simps waiting_def HttpContext_init_def)
  ultimately have ready: "http_ready tid [] ?v1"
    using fields up(2,4) conn(2) buf_ok_default by (simp add: http_ready_def)
  have listens: "listening c1" using c(4,5) by (simp add: listening_def mask_or)
  then have near: "beside ?a v ?v1"
    using c(1-3,7-10) establish_rest [OF u(1)] by (simp add: beside_def)
  have "later 0 v ?v1" using near up(4) conn_up_sys [OF u(2)] by (simp add: later_def)
  then show ?thesis using run ready fields up(4) conn_up_sys [OF u(2)] c(2) listens by (intro that [of ?v1]) simp_all
qed

text \<open>Removing and destroying a channel without events.\<close>

lemma Channel_remove_ok:
  assumes "chans_ok l" "chans l a = Some c" "ch_index c \<noteq> kNew" "ch_events c = kNoneEvent"
  obtains p where
    "Channel_remove tid a l = Inr (l\<lparr>chans := (chans l)(a \<mapsto> c\<lparr>addedToLoop := False, ch_index := kNew\<rparr>), loop_poller := p\<rparr>)"
    "channel_map p = (channel_map (loop_poller l))(ch_fd c := None)"
    "chans_ok (l\<lparr>chans := (chans l)(a \<mapsto> c\<lparr>addedToLoop := False, ch_index := kNew\<rparr>), loop_poller := p\<rparr>)"
    "registered ((chans l)(a \<mapsto> c\<lparr>addedToLoop := False, ch_index := kNew\<rparr>)) p = (interest_of l)(ch_fd c := None)"
proof -
  let ?c = "c\<lparr>addedToLoop := False\<rparr>"
  have pok: "poller_ok (chans l) (loop_poller l)" and own: "ch_loop c = loop_this l" using assms(1,2) by (auto simp: chans_ok_def)
  have "ch_fd ?c = ch_fd c" "ch_index ?c = ch_index c" "isNoneEvent ?c" using assms(4) by (simp_all add: isNoneEvent_def)
  from remove_unregisters [OF pok assms(2) this(1,2) assms(3) this(3)] obtain p where
    p: "ep_removeChannel ((chans l)(a \<mapsto> ?c)) (loop_poller l) a = Inr ((chans l)(a \<mapsto> setIndex kNew ?c), p)"
    "registered ((chans l)(a \<mapsto> setIndex kNew ?c)) p = (interest_of l)(ch_fd c := None)"
    "channel_map p = (channel_map (loop_poller l))(ch_fd c := None)" by blast
  have run: "Channel_remove tid a l = Inr (l\<lparr>chans := (chans l)(a \<mapsto> c\<lparr>addedToLoop := False, ch_index := kNew\<rparr>), loop_poller := p\<rparr>)"
    using assms(2) own p(1) by (simp add: Channel_remove_def loop_removeChannel_def setIndex_def)
  have "chans_ok (l\<lparr>chans := (chans l)(a \<mapsto> c\<lparr>addedToLoop := False, ch_index := kNew\<rparr>), loop_poller := p\<rparr>)"
    using remove_effect [OF assms(1) run] by blast
  then show ?thesis by (rule that [OF run p(3)]) (use p(2) in \<open>simp add: setIndex_def\<close>)
qed

text \<open>The end of the stream: the channel is left without events.\<close>

lemma http_eof:
  assumes w: "conn_ok w" "buf_ok (inputBuffer (w_conn w))" "sys_readv env (w_sys w) = Inr []"
    and cb: "connectionCallback (w_conn w) = Some HttpOnConnection" "c_closeCallback (w_conn w) = Some ServerRemoveConnection"
    and c: "chans w (c_channel (w_conn w)) = Some c"
  obtains w1 where "conn_handleRead (http_env (Suc n) h tid env) tid w = Inr w1" "state_of w1 = kDisConnected" "conn_ok w1"
    "threadId w1 = threadId w" "c_channel (w_conn w1) = c_channel (w_conn w)"
    "chans w1 = (chans w)(c_channel (w_conn w) \<mapsto> after_events (\<lambda>e. kNoneEvent) c)"
    "\<forall>fd. fd \<noteq> ch_fd c \<longrightarrow> interest_of w1 fd = interest_of w fd"
    "\<forall>fd. fd \<noteq> ch_fd c \<longrightarrow> channel_map (loop_poller w1) fd = channel_map (loop_poller w) fd" "loop_rest w1 = loop_rest w"
    "c_socket (w_conn w1) = c_socket (w_conn w)"
proof -
  let ?a = "c_channel (w_conn w)" and ?env = "http_env (Suc n) h tid env"
  obtain b' where b': "readFd (inputBuffer (w_conn w)) (Inr []) = Inr (0, None, b')" using readFd_empty w(2) by blast
  define v where "v = with_conn (\<lambda>c. c\<lparr>inputBuffer := b', c_state := kDisConnected\<rparr>) (w\<lparr>w_sys := w_sys w @ [SysReadv (c_socket (w_conn w))]\<rparr>)"
  have v: "chans v = chans w" "loop_poller v = loop_poller w" "loop_this v = loop_this w" "threadId v = threadId w" "loop_rest v = loop_rest w"
    "w_conn v = (w_conn w)\<lparr>inputBuffer := b', c_state := kDisConnected\<rparr>"
    by (simp_all add: v_def loop_rest_def with_conn_def)
  have known: "chans_ok w" "ch_index c \<noteq> kNew" using w(1) c by (auto simp: conn_ok_def)
  then have ok: "chans_ok v" "chans v ?a = Some c" "ch_index c = kNew \<Longrightarrow> channel_map (loop_poller v) (ch_fd c) = None"
    using v(1-3) c by (simp_all add: chans_ok_def)
  obtain u where u: "with_events (\<lambda>e. kNoneEvent) tid ?a v = Inr u" "chans_ok u" "chans u = (chans v)(?a \<mapsto> after_events (\<lambda>e. kNoneEvent) c)"
    "interest_of u = (interest_of v)(ch_fd c := if ch_index c = kAdded \<and> kNoneEvent = kNoneEvent then None else Some (kNoneEvent, ?a))"
    "channel_map (loop_poller u) = (channel_map (loop_poller v))(ch_fd c \<mapsto> ?a)" "loop_this u = loop_this v" "threadId u = threadId v"
    "w_conn u = w_conn v" "w_sys u = w_sys v"
    by (rule events_Inr [OF ok])
  let ?w1 = "setContext (HttpContextValue HttpContext_init) u"
  have near: "\<forall>fd. fd \<noteq> ch_fd c \<longrightarrow> interest_of ?w1 fd = interest_of w fd"
    "\<forall>fd. fd \<noteq> ch_fd c \<longrightarrow> channel_map (loop_poller ?w1) fd = channel_map (loop_poller w) fd"
    using u(4,5) v(1,2) by simp_all
  have close: "conn_handleClose ?env tid (with_conn (\<lambda>c. c\<lparr>inputBuffer := b'\<rparr>) (w\<lparr>w_sys := w_sys w @ [SysReadv (c_socket (w_conn w))]\<rparr>)) = Inr ?w1"
    using u(1,8) v(6) cb by (simp add: conn_handleClose_def v_def with_conn_def call_user_def http_onConnection_def disableAll_def)
  have run: "conn_handleRead ?env tid w = Inr ?w1" using w(3) b' close by (simp add: conn_handleRead_def)
  have rest: "loop_rest ?w1 = loop_rest w" using with_events_rest [OF u(1)] v(5) by simp
  have ok1: "conn_ok ?w1" using u(2,3,8) v(6) by (simp add: conn_ok_def chans_ok_def index_defs)
  show ?thesis by (rule that [OF run _ ok1 _ _ _ near rest]) (use u(3,7,8) v in simp_all)
qed

text \<open>Destroying and freeing a closed connection.\<close>

lemma http_destroy:
  assumes w: "conn_ok w" "state_of w = kDisConnected"
    and c: "chans w (c_channel (w_conn w)) = Some c" "ch_events c = kNoneEvent" "\<not> ch_eventHandling c"
  obtains w1 w2 where "connectDestroyed env tid w = Inr w1" "TcpConnection_dtor tid w1 = Inr w2"
    "chans w2 = (chans w)(c_channel (w_conn w) := None)" "interest_of w2 = (interest_of w)(ch_fd c := None)"
    "w_sys w2 = w_sys w @ [SysClose (c_socket (w_conn w))]"
proof -
  let ?a = "c_channel (w_conn w)"
  have ok: "chans_ok w" "ch_index c \<noteq> kNew" using w(1) c(1) by (auto simp: conn_ok_def)
  from Channel_remove_ok [OF ok(1) c(1) ok(2) c(2)] obtain p where
    p: "Channel_remove tid ?a w = Inr (w\<lparr>chans := (chans w)(?a \<mapsto> c\<lparr>addedToLoop := False, ch_index := kNew\<rparr>), loop_poller := p\<rparr>)"
    "channel_map p = (channel_map (loop_poller w))(ch_fd c := None)"
    "chans_ok (w\<lparr>chans := (chans w)(?a \<mapsto> c\<lparr>addedToLoop := False, ch_index := kNew\<rparr>), loop_poller := p\<rparr>)"
    "registered ((chans w)(?a \<mapsto> c\<lparr>addedToLoop := False, ch_index := kNew\<rparr>)) p = (interest_of w)(ch_fd c := None)" .
  let ?w1 = "w\<lparr>chans := (chans w)(?a \<mapsto> c\<lparr>addedToLoop := False, ch_index := kNew\<rparr>), loop_poller := p\<rparr>"
  have run: "connectDestroyed env tid w = Inr ?w1" using w(2) p(1) by (simp add: connectDestroyed_def)
  have own: "ch_loop c = loop_this w" using ok(1) c(1) unfolding chans_ok_def by blast
  have dtor: "Channel_dtor tid ?a ?w1 = Inr (?w1\<lparr>chans := (chans ?w1)(?a := None)\<rparr>)"
    using c own p(2) by (intro dtor_Inr [of _ _ "c\<lparr>addedToLoop := False, ch_index := kNew\<rparr>"]) simp_all
  let ?w2 = "?w1\<lparr>chans := (chans ?w1)(?a := None), w_sys := w_sys w @ [SysClose (c_socket (w_conn w))]\<rparr>"
  have "TcpConnection_dtor tid ?w1 = Inr ?w2" using w(2) dtor by (simp add: TcpConnection_dtor_def)
  moreover have "interest_of ?w2 = (interest_of w)(ch_fd c := None)" using dtor_effect [OF p(3) dtor] p(4) by simp
  ultimately show ?thesis by (intro that [OF run, of ?w2]) simp_all
qed

text \<open>Both, one after the other, whatever still waits to be sent.\<close>

lemma http_finish:
  assumes w: "conn_ok w" "threadId w = tid" "buf_ok (inputBuffer (w_conn w))" "sys_readv env (w_sys w) = Inr []"
    and cb: "connectionCallback (w_conn w) = Some HttpOnConnection" "c_closeCallback (w_conn w) = Some ServerRemoveConnection"
    and c: "chans w (c_channel (w_conn w)) = Some c" "\<not> ch_eventHandling c"
  obtains w1 w2 w3 where "conn_handleRead (http_env (Suc n) h tid env) tid w = Inr w1" "state_of w1 = kDisConnected"
    "connectDestroyed (http_env (Suc n) h tid env) tid w1 = Inr w2" "TcpConnection_dtor tid w2 = Inr w3"
    "chans w3 = (chans w)(c_channel (w_conn w) := None)" "interest_of w3 = (interest_of w)(ch_fd c := None)"
    "last (w_sys w3) = SysClose (c_socket (w_conn w))"
proof -
  obtain w1 where
    w1: "conn_handleRead (http_env (Suc n) h tid env) tid w = Inr w1" "state_of w1 = kDisConnected" "conn_ok w1"
    "threadId w1 = threadId w" "c_channel (w_conn w1) = c_channel (w_conn w)"
    "chans w1 = (chans w)(c_channel (w_conn w) \<mapsto> after_events (\<lambda>e. kNoneEvent) c)"
    "\<forall>fd. fd \<noteq> ch_fd c \<longrightarrow> interest_of w1 fd = interest_of w fd"
    "\<forall>fd. fd \<noteq> ch_fd c \<longrightarrow> channel_map (loop_poller w1) fd = channel_map (loop_poller w) fd" "loop_rest w1 = loop_rest w"
    "c_socket (w_conn w1) = c_socket (w_conn w)" by (rule http_eof [OF w(1,3,4) cb c(1), of n h tid])
  have "chans w1 (c_channel (w_conn w1)) = Some (after_events (\<lambda>e. kNoneEvent) c)" using w1(5,6) by simp
  from http_destroy [OF w1(3,2) this, of "http_env (Suc n) h tid env" tid] c(2) obtain w2 w3 where
    w3: "connectDestroyed (http_env (Suc n) h tid env) tid w1 = Inr w2" "TcpConnection_dtor tid w2 = Inr w3"
    "chans w3 = (chans w1)(c_channel (w_conn w1) := None)" "interest_of w3 = (interest_of w1)(ch_fd c := None)"
    "w_sys w3 = w_sys w1 @ [SysClose (c_socket (w_conn w1))]" by auto
  have "interest_of w3 = (interest_of w)(ch_fd c := None)" using w3(4) w1(7) by (simp add: fun_eq_iff)
  moreover have "chans w3 = (chans w)(c_channel (w_conn w) := None)" using w3(3) w1(5,6) by simp
  moreover have "last (w_sys w3) = SysClose (c_socket (w_conn w))" using w3(5) w1(10) by simp
  ultimately show ?thesis by (intro that [OF w1(1,2) w3(1,2)])
qed

end
