(* ===== verification/ConnLoop.thy ===== *)
theory ConnLoop
  imports ConnLife
begin

text \<open>
  A connection of \<open>TcpConnection\<close> in the loop of \<open>muduo/net/EventLoop.cc\<close>: \<open>epoll_wait\<close> reports the events its
  channel is interested in, among those of the loop's own wakeup channel, \<open>Channel::handleEvent\<close> calls the
  connection's handlers, and the functors of other threads run after them. A round of the loop
  does to the connection what the handlers do, up to the flags the loop keeps (\<open>touched\<close>).
\<close>

section \<open>The loop's own flags\<close>

definition quiet :: "'cb channel \<Rightarrow> 'cb channel" where
  "quiet c = c\<lparr>ch_revents := 0, ch_eventHandling := False\<rparr>"

definition touched :: "'u world \<Rightarrow> 'u world \<Rightarrow> bool" where
  "touched w w' \<longleftrightarrow> loop_rest w' = loop_rest w \<and> threadId w' = threadId w \<and> w_conn w' = w_conn w \<and> w_sys w' = w_sys w \<and>
     channel_map (loop_poller w') = channel_map (loop_poller w) \<and> ep_calls (loop_poller w') = ep_calls (loop_poller w) \<and>
     (\<forall>a. map_option quiet (chans w' a) = map_option quiet (chans w a))"

lemma quietD:
  assumes "quiet c' = quiet c"
  shows "ch_fd c' = ch_fd c" "ch_events c' = ch_events c" "ch_index c' = ch_index c" "ch_loop c' = ch_loop c"
    "addedToLoop c' = addedToLoop c" "readCallback c' = readCallback c" "writeCallback c' = writeCallback c"
    "errorCallback c' = errorCallback c" "closeCallback c' = closeCallback c" "listening c' = listening c" "isWriting c' = isWriting c"
proof -
  show s: "ch_fd c' = ch_fd c" "ch_events c' = ch_events c" "ch_index c' = ch_index c" "ch_loop c' = ch_loop c"
    "addedToLoop c' = addedToLoop c" "readCallback c' = readCallback c" "writeCallback c' = writeCallback c"
    "errorCallback c' = errorCallback c" "closeCallback c' = closeCallback c"
    using arg_cong [OF assms, of ch_fd] arg_cong [OF assms, of ch_events] arg_cong [OF assms, of ch_index]
      arg_cong [OF assms, of ch_loop] arg_cong [OF assms, of addedToLoop] arg_cong [OF assms, of readCallback]
      arg_cong [OF assms, of writeCallback] arg_cong [OF assms, of errorCallback] arg_cong [OF assms, of closeCallback]
    by (simp_all add: quiet_def)
  show "listening c' = listening c" "isWriting c' = isWriting c" using s by (simp_all add: listening_def isWriting_def)
qed

lemma quiet_flags [simp]: "quiet (c\<lparr>ch_revents := r\<rparr>) = quiet c" "quiet (c\<lparr>ch_eventHandling := b\<rparr>) = quiet c"
  "quiet (setRevents r c) = quiet c"
  by (simp_all add: quiet_def setRevents_def)

lemma touched_refl [simp]: "touched w w"
  by (simp add: touched_def)

lemma touched_sym: "touched w w' \<Longrightarrow> touched w' w"
  by (simp add: touched_def)

lemma touched_trans: "touched u v \<Longrightarrow> touched v w \<Longrightarrow> touched u w"
  by (simp add: touched_def)

lemma touched_channel:
  assumes "touched w w'" "chans w a = Some c"
  obtains c' where "chans w' a = Some c'" "quiet c' = quiet c"
proof -
  have "map_option quiet (chans w' a) = Some (quiet c)" using assms by (simp add: touched_def)
  then show ?thesis using that by auto
qed

lemma touched_None: "touched w w' \<Longrightarrow> chans w a = None \<Longrightarrow> chans w' a = None"
  by (metis option.map_disc_iff touched_def)

lemma touchedD:
  assumes "touched w w'"
  shows "loop_this w' = loop_this w" "wakeupChannel w' = wakeupChannel w" "pendingFunctors w' = pendingFunctors w"
    "threadId w' = threadId w" "w_conn w' = w_conn w" "w_sys w' = w_sys w" "channel_map (loop_poller w') = channel_map (loop_poller w)"
    "interest_of w' = interest_of w"
proof -
  show s: "loop_this w' = loop_this w" "wakeupChannel w' = wakeupChannel w" "pendingFunctors w' = pendingFunctors w"
    "threadId w' = threadId w" "w_conn w' = w_conn w" "w_sys w' = w_sys w" "channel_map (loop_poller w') = channel_map (loop_poller w)"
    using assms by (simp_all add: touched_def loop_rest_def)
  have "interest_of w' fd = interest_of w fd" for fd
  proof (cases "channel_map (loop_poller w) fd")
    case (Some a)
    show ?thesis
    proof (cases "chans w a")
      case None
      then have "chans w' a = None" by (rule touched_None [OF assms])
      then show ?thesis using Some None s(7) by (simp add: registered_def)
    next
      case c: (Some c)
      from touched_channel [OF assms c] obtain c' where "chans w' a = Some c'" "quiet c' = quiet c" .
      then show ?thesis using Some c s(7) quietD(2,3) [of c' c] by (simp add: registered_def)
    qed
  qed (use s(7) in \<open>simp add: registered_def\<close>)
  then show "interest_of w' = interest_of w" by blast
qed

lemma touched_ok:
  assumes t: "touched w w'" and ok: "chans_ok w"
  shows "chans_ok w'"
proof -
  have pok: "poller_ok (chans w) (loop_poller w)" using ok by (simp add: chans_ok_def)
  note tD = touchedD [OF t]
  have orig: "\<exists>c. chans w a = Some c \<and> quiet c' = quiet c" if "chans w' a = Some c'" for a c'
    using touched_channel [OF touched_sym [OF t] that] by metis
  have "\<exists>c'. chans w' a = Some c' \<and> ch_fd c' = fd \<and> ch_index c' \<noteq> kNew" if "channel_map (loop_poller w') fd = Some a" for fd a
  proof -
    have "channel_map (loop_poller w) fd = Some a" using that by (simp add: tD(7))
    from poller_okD(1) [OF pok this] obtain c where c: "chans w a = Some c" "ch_fd c = fd" "ch_index c \<noteq> kNew" by blast
    from touched_channel [OF t c(1)] obtain c' where "chans w' a = Some c'" "quiet c' = quiet c" .
    then show ?thesis using c quietD(1,3) [of c' c] by simp
  qed
  moreover have "ch_index c' \<in> {kNew, kAdded, kDeleted} \<and> (ch_index c' \<noteq> kNew \<longrightarrow> channel_map (loop_poller w') (ch_fd c') = Some a) \<and>
      ch_loop c' = loop_this w' \<and> (addedToLoop c' \<or> ch_index c' = kNew)" if "chans w' a = Some c'" for a c'
  proof -
    from orig [OF that] obtain c where c: "chans w a = Some c" "quiet c' = quiet c" by blast
    have "ch_loop c = loop_this w \<and> (addedToLoop c \<or> ch_index c = kNew)" using ok c(1) unfolding chans_ok_def by blast
    then show ?thesis using poller_okD(2,3) [OF pok c(1)] quietD [OF c(2)] tD(1,7) by simp
  qed
  moreover have "replay (ep_calls (loop_poller w')) = Some (interest_of w')"
    using poller_okD(4) [OF pok] t tD(8) by (simp add: touched_def)
  ultimately show ?thesis unfolding chans_ok_def poller_ok_def by blast
qed

lemma touched_conn_ok: "touched w w' \<Longrightarrow> conn_ok w \<Longrightarrow> conn_ok w'"
  using touched_ok [of w w'] touchedD(5) [of w w'] touched_channel [of w w' "c_channel (w_conn w)"] quietD(3)
  unfolding conn_ok_def by metis

lemma touched_stream:
  assumes t: "touched w w'"
  shows "writing w' = writing w" "stream env w' = stream env w" "conn_ok w' = conn_ok w" "streaming w' = streaming w"
proof -
  note tD = touchedD [OF t]
  show wr: "writing w' = writing w"
  proof (cases "chans w (c_channel (w_conn w))")
    case None
    then have "chans w' (c_channel (w_conn w)) = None" by (rule touched_None [OF t])
    then show ?thesis using None tD(5) by (simp add: writing_def)
  next
    case (Some c)
    from touched_channel [OF t Some] obtain c' where "chans w' (c_channel (w_conn w)) = Some c'" "quiet c' = quiet c" .
    then show ?thesis using Some quietD(11) [of c' c] tD(5) by (simp add: writing_def)
  qed
  show "stream env w' = stream env w" using tD(5,6) by (simp add: stream_def)
  show ok: "conn_ok w' = conn_ok w" using touched_conn_ok [OF t] touched_conn_ok [OF touched_sym [OF t]] by blast
  show "streaming w' = streaming w" using ok wr tD(5) by (simp add: streaming_def)
qed

section \<open>A round\<close>

text \<open>What \<open>epoll_wait\<close> reports of the connection: the conditions of its socket the kernel holds an interest in. The wakeup
  channel may be reported with it, in any order.\<close>

definition ready_mask :: "bool \<Rightarrow> bool \<Rightarrow> event_mask" where
  "ready_mask readable writable = (if readable then POLLIN else 0) OR (if writable then POLLOUT else 0)"

definition conn_events :: "bool \<Rightarrow> bool \<Rightarrow> 'u world \<Rightarrow> (event_mask \<times> addr) list" where
  "conn_events readable writable w = (case interest_of w (c_socket (w_conn w)) of None \<Rightarrow> []
     | Some (ev, a) \<Rightarrow> let r = ev AND ready_mask readable writable in if r = 0 then [] else [(r, a)])"

datatype wakeup = NoWakeup | WakeupFirst | WakeupLast

datatype io_round = Round (r_in: bool) (r_out: bool) (r_wakeup: wakeup) (r_time: timestamp)

definition round_events :: "io_round \<Rightarrow> 'u world \<Rightarrow> (event_mask \<times> addr) list" where
  "round_events rd w =
     (let evs = conn_events (r_in rd) (r_out rd) w; wake = [(POLLIN, wakeupChannel w)] in
      case r_wakeup rd of NoWakeup \<Rightarrow> evs | WakeupFirst \<Rightarrow> wake @ evs | WakeupLast \<Rightarrow> evs @ wake)"

definition loop_round :: "'u env \<Rightarrow> int \<Rightarrow> io_round \<Rightarrow> 'u world \<Rightarrow> 'u world result" where
  "loop_round env tid rd w = loop_body (run_closure env tid) (Inr (round_events rd w), r_time rd) w"

lemma bit_or_none: "ev AND POLLOUT = 0 \<or> ev AND POLLOUT = POLLOUT"
proof -
  have p: "POLLOUT = 2 ^ 2" by (simp add: POLLOUT_def)
  have b: "bit POLLOUT n \<longleftrightarrow> n = 2" for n by (subst p, subst bit_exp_iff) auto
  show ?thesis
  proof (cases "bit ev 2")
    case True
    then have "ev AND POLLOUT = POLLOUT" by (intro bit_eqI) (auto simp: bit_and_iff b)
    then show ?thesis ..
  next
    case False
    then have "ev AND POLLOUT = 0" by (intro bit_eqI) (auto simp: bit_and_iff b)
    then show ?thesis ..
  qed
qed

lemma listening_mask:
  assumes "listening c"
  shows "ch_events c AND ready_mask r w = ready_mask r (w \<and> isWriting c)"
proof -
  let ?e = "ch_events c"
  have e: "?e AND kReadEvent = kReadEvent" using assms by (simp add: listening_def)
  have "?e AND POLLIN = (?e AND kReadEvent) AND POLLIN" by (rule bit_eqI) (auto simp: bit_simps event_bits)
  then have inp: "?e AND POLLIN = POLLIN" unfolding e by (simp add: event_bits)
  have "?e AND (x OR y) = (?e AND x) OR (?e AND y)" for x y by (rule bit_eqI) (auto simp: bit_simps)
  then have "?e AND ready_mask r w = (?e AND (if r then POLLIN else 0)) OR (?e AND (if w then POLLOUT else 0))"
    by (simp add: ready_mask_def)
  then show ?thesis using inp bit_or_none [of ?e] by (auto simp: ready_mask_def isWriting_def kWriteEvent_def)
qed

text \<open>\<open>fillActiveChannels\<close> on events of different channels.\<close>

lemma fill_events:
  assumes "\<forall>e \<in> set evs. m (snd e) \<noteq> None" "distinct (map snd evs)"
  shows "\<exists>m'. fillActiveChannels m evs as = Inr (m', as @ map snd evs) \<and> (\<forall>a. map_option quiet (m' a) = map_option quiet (m a)) \<and>
    (\<forall>e \<in> set evs. m' (snd e) = map_option (setRevents (fst e)) (m (snd e))) \<and> (\<forall>a. a \<notin> snd ` set evs \<longrightarrow> m' a = m a)"
  using assms
proof (induction evs arbitrary: m as)
  case (Cons e evs)
  obtain r a where e: "e = (r, a)" by (cases e)
  obtain c where c: "m a = Some c" using Cons.prems(1) e by auto
  let ?m = "m(a \<mapsto> setRevents r c)"
  have a: "a \<notin> snd ` set evs" using Cons.prems(2) e by simp
  have "\<forall>e \<in> set evs. ?m (snd e) \<noteq> None" "distinct (map snd evs)" using Cons.prems by simp_all
  from Cons.IH [OF this, of "as @ [a]"] obtain m' where
    m': "fillActiveChannels ?m evs (as @ [a]) = Inr (m', (as @ [a]) @ map snd evs)" "\<forall>b. map_option quiet (m' b) = map_option quiet (?m b)"
    "\<forall>e \<in> set evs. m' (snd e) = map_option (setRevents (fst e)) (?m (snd e))" "\<forall>b. b \<notin> snd ` set evs \<longrightarrow> m' b = ?m b" by blast
  have "map_option quiet (m' b) = map_option quiet (m b)" for b using m'(2) c by simp
  moreover have "m' (snd x) = map_option (setRevents (fst x)) (m (snd x))" if "x \<in> set evs" for x
  proof -
    have "snd x \<noteq> a" using a that by auto
    then show ?thesis using m'(3) that by simp
  qed
  moreover have "m' a = Some (setRevents r c)" using m'(4) a by simp
  moreover have "m' b = m b" if "b \<notin> snd ` set (e # evs)" for b using m'(4) that e by simp
  ultimately show ?case using m'(1) c e by (intro exI [of _ m']) simp
qed simp

lemma round_start:
  assumes "\<forall>e \<in> set evs. chans w (snd e) \<noteq> None" "distinct (map snd evs)"
  obtains u where "loop_body call (Inr evs, t) w = rbind (handle_active call (map snd evs) u)
      (\<lambda>l. doPendingFunctors call (l\<lparr>currentActiveChannel := None, loop_eventHandling := False\<rparr>))"
    "touched w u" "\<forall>e \<in> set evs. chans u (snd e) = map_option (setRevents (fst e)) (chans w (snd e))"
    "\<forall>a. a \<notin> snd ` set evs \<longrightarrow> chans u a = chans w a"
proof -
  from fill_events [OF assms, of "[]"] obtain m where
    m: "fillActiveChannels (chans w) evs [] = Inr (m, map snd evs)" "\<forall>a. map_option quiet (m a) = map_option quiet (chans w a)"
    "\<forall>e \<in> set evs. m (snd e) = map_option (setRevents (fst e)) (chans w (snd e))" "\<forall>a. a \<notin> snd ` set evs \<longrightarrow> m a = chans w a" by auto
  let ?p = "if length evs = events_size (loop_poller w) \<and> evs \<noteq> [] then (loop_poller w)\<lparr>events_size := 2 * events_size (loop_poller w)\<rparr>
    else loop_poller w"
  have poll: "ep_poll (chans w) (loop_poller w) (Inr evs) [] = Inr (m, ?p, map snd evs)"
    using m(1) by (cases "evs = []") (simp_all add: ep_poll_def)
  let ?u = "w\<lparr>iteration := iteration w + 1, chans := m, loop_poller := ?p, activeChannels := map snd evs, pollReturnTime := t,
      loop_eventHandling := True\<rparr>"
  have t: "touched w ?u" using m(2) by (simp add: touched_def loop_rest_def)
  have run: "loop_body call (Inr evs, t) w = rbind (handle_active call (map snd evs) ?u)
      (\<lambda>l. doPendingFunctors call (l\<lparr>currentActiveChannel := None, loop_eventHandling := False\<rparr>))"
    using poll by (simp add: loop_body_def)
  show ?thesis by (rule that [OF run t]) (use m in simp_all)
qed

lemma round_end:
  assumes "pendingFunctors w = []"
  obtains w' where "doPendingFunctors call (w\<lparr>currentActiveChannel := None, loop_eventHandling := False\<rparr>) = Inr w'" "touched w w'"
    "chans w' = chans w"
  by (rule that [of "w\<lparr>currentActiveChannel := None, loop_eventHandling := False, pendingFunctors := []\<rparr>"])
    (use assms in \<open>simp_all add: doPendingFunctors_def touched_def loop_rest_def\<close>)

text \<open>The wakeup channel is read.\<close>

definition own_wakeup :: "'u world \<Rightarrow> bool" where
  "own_wakeup w \<longleftrightarrow> wakeupChannel w \<noteq> c_channel (w_conn w) \<and>
     (\<exists>d. chans w (wakeupChannel w) = Some d \<and> readCallback d = Some WakeupRead)"

lemma touched_wakeup: "touched w w' \<Longrightarrow> own_wakeup w \<Longrightarrow> own_wakeup w'"
  using touchedD(2,5) [of w w'] touched_channel [of w w' "wakeupChannel w"] quietD(6) unfolding own_wakeup_def by metis

abbreviation conn_call :: "'u env \<Rightarrow> int \<Rightarrow> addr \<Rightarrow> 'u world \<Rightarrow> 'u world result" where
  "conn_call env tid a w \<equiv> handleEvent chans (\<lambda>m. chans_update (\<lambda>_. m)) (run_closure env tid) a w"

lemma wakeup_event:
  assumes "own_wakeup w" "chans w (wakeupChannel w) = Some d" "ch_revents d = POLLIN"
  obtains w' where "conn_call env tid (wakeupChannel w) (w\<lparr>currentActiveChannel := Some (wakeupChannel w)\<rparr>) = Inr w'" "touched w w'"
    "\<forall>a. a \<noteq> wakeupChannel w \<longrightarrow> chans w' a = chans w a"
proof -
  let ?b = "wakeupChannel w"
  let ?w = "w\<lparr>currentActiveChannel := Some ?b\<rparr>"
  have d: "readCallback d = Some WakeupRead" using assms(1,2) by (auto simp: own_wakeup_def)
  let ?v = "loop_handleRead (?w\<lparr>chans := (chans ?w)(?b \<mapsto> d\<lparr>ch_eventHandling := True\<rparr>)\<rparr>)"
  let ?w' = "?v\<lparr>chans := (chans ?w)(?b \<mapsto> d\<lparr>ch_eventHandling := False\<rparr>)\<rparr>"
  have m: "chans ?w ?b = Some d" using assms(2) by simp
  have run: "conn_call env tid ?b ?w = Inr ?w'"
    using d assms(2,3) by (simp add: handleEvent_def handleEventWithGuard_def dispatch_def has_event_def event_bits loop_handleRead_def)
  have "touched w ?w'" using assms(2) by (simp add: touched_def loop_rest_def loop_handleRead_def)
  then show ?thesis by (rule that [OF run]) (simp add: loop_handleRead_def)
qed

lemma wakeup_list:
  assumes "own_wakeup w" "b = wakeupChannel w" "as = [] \<or> as = [b] \<and> (\<exists>d. chans w b = Some d \<and> ch_revents d = POLLIN)"
  obtains w' where "handle_active (run_closure env tid) as w = Inr w'" "touched w w'" "\<forall>a. a \<noteq> b \<longrightarrow> chans w' a = chans w a"
proof (cases "as = []")
  case True
  then show ?thesis by (intro that [of w]) simp_all
next
  case False
  then obtain d where d: "as = [b]" "chans w (wakeupChannel w) = Some d" "ch_revents d = POLLIN" using assms(2,3) by auto
  from wakeup_event [OF assms(1) d(2,3), of env tid] obtain w' where
    "conn_call env tid (wakeupChannel w) (w\<lparr>currentActiveChannel := Some (wakeupChannel w)\<rparr>) = Inr w'" "touched w w'"
    "\<forall>a. a \<noteq> wakeupChannel w \<longrightarrow> chans w' a = chans w a" .
  then show ?thesis using d(1) assms(2) by (intro that [of w']) simp_all
qed

lemma handle_active_append: "handle_active call (as @ bs) l = rbind (handle_active call as l) (handle_active call bs)"
proof (induction as arbitrary: l)
  case (Cons a as)
  then show ?case
    by (cases "handleEvent chans (\<lambda>m. chans_update (\<lambda>_. m)) call a (l\<lparr>currentActiveChannel := Some a\<rparr>)") simp_all
qed simp

text \<open>The connection's channel, with its four callbacks, calls the handlers of the events that are reported.\<close>

definition bound :: "'u closure channel \<Rightarrow> bool" where
  "bound c \<longleftrightarrow> readCallback c = Some ConnHandleRead \<and> writeCallback c = Some ConnHandleWrite \<and>
     errorCallback c = Some ConnHandleError \<and> closeCallback c = Some ConnHandleClose"

lemma bound_same: "same_channel c c' \<Longrightarrow> bound c' = bound c"
  using same_channelD [of c c'] by (simp add: bound_def)

lemma bound_quiet: "quiet c' = quiet c \<Longrightarrow> bound c' = bound c"
  using quietD [of c' c] by (simp add: bound_def)

definition chan_kept :: "addr \<Rightarrow> 'u world \<Rightarrow> 'u world \<Rightarrow> bool" where
  "chan_kept a u v \<longleftrightarrow> loop_rest v = loop_rest u \<and> c_channel (w_conn v) = c_channel (w_conn u) \<and>
     (\<forall>b. b \<noteq> a \<longrightarrow> chans v b = chans u b) \<and> (\<forall>c. chans u a = Some c \<longrightarrow> (\<exists>c'. chans v a = Some c' \<and> same_channel c c'))"

lemma chan_kept_refl [simp]: "chan_kept a u u"
  by (simp add: chan_kept_def)

lemma chan_kept_beside: "beside (c_channel (w_conn u)) u v \<Longrightarrow> c_channel (w_conn v) = c_channel (w_conn u) \<Longrightarrow> chan_kept (c_channel (w_conn u)) u v"
  by (auto simp: chan_kept_def beside_def)

lemma ready_mask_events:
  assumes "ch_revents c = ready_mask inp out"
  shows "\<not> has_event c POLLHUP" "\<not> has_event c (POLLERR OR POLLNVAL)"
    "has_event c (POLLIN OR POLLPRI OR POLLRDHUP) = inp" "has_event c POLLOUT = out"
  using assms by (cases inp; cases out; simp add: has_event_def ready_mask_def event_bits)+

lemma conn_event_run:
  assumes c: "chans u a = Some c" "bound c" "ch_revents c = ready_mask inp out"
    and u0: "u0 = u\<lparr>chans := (chans u)(a \<mapsto> c\<lparr>ch_eventHandling := True\<rparr>)\<rparr>"
    and got: "(if inp then conn_handleRead env tid u0 else Inr u0) = Inr u1" "chan_kept a u0 u1"
    and put: "(if out then conn_handleWrite env tid u1 else Inr u1) = Inr u2" "chan_kept a u1 u2"
  obtains w' c' where "conn_call env tid a u = Inr w'" "touched u2 w'" "chans w' a = Some c'" "\<not> ch_eventHandling c'"
    "\<forall>b. b \<noteq> a \<longrightarrow> chans w' b = chans u b" "loop_rest w' = loop_rest u"
proof -
  let ?c0 = "c\<lparr>ch_eventHandling := True\<rparr>"
  have m0: "chans u0 a = Some ?c0" by (simp add: u0)
  then obtain c1 where c1: "chans u1 a = Some c1" "same_channel ?c0 c1" using got(2) by (auto simp: chan_kept_def)
  then obtain c2 where c2: "chans u2 a = Some c2" "same_channel c1 c2" using put(2) by (auto simp: chan_kept_def)
  have r: "ch_revents ?c0 = ready_mask inp out" "ch_revents c1 = ready_mask inp out"
    "readCallback ?c0 = Some ConnHandleRead" "writeCallback c1 = Some ConnHandleWrite"
    using c(2,3) same_channelD [OF c1(2)] by (simp_all add: bound_def)
  note e0 = ready_mask_events [OF r(1)] and e1 = ready_mask_events [OF r(2)]
  let ?d = "dispatch chans (run_closure env tid) a"
  let ?w' = "u2\<lparr>chans := (chans u2)(a \<mapsto> c2\<lparr>ch_eventHandling := False\<rparr>)\<rparr>"
  have close: "?d (\<lambda>c. has_event c POLLHUP \<and> \<not> has_event c POLLIN) closeCallback u0 = Inr u0"
    and error: "?d (\<lambda>c. has_event c (POLLERR OR POLLNVAL)) errorCallback u0 = Inr u0"
    using m0 e0(1,2) by (simp_all add: dispatch_def)
  have rd: "?d (\<lambda>c. has_event c (POLLIN OR POLLPRI OR POLLRDHUP)) readCallback u0 = Inr u1"
    using m0 e0(3) r(3) got(1) by (cases inp) (simp_all add: dispatch_def)
  have wr: "?d (\<lambda>c. has_event c POLLOUT) writeCallback u1 = Inr u2"
    using c1(1) e1(4) r(4) put(1) by (cases out) (simp_all add: dispatch_def)
  have flag: "chan_upd (chans u) a (\<lambda>c. c\<lparr>ch_eventHandling := True\<rparr>) = Inr ((chans u)(a \<mapsto> ?c0))" using c(1) by simp
  have "conn_call env tid a u = Inr ?w'"
    unfolding handleEvent_def handleEventWithGuard_def flag rbind.simps u0 [symmetric] close error rd wr
    by (simp add: c2(1))
  moreover have "touched u2 ?w'" using c2(1) by (simp add: touched_def loop_rest_def)
  moreover have "\<forall>b. b \<noteq> a \<longrightarrow> chans ?w' b = chans u b" using got(2) put(2) by (simp add: chan_kept_def u0)
  moreover have "loop_rest u0 = loop_rest u" by (simp add: u0 loop_rest_def)
  then have "loop_rest u2 = loop_rest u" using got(2) put(2) by (simp add: chan_kept_def)
  then have "loop_rest ?w' = loop_rest u" by (simp add: loop_rest_def)
  ultimately show ?thesis by (intro that [of ?w' "c2\<lparr>ch_eventHandling := False\<rparr>"]) simp_all
qed

text \<open>So the handlers of a round run one after the other, on a world that differs from the one before in flags;
  \<open>Q\<close> is what they do.\<close>

definition runs_handlers :: "'u env \<Rightarrow> int \<Rightarrow> bool \<Rightarrow> bool \<Rightarrow> addr \<Rightarrow> ('u world \<Rightarrow> 'u world \<Rightarrow> bool) \<Rightarrow> 'u world \<Rightarrow> bool" where
  "runs_handlers env tid inp out a Q u \<longleftrightarrow> (\<exists>u1 u2. (if inp then conn_handleRead env tid u else Inr u) = Inr u1 \<and> chan_kept a u u1 \<and>
     (if out then conn_handleWrite env tid u1 else Inr u1) = Inr u2 \<and> chan_kept a u1 u2 \<and> Q u u2)"

lemma conn_list:
  assumes c: "chans v a = Some c" "bound c" "\<not> ch_eventHandling c" "inp \<or> out \<Longrightarrow> ch_revents c = ready_mask inp out"
    and run: "\<And>u. touched v u \<Longrightarrow> runs_handlers env tid inp out a Q u"
  obtains u u2 w' c' where "handle_active (run_closure env tid) (if inp \<or> out then [a] else []) v = Inr w'" "touched v u" "Q u u2"
    "touched u2 w'" "chans w' a = Some c'" "\<not> ch_eventHandling c'" "\<forall>b. b \<noteq> a \<longrightarrow> chans w' b = chans v b" "loop_rest w' = loop_rest v"
    "c_channel (w_conn w') = c_channel (w_conn v)" "inp \<or> out \<or> chans w' a = chans v a"
proof (cases "inp \<or> out")
  case False
  from run [of v] False have "Q v v" by (simp add: runs_handlers_def)
  then show ?thesis using False c by (intro that [of v v v c]) simp_all
next
  case True
  let ?v = "v\<lparr>currentActiveChannel := Some a\<rparr>"
  let ?u = "?v\<lparr>chans := (chans ?v)(a \<mapsto> c\<lparr>ch_eventHandling := True\<rparr>)\<rparr>"
  have t: "touched v ?u" using c(1) by (simp add: touched_def loop_rest_def)
  from run [OF t] obtain u1 u2 where h: "(if inp then conn_handleRead env tid ?u else Inr ?u) = Inr u1" "chan_kept a ?u u1"
    "(if out then conn_handleWrite env tid u1 else Inr u1) = Inr u2" "chan_kept a u1 u2" "Q ?u u2" unfolding runs_handlers_def by blast
  have m: "chans ?v a = Some c" using c(1) by simp
  obtain w' c' where w': "conn_call env tid a ?v = Inr w'" "touched u2 w'" "chans w' a = Some c'" "\<not> ch_eventHandling c'"
    "\<forall>b. b \<noteq> a \<longrightarrow> chans w' b = chans ?v b" "loop_rest w' = loop_rest ?v"
    by (rule conn_event_run [OF m c(2) c(4) [OF True] refl h(1-4)])
  have "loop_rest ?v = loop_rest v" by (simp add: loop_rest_def)
  moreover have "c_channel (w_conn w') = c_channel (w_conn v)"
    using touchedD(5) [OF w'(2)] h(2,4) by (simp add: chan_kept_def)
  moreover have "handle_active (run_closure env tid) (if inp \<or> out then [a] else []) v = Inr w'" using True w'(1) by simp
  moreover have "inp \<or> out \<or> chans w' a = chans v a" using True by blast
  ultimately show ?thesis using t h(5) w' by (intro that [of w' ?u u2 c']) simp_all
qed

text \<open>The active channels of a round, and the world before the first of them is handled.\<close>

definition wake_before :: "io_round \<Rightarrow> addr \<Rightarrow> addr list" where
  "wake_before rd b = (if r_wakeup rd = WakeupFirst then [b] else [])"

definition wake_after :: "io_round \<Rightarrow> addr \<Rightarrow> addr list" where
  "wake_after rd b = (if r_wakeup rd = WakeupLast then [b] else [])"

lemma round_events_parts:
  assumes "conn_events (r_in rd) (r_out rd) w = (if busy then [(ev, a)] else [])"
  shows "map snd (round_events rd w) = wake_before rd (wakeupChannel w) @ (if busy then [a] else []) @ wake_after rd (wakeupChannel w)"
    "e \<in> set (round_events rd w) \<longleftrightarrow> busy \<and> e = (ev, a) \<or> r_wakeup rd \<noteq> NoWakeup \<and> e = (POLLIN, wakeupChannel w)"
  using assms by (cases "r_wakeup rd"; auto simp: round_events_def Let_def wake_before_def wake_after_def)+

lemma round_filled:
  assumes evs: "conn_events (r_in rd) (r_out rd) w = (if busy then [(ev, a)] else [])"
    and c: "chans w a = Some c" "chans w (wakeupChannel w) \<noteq> None" "wakeupChannel w \<noteq> a"
  obtains v where "loop_round env tid rd w = rbind
      (handle_active (run_closure env tid) (wake_before rd (wakeupChannel w) @ (if busy then [a] else []) @ wake_after rd (wakeupChannel w)) v)
      (\<lambda>l. doPendingFunctors (run_closure env tid) (l\<lparr>currentActiveChannel := None, loop_eventHandling := False\<rparr>))"
    "touched w v" "chans v a = Some (if busy then setRevents ev c else c)"
    "r_wakeup rd \<noteq> NoWakeup \<longrightarrow> (\<exists>d. chans v (wakeupChannel w) = Some d \<and> ch_revents d = POLLIN)"
proof -
  let ?evs = "round_events rd w" and ?b = "wakeupChannel w"
  note parts = round_events_parts [OF evs]
  have known: "\<forall>e \<in> set ?evs. chans w (snd e) \<noteq> None" using parts(2) c(1,2) by auto
  have dist: "distinct (map snd ?evs)" unfolding parts(1) using c(3) by (simp add: wake_before_def wake_after_def)
  from round_start [OF known dist, of "run_closure env tid" "r_time rd"] obtain v where
    v: "loop_body (run_closure env tid) (Inr ?evs, r_time rd) w = rbind (handle_active (run_closure env tid) (map snd ?evs) v)
      (\<lambda>l. doPendingFunctors (run_closure env tid) (l\<lparr>currentActiveChannel := None, loop_eventHandling := False\<rparr>))"
    "touched w v" "\<forall>e \<in> set ?evs. chans v (snd e) = map_option (setRevents (fst e)) (chans w (snd e))"
    "\<forall>a. a \<notin> snd ` set ?evs \<longrightarrow> chans v a = chans w a" .
  have "chans v a = Some (if busy then setRevents ev c else c)"
  proof (cases busy)
    case True
    then have "(ev, a) \<in> set ?evs" using parts(2) by simp
    with v(3) True c(1) show ?thesis by fastforce
  next
    case False
    then have "a \<notin> snd ` set ?evs" using parts(2) c(3) by force
    with v(4) False c(1) show ?thesis by simp
  qed
  moreover have "\<exists>d. chans v ?b = Some d \<and> ch_revents d = POLLIN" if "r_wakeup rd \<noteq> NoWakeup"
  proof -
    have "(POLLIN, ?b) \<in> set ?evs" using parts(2) that by simp
    with v(3) c(2) show ?thesis by (fastforce simp: setRevents_def)
  qed
  ultimately show ?thesis using v(1,2) parts(1) by (intro that [of v]) (simp_all add: loop_round_def)
qed

lemma round_run:
  assumes c: "chans w (c_channel (w_conn w)) = Some c" "bound c" "\<not> ch_eventHandling c"
    and own: "own_wakeup w"
    and evs: "conn_events (r_in rd) (r_out rd) w = (if inp \<or> out then [(ready_mask inp out, c_channel (w_conn w))] else [])"
    and run: "\<And>u. touched w u \<Longrightarrow> runs_handlers env tid inp out (c_channel (w_conn w)) Q u"
  obtains u u2 w' c' where
    "loop_round env tid rd w = doPendingFunctors (run_closure env tid) (w'\<lparr>currentActiveChannel := None, loop_eventHandling := False\<rparr>)"
    "touched w u" "Q u u2" "touched u2 w'" "chans w' (c_channel (w_conn w)) = Some c'" "\<not> ch_eventHandling c'" "own_wakeup w'"
    "pendingFunctors w' = pendingFunctors w" "inp \<or> out \<or> chans w' (c_channel (w_conn w)) = chans w (c_channel (w_conn w))"
proof -
  let ?a = "c_channel (w_conn w)" and ?b = "wakeupChannel w" and ?call = "run_closure env tid"
  have b: "chans w ?b \<noteq> None" "?b \<noteq> ?a" using own by (auto simp: own_wakeup_def)
  let ?pre = "wake_before rd ?b" and ?post = "wake_after rd ?b" and ?c = "if inp \<or> out then setRevents (ready_mask inp out) c else c"
  obtain v where v: "loop_round env tid rd w = rbind (handle_active ?call (?pre @ (if inp \<or> out then [?a] else []) @ ?post) v)
      (\<lambda>l. doPendingFunctors ?call (l\<lparr>currentActiveChannel := None, loop_eventHandling := False\<rparr>))" "touched w v" "chans v ?a = Some ?c"
    "r_wakeup rd \<noteq> NoWakeup \<longrightarrow> (\<exists>d. chans v ?b = Some d \<and> ch_revents d = POLLIN)"
    by (rule round_filled [where env = env and tid = tid, OF evs c(1) b])
  have vc: "bound ?c" "\<not> ch_eventHandling ?c" "inp \<or> out \<Longrightarrow> ch_revents ?c = ready_mask inp out"
    using c by (simp_all add: bound_def setRevents_def)
  have bv: "?b = wakeupChannel v" using touchedD(2) [OF v(2)] by simp
  have "?pre = [] \<or> ?pre = [?b] \<and> (\<exists>d. chans v ?b = Some d \<and> ch_revents d = POLLIN)" using v(4) by (auto simp: wake_before_def)
  from wakeup_list [OF touched_wakeup [OF v(2) own] bv this, of env tid] obtain v1 where
    v1: "handle_active ?call ?pre v = Inr v1" "touched v v1" "\<forall>a. a \<noteq> ?b \<longrightarrow> chans v1 a = chans v a" .
  have w1: "touched w v1" by (rule touched_trans [OF v(2) v1(2)])
  have v1a: "chans v1 ?a = Some ?c" using v1(3) v(3) b(2) by simp
  have run1: "runs_handlers env tid inp out ?a Q u" if "touched v1 u" for u using run touched_trans [OF w1 that] by blast
  obtain u u2 v2 c' where
    v2: "handle_active ?call (if inp \<or> out then [?a] else []) v1 = Inr v2" "touched v1 u" "Q u u2" "touched u2 v2" "chans v2 ?a = Some c'"
    "\<not> ch_eventHandling c'" "\<forall>b. b \<noteq> ?a \<longrightarrow> chans v2 b = chans v1 b" "loop_rest v2 = loop_rest v1"
    "c_channel (w_conn v2) = c_channel (w_conn v1)" "inp \<or> out \<or> chans v2 ?a = chans v1 ?a" by (rule conn_list [OF v1a vc run1])
  have rest2: "wakeupChannel v2 = ?b" using v2(8) touchedD(2) [OF w1] by (simp add: loop_rest_def)
  have own2: "own_wakeup v2"
    using touched_wakeup [OF w1 own] v2(7,9) rest2 touchedD(2,5) [OF w1] by (auto simp: own_wakeup_def)
  have post: "?post = [] \<or> ?post = [?b] \<and> (\<exists>d. chans v2 ?b = Some d \<and> ch_revents d = POLLIN)"
    using v(4) v1(1) v2(7) b(2) by (auto simp: wake_before_def wake_after_def)
  from wakeup_list [OF own2 rest2 [symmetric] post, of env tid] obtain v3 where
    v3: "handle_active ?call ?post v2 = Inr v3" "touched v2 v3" "\<forall>a. a \<noteq> ?b \<longrightarrow> chans v3 a = chans v2 a" .
  show ?thesis
  proof (rule that [of v3 u u2 c'])
    show "loop_round env tid rd w = doPendingFunctors ?call (v3\<lparr>currentActiveChannel := None, loop_eventHandling := False\<rparr>)"
      using v(1) v1(1) v2(1) v3(1) by (simp add: handle_active_append)
    show "pendingFunctors v3 = pendingFunctors w"
      using touchedD(3) [OF v3(2)] v2(8) touchedD(3) [OF w1] by (simp add: loop_rest_def)
    show "inp \<or> out \<or> chans v3 ?a = chans w ?a" using v2(10) v3(3) v1a c(1) b(2) by (cases "inp \<or> out") auto
  qed (use v2 v3(3) b(2) touched_trans [OF w1 v2(2)] touched_trans [OF v2(4) v3(2)] touched_wakeup [OF v3(2) own2] in simp_all)
qed

text \<open>The connection is registered for reading, between two rounds.\<close>

definition in_loop :: "'u world \<Rightarrow> bool" where
  "in_loop w \<longleftrightarrow> own_wakeup w \<and>
     (\<exists>c. chans w (c_channel (w_conn w)) = Some c \<and> bound c \<and> listening c \<and> \<not> ch_eventHandling c \<and> ch_fd c = c_socket (w_conn w))"

lemma in_loop_after:
  assumes w: "in_loop w" and t: "touched w u" "touched u2 v"
    and u2: "beside (c_channel (w_conn w)) u u2" "c_channel (w_conn u2) = c_channel (w_conn w)" "c_socket (w_conn u2) = c_socket (w_conn w)"
    and v: "\<And>c. chans v (c_channel (w_conn w)) = Some c \<Longrightarrow> \<not> ch_eventHandling c" "own_wakeup v"
  shows "in_loop v"
proof -
  let ?a = "c_channel (w_conn w)"
  obtain c where c: "chans w ?a = Some c" "bound c" "listening c" "ch_fd c = c_socket (w_conn w)" using w by (auto simp: in_loop_def)
  obtain d where d: "chans u ?a = Some d" "quiet d = quiet c" using touched_channel [OF t(1) c(1)] .
  obtain d2 where d2: "chans u2 ?a = Some d2" "same_channel d d2" "listening d \<longrightarrow> listening d2" using besideD(5) [OF u2(1) d(1)] by blast
  obtain c2 where c2: "chans v ?a = Some c2" "quiet c2 = quiet d2" using touched_channel [OF t(2) d2(1)] .
  have "bound c2" "listening c2" "ch_fd c2 = c_socket (w_conn w)"
    using c(2-4) bound_quiet [OF d(2)] bound_same [OF d2(2)] bound_quiet [OF c2(2)] quietD(1,10) [OF d(2)] quietD(1,10) [OF c2(2)]
      d2(3) same_channelD(1) [OF d2(2)] by simp_all
  moreover have "w_conn v = w_conn u2" by (rule touchedD(5) [OF t(2)])
  ultimately show ?thesis using c2(1) v u2(2,3) by (simp add: in_loop_def)
qed

lemma listening_events:
  assumes "chans_ok w" "chans w (c_channel (w_conn w)) = Some c" "listening c" "ch_fd c = c_socket (w_conn w)"
  shows "conn_events inp out w =
    (if inp \<or> out \<and> writing w then [(ready_mask inp (out \<and> writing w), c_channel (w_conn w))] else [])"
proof -
  have pok: "poller_ok (chans w) (loop_poller w)" using assms(1) by (simp add: chans_ok_def)
  have "interest_of w (c_socket (w_conn w)) = Some (ch_events c, c_channel (w_conn w))"
    using registered_iff [OF pok] assms(2-4) by (auto simp: listening_def)
  moreover have "writing w = isWriting c" using assms(2) by (simp add: writing_def)
  then have "ch_events c AND ready_mask inp out = ready_mask inp (out \<and> writing w)" using listening_mask [OF assms(3)] by simp
  ultimately have "conn_events inp out w = (if ready_mask inp (out \<and> writing w) = 0 then []
      else [(ready_mask inp (out \<and> writing w), c_channel (w_conn w))])" by (simp only: conn_events_def option.case prod.case Let_def)
  moreover have "(ready_mask i u = 0) = (\<not> i \<and> \<not> u)" for i u by (cases i; cases u; simp add: ready_mask_def event_bits)
  ultimately show ?thesis by auto
qed

lemma idle_round:
  assumes w: "in_loop w" "chans_ok w" "pendingFunctors w = []"
    and run: "\<And>u. touched w u \<Longrightarrow> runs_handlers env tid (r_in rd) (r_out rd \<and> writing w) (c_channel (w_conn w)) Q u"
  obtains u u2 v c' where "loop_round env tid rd w = Inr v" "touched w u" "Q u u2" "touched u2 v" "pendingFunctors v = []"
    "chans v (c_channel (w_conn w)) = Some c'" "\<not> ch_eventHandling c'" "own_wakeup v"
proof -
  obtain c where c: "chans w (c_channel (w_conn w)) = Some c" "bound c" "listening c" "\<not> ch_eventHandling c" "ch_fd c = c_socket (w_conn w)"
    and own: "own_wakeup w" using w(1) by (auto simp: in_loop_def)
  obtain u u2 v c' where
    v: "loop_round env tid rd w = doPendingFunctors (run_closure env tid) (v\<lparr>currentActiveChannel := None, loop_eventHandling := False\<rparr>)"
    "touched w u" "Q u u2" "touched u2 v" "chans v (c_channel (w_conn w)) = Some c'" "\<not> ch_eventHandling c'" "own_wakeup v"
    "pendingFunctors v = pendingFunctors w"
    "r_in rd \<or> (r_out rd \<and> writing w) \<or> chans v (c_channel (w_conn w)) = chans w (c_channel (w_conn w))"
    by (rule round_run [OF c(1,2,4) own listening_events [OF w(2) c(1,3,5)] run])
  from round_end [of v "run_closure env tid"] v(8) w(3) obtain w' where
    w': "doPendingFunctors (run_closure env tid) (v\<lparr>currentActiveChannel := None, loop_eventHandling := False\<rparr>) = Inr w'" "touched v w'"
    "chans w' = chans v" by auto
  show ?thesis
    by (rule that [of w' u u2 c'])
      (use v w(3) w' touchedD(3) [OF w'(2)] touched_trans [OF v(4) w'(2)] touched_wakeup [OF w'(2) v(7)] in simp_all)
qed

section \<open>Functors\<close>

text \<open>A round with one functor, while the kernel has no interest in the connection's socket.\<close>

lemma functor_round:
  assumes c: "chans w (c_channel (w_conn w)) = Some c" "bound c" "\<not> ch_eventHandling c"
    and own: "own_wakeup w" and none: "interest_of w (c_socket (w_conn w)) = None" and one: "pendingFunctors w = [f]"
  obtains v where "loop_round env tid rd w = run_closure env tid f v" "touched (w\<lparr>pendingFunctors := []\<rparr>) v"
    "chans v (c_channel (w_conn w)) = Some c" "own_wakeup v"
proof -
  let ?a = "c_channel (w_conn w)" and ?call = "run_closure env tid"
  have evs: "conn_events (r_in rd) (r_out rd) w = (if False \<or> False then [(ready_mask False False, ?a)] else [])"
    by (simp add: conn_events_def none)
  have run: "runs_handlers env tid False False ?a (\<lambda>u u2. u2 = u) u" for u by (simp add: runs_handlers_def)
  obtain u u2 v c' where
    v: "loop_round env tid rd w = doPendingFunctors ?call (v\<lparr>currentActiveChannel := None, loop_eventHandling := False\<rparr>)"
    "touched w u" "u2 = u" "touched u2 v" "chans v ?a = Some c'" "\<not> ch_eventHandling c'" "own_wakeup v" "pendingFunctors v = pendingFunctors w"
    "False \<or> False \<or> chans v ?a = chans w ?a"
    by (rule round_run [OF c own evs run])
  let ?v = "v\<lparr>currentActiveChannel := None, loop_eventHandling := False, pendingFunctors := []\<rparr>"
  have t: "touched w v" using touched_trans [OF v(2)] v(3,4) by simp
  have "loop_round env tid rd w = ?call f ?v"
    using v(1,8) one by (cases "?call f ?v") (simp_all add: doPendingFunctors_def)
  moreover have "touched (w\<lparr>pendingFunctors := []\<rparr>) ?v" using t by (simp add: touched_def loop_rest_def)
  moreover have "own_wakeup ?v" using v(7) by (simp add: own_wakeup_def)
  ultimately show ?thesis using v(9) c(1) by (intro that [of ?v]) simp_all
qed

end
