(* ===== verification/HttpLoop.thy ===== *)
theory HttpLoop
  imports HttpSite ConnLoop
begin

text \<open>
  A connection of the HTTP server in its loop (\<open>muduo/net/http/HttpServer.cc\<close> on \<open>EventLoop.cc\<close>): rounds of the loop provide
  what \<open>session\<close> asks for, and the functors of another thread establish and destroy the connection.
\<close>

section \<open>Serving\<close>

text \<open>The connection is registered for reading and serves HTTP; \<open>p\<close> has arrived of the next request.\<close>

lemma touched_ready: "touched w w' \<Longrightarrow> http_ready tid p w' = http_ready tid p w"
  using touched_stream(4) [of w w'] touchedD(4,5) [of w w'] by (simp add: http_ready_def getContext_def)

lemma chan_kept_later: "later k u v \<Longrightarrow> chan_kept (c_channel (w_conn u)) u v"
  by (auto simp: later_def intro: chan_kept_beside)

definition serving :: "int \<Rightarrow> string \<Rightarrow> http_value world \<Rightarrow> bool" where
  "serving tid p w \<longleftrightarrow> http_ready tid p w \<and> in_loop w \<and> pendingFunctors w = []"

text \<open>Between \<open>w\<close> and \<open>w'\<close> the loop's other channels and descriptors stayed as they were, and the connection made
  \<open>k\<close> reads.\<close>

definition around :: "addr \<Rightarrow> int \<Rightarrow> 'u world \<Rightarrow> 'u world \<Rightarrow> bool" where
  "around a s w w' \<longleftrightarrow> (\<forall>b. b \<noteq> a \<longrightarrow> map_option quiet (chans w' b) = map_option quiet (chans w b)) \<and>
     (\<forall>fd. fd \<noteq> s \<longrightarrow> interest_of w' fd = interest_of w fd)"

definition onward :: "nat \<Rightarrow> 'u world \<Rightarrow> 'u world \<Rightarrow> bool" where
  "onward k w w' \<longleftrightarrow> c_channel (w_conn w') = c_channel (w_conn w) \<and> c_socket (w_conn w') = c_socket (w_conn w) \<and>
     connectionCallback (w_conn w') = connectionCallback (w_conn w) \<and> c_closeCallback (w_conn w') = c_closeCallback (w_conn w) \<and>
     around (c_channel (w_conn w)) (c_socket (w_conn w)) w w' \<and> reads (w_sys w') = reads (w_sys w) + k"

lemma around_trans: "around a s u v \<Longrightarrow> around a s v w \<Longrightarrow> around a s u w"
  by (simp add: around_def)

lemma around_touched: "touched w w' \<Longrightarrow> around a s w w'"
  using touchedD(8) [of w w'] by (simp add: around_def) (simp add: touched_def)

lemma onward_refl: "onward 0 w w"
  by (simp add: onward_def around_def)

lemma onward_trans: "onward k u v \<Longrightarrow> onward l v w \<Longrightarrow> onward (k + l) u w"
  by (auto simp: onward_def intro: around_trans)

lemma onward_touched: "touched w w' \<Longrightarrow> onward 0 w w'"
  using touchedD(5,6) [of w w'] by (simp add: onward_def around_touched)

lemma onward_later:
  assumes "later k w w'" "chans w (c_channel (w_conn w)) = Some c" "ch_fd c = c_socket (w_conn w)"
  shows "onward k w w'"
proof -
  have b: "beside (c_channel (w_conn w)) w w'" using assms(1) by (simp add: later_def)
  show ?thesis using assms(1) besideD(2) [OF b] besideD(4) [OF b assms(2)] assms(3) by (simp add: onward_def around_def later_def)
qed

text \<open>The handlers of one round, whatever its events: the handler of the output runs after that of the input, if the
  kernel knows that bytes wait.\<close>

definition served :: "http_value env \<Rightarrow> int \<Rightarrow> string \<Rightarrow> string \<Rightarrow> nat \<Rightarrow> nat \<Rightarrow> nat \<Rightarrow> http_value world \<Rightarrow> http_value world \<Rightarrow> bool" where
  "served env tid p s R I k u u' \<longleftrightarrow> http_ready tid p u' \<and> stream env u' = s \<and> room u' \<le> R \<and> in_room u' \<le> I \<and> later k u u'"

lemma serving_handlers:
  assumes env: "writes_ok env" and ready: "http_ready tid p u" "out \<longrightarrow> writing u"
    and inp: "i \<Longrightarrow> \<exists>u1. conn_handleRead (http_env (Suc n) h tid env) tid u = Inr u1 \<and> served env tid p' s R I 1 u u1 \<and>
      (writing u \<longrightarrow> writing u1)"
    and none: "\<not> i \<Longrightarrow> p' = p \<and> s = stream env u \<and> room u \<le> R \<and> in_room u \<le> I"
  shows "runs_handlers (http_env (Suc n) h tid env) tid i out (c_channel (w_conn u)) (served env tid p' s R I (if i then 1 else 0)) u"
proof -
  let ?env = "http_env (Suc n) h tid env" and ?k = "if i then 1 else 0"
  obtain u1 where u1: "(if i then conn_handleRead ?env tid u else Inr u) = Inr u1" "served env tid p' s R I ?k u u1" "writing u \<longrightarrow> writing u1"
  proof (cases i)
    case True
    with inp [OF True] that show ?thesis by auto
  next
    case False
    with none [OF False] that [of u] show ?thesis using ready(1) by (simp add: served_def later_def beside_same)
  qed
  have ready1: "http_ready tid p' u1" using u1(2) by (simp add: served_def)
  obtain u2 where u2: "(if out then conn_handleWrite ?env tid u1 else Inr u1) = Inr u2" "http_ready tid p' u2"
    "stream env u2 = stream env u1" "room u2 = room u1" "in_room u2 = in_room u1" "later 0 u1 u2"
  proof (cases out)
    case True
    then have wr: "writing u1" using u1(3) ready(2) by simp
    from ready_writable [OF ready1 env, of "Suc n" h] obtain u2 where
      "(if writing u1 then conn_handleWrite ?env tid u1 else Inr u1) = Inr u2" "http_ready tid p' u2" "stream env u2 = stream env u1"
      "room u2 = room u1" "in_room u2 = in_room u1" "later 0 u1 u2" by blast
    then show ?thesis using wr True by (intro that [of u2]) simp_all
  next
    case False
    have "later 0 u1 u1" by (simp add: later_def beside_same)
    then show ?thesis using False ready1 by (intro that [of u1]) simp_all
  qed
  have l: "later ?k u u1" using u1(2) by (simp add: served_def)
  have "later ?k u u2" using later_trans [OF l u2(6)] by simp
  then have "served env tid p' s R I ?k u u2" using u1(2) u2(2-5) by (simp add: served_def)
  moreover have "chan_kept (c_channel (w_conn u)) u u1" "chan_kept (c_channel (w_conn u)) u1 u2"
    using chan_kept_later [OF l] chan_kept_later [OF u2(6)] l by (simp_all add: later_def)
  ultimately show ?thesis using u1(1) u2(1) unfolding runs_handlers_def by blast
qed

text \<open>So a round serves: \<open>inp\<close> says what the handler of the input does, if there is input.\<close>

lemma serving_round:
  assumes w: "serving tid p w" and env: "writes_ok env"
    and inp: "\<And>u. touched w u \<Longrightarrow> r_in rd \<Longrightarrow> \<exists>u1. conn_handleRead (http_env (Suc n) h tid env) tid u = Inr u1 \<and>
        served env tid p' s R I 1 u u1 \<and> (writing u \<longrightarrow> writing u1)"
    and none: "\<not> r_in rd \<Longrightarrow> p' = p \<and> s = stream env w \<and> room w \<le> R \<and> in_room w \<le> I"
  shows "\<exists>w'. loop_round (http_env (Suc n) h tid env) tid rd w = Inr w' \<and> serving tid p' w' \<and> stream env w' = s \<and>
    room w' \<le> R \<and> in_room w' \<le> I \<and> onward (if r_in rd then 1 else 0) w w'"
proof -
  let ?env = "http_env (Suc n) h tid env" and ?a = "c_channel (w_conn w)" and ?s = "c_socket (w_conn w)" and ?k = "if r_in rd then 1 else 0"
  let ?Q = "served env tid p' s R I ?k"
  have ready: "http_ready tid p w" and loop: "in_loop w" "pendingFunctors w = []" using w by (auto simp: serving_def)
  have ok: "chans_ok w" using ready by (simp add: http_ready_def streaming_def conn_ok_def)
  have run: "runs_handlers ?env tid (r_in rd) (r_out rd \<and> writing w) ?a ?Q u" if t: "touched w u" for u
  proof -
    note tD = touchedD(5) [OF t] and tS = touched_stream [OF t] touched_ready [OF t]
    have u: "http_ready tid p u" "r_out rd \<and> writing w \<longrightarrow> writing u" using ready tS by simp_all
    have "\<not> r_in rd \<Longrightarrow> p' = p \<and> s = stream env u \<and> room u \<le> R \<and> in_room u \<le> I" using none tS(2) tD by simp
    from serving_handlers [OF env u inp [OF t] this] show ?thesis using tD by simp
  qed
  obtain u u2 w' c' where
    w': "loop_round ?env tid rd w = Inr w'" "touched w u" "?Q u u2" "touched u2 w'" "pendingFunctors w' = []" "chans w' ?a = Some c'"
    "\<not> ch_eventHandling c'" "own_wakeup w'"
    by (rule idle_round [OF loop(1) ok loop(2) run])
  have u2: "http_ready tid p' u2" "stream env u2 = s" "room u2 \<le> R" "in_room u2 \<le> I" "later ?k u u2" using w'(3) by (simp_all add: served_def)
  have du: "c_channel (w_conn u) = ?a" "c_socket (w_conn u) = ?s" using touchedD(5) [OF w'(2)] by simp_all
  have u2': "beside ?a u u2" "c_channel (w_conn u2) = ?a" "c_socket (w_conn u2) = ?s" using u2(5) du by (simp_all add: later_def)
  have "in_loop w'" by (rule in_loop_after [OF loop(1) w'(2,4) u2' _ w'(8)]) (use w'(6,7) in simp)
  then have "serving tid p' w'" using touched_ready [OF w'(4)] u2(1) w'(5) by (simp add: serving_def)
  moreover have "stream env w' = s" "room w' \<le> R" "in_room w' \<le> I"
    using touched_stream(2) [OF w'(4)] u2(2-4) touchedD(5) [OF w'(4)] by simp_all
  moreover have "onward ?k w w'"
  proof -
    obtain c where c: "chans w ?a = Some c" "ch_fd c = ?s" using loop(1) by (auto simp: in_loop_def)
    obtain d where d: "chans u ?a = Some d" "quiet d = quiet c" using touched_channel [OF w'(2) c(1)] .
    then have "onward ?k u u2" using quietD(1) [OF d(2)] c(2) du by (intro onward_later [OF u2(5)]) simp_all
    from onward_trans [OF onward_trans [OF onward_touched [OF w'(2)] this] onward_touched [OF w'(4)]] show ?thesis by simp
  qed
  ultimately show ?thesis using w'(1) by blast
qed

text \<open>What the pieces of a request do in a round.\<close>

lemma round_without_input:
  assumes w: "serving tid p w" "\<not> r_in rd" "fed_by env xs w" "has_space i m w"
  shows "\<exists>w'. loop_round (http_env (Suc n) h tid env) tid rd w = Inr w' \<and> serving tid p w' \<and> fed_by env xs w' \<and>
    has_space i m w' \<and> stream env w' = stream env w \<and> onward 0 w w'"
proof -
  have env: "writes_ok env" using w(3) by (simp add: fed_by_def)
  from serving_round [OF w(1) env, of rd n h p "stream env w" "room w" "in_room w"] w(2) obtain w' where
    "loop_round (http_env (Suc n) h tid env) tid rd w = Inr w'" "serving tid p w'" "stream env w' = stream env w"
    "room w' \<le> room w" "in_room w' \<le> in_room w" "onward 0 w w'" by auto
  then show ?thesis using w(3,4) by (intro exI [of _ w']) (simp add: fed_by_def has_space_def onward_def)
qed

lemma touched_fed:
  assumes "touched w u" "serving tid p w" "fed_by env (x # xs) w" "has_space (length x + i) m w"
  shows "http_ready tid p u" "sys_readv env (w_sys u) = Inr x" "in_room u + length x \<le> vec_max_size" "room u + m \<le> vec_max_size"
    "stream env u = stream env w" "w_conn u = w_conn w"
  using assms touchedD(5,6) [OF assms(1)] touched_stream(2) [OF assms(1)] touched_ready [OF assms(1)] fed_byD(1) [OF assms(3)]
  by (simp_all add: serving_def has_space_def)

lemma fed_onward:
  assumes "fed_by env (x # xs) w" "has_space (length x + i) (k + m) w" "in_room w' \<le> in_room w + length x" "room w' \<le> room w + k" "onward 1 w w'"
  shows "fed_by env xs w'" "has_space i m w'"
  using assms feeds_Cons(2) by (auto simp: fed_by_def has_space_def onward_def)

lemma round_of_piece:
  assumes w: "serving tid p w" "r_in rd" "fed_by env (x # xs) w" "has_space (length x + i) m w" "servable r"
    "x \<noteq> []" "strict_prefix (p @ x) (rendered r)"
  shows "\<exists>w'. loop_round (http_env (Suc n) h tid env) tid rd w = Inr w' \<and> serving tid (p @ x) w' \<and> fed_by env xs w' \<and>
    has_space i m w' \<and> stream env w' = stream env w \<and> onward 1 w w'"
proof -
  have "\<exists>u1. conn_handleRead (http_env (Suc n) h tid env) tid u = Inr u1 \<and>
      served env tid (p @ x) (stream env w) (room w) (in_room w + length x) 1 u u1 \<and> (writing u \<longrightarrow> writing u1)" if t: "touched w u" for u
  proof -
    note u = touched_fed [OF t w(1,3,4)]
    from read_piece [OF u(1) w(5,7,6) u(2,3), of n h] obtain u1 where
      "conn_handleRead (http_env (Suc n) h tid env) tid u = Inr u1" "http_ready tid (p @ x) u1"
      "stream env u1 = stream env u" "room u1 = room u" "in_room u1 \<le> in_room u + length x" "later 1 u u1" "writing u1 = writing u" by blast
    then show ?thesis using u(5,6) by (intro exI [of _ u1]) (simp add: served_def)
  qed
  from serving_round [where rd = rd, OF w(1) fed_byD(3) [OF w(3)] this] w(2) obtain w' where
    w': "loop_round (http_env (Suc n) h tid env) tid rd w = Inr w'" "serving tid (p @ x) w'" "stream env w' = stream env w"
    "room w' \<le> room w" "in_room w' \<le> in_room w + length x" "onward 1 w w'" by auto
  then show ?thesis using fed_onward [OF w(3) _ w'(5) _ w'(6), of i 0 m] w(4) by (intro exI [of _ w']) simp
qed

lemma round_of_last_piece:
  assumes w: "serving tid p w" "r_in rd" "fed_by env (x # xs) w" "has_space (length x + i) (length (answer h r) + m) w"
    "servable r" "persistent h r" "x \<noteq> []" "p @ x = rendered r"
  shows "\<exists>w'. loop_round (http_env (Suc n) h tid env) tid rd w = Inr w' \<and> serving tid [] w' \<and> fed_by env xs w' \<and>
    has_space i m w' \<and> stream env w' = stream env w @ answer h r \<and> onward 1 w w'"
proof -
  note env = fed_byD(3) [OF w(3)]
  have "\<exists>u1. conn_handleRead (http_env (Suc n) h tid env) tid u = Inr u1 \<and>
      served env tid [] (stream env w @ answer h r) (room w + length (answer h r)) (in_room w + length x) 1 u u1 \<and>
      (writing u \<longrightarrow> writing u1)" if t: "touched w u" for u
  proof -
    note u = touched_fed [OF t w(1,3,4)]
    have "room u + length (answer h r) \<le> vec_max_size" using u(4) by simp
    from read_answered [OF u(1) w(5,8,7) u(2) env w(6) u(3) this, of n] obtain u1 where
      "conn_handleRead (http_env (Suc n) h tid env) tid u = Inr u1" "http_ready tid [] u1"
      "stream env u1 = stream env u @ answer h r" "room u1 \<le> room u + length (answer h r)"
      "in_room u1 \<le> in_room u + length x" "later 1 u u1" "writing u \<Longrightarrow> writing u1" by blast
    then show ?thesis using u(5,6) by (intro exI [of _ u1]) (simp add: served_def)
  qed
  from serving_round [where rd = rd, OF w(1) env this] w(2) obtain w' where
    w': "loop_round (http_env (Suc n) h tid env) tid rd w = Inr w'" "serving tid [] w'" "stream env w' = stream env w @ answer h r"
    "room w' \<le> room w + length (answer h r)" "in_room w' \<le> in_room w + length x" "onward 1 w w'" by auto
  then show ?thesis using fed_onward [OF w(3,4) w'(5,4,6)] by blast
qed

text \<open>Rounds of the loop provide what a session needs.\<close>

interpretation rounds: session "loop_round (http_env (Suc n) h tid env) tid" r_in "\<lambda>r. servable r \<and> persistent h r"
    "answer h" "serving tid" "fed_by env" has_space "stream env" onward for n h tid env
  by unfold_locales
    (rule onward_refl onward_trans round_without_input round_of_piece round_of_last_piece; (assumption | elim conjE)+)+

section \<open>Established and destroyed by functors\<close>

text \<open>Another thread tells the loop to establish the connection.\<close>

lemma placed_touched:
  assumes "placed sc tid w" "touched w v" "chans v (c_channel (sc_conn sc)) = chans w (c_channel (sc_conn sc))"
  shows "placed sc tid v"
  using assms(1,3) touchedD [OF assms(2)] touched_ok [OF assms(2)] by (simp add: placed_def)

lemma established_in_loop:
  assumes v: "placed sc tid v" "own_wakeup v" "pendingFunctors v = []" and tid0: "tid0 \<noteq> tid"
    and w: "serves_http w" "sc = make_conn ServerRemoveConnection l name fd a peer w"
  obtains v1 v2 where "runInLoop call tid0 ConnEstablished v = Inr v1" "wakeup_writes v1 = Suc (wakeup_writes v)"
    "loop_round (http_env (Suc n) h tid env) tid rd v1 = Inr v2" "serving tid [] v2" "w_sys v2 = w_sys v"
    "outputBuffer (w_conn v2) = Buffer_init kInitSize" "inputBuffer (w_conn v2) = Buffer_init kInitSize" "onward 0 v v2"
proof -
  let ?a = "c_channel (sc_conn sc)" and ?s = "c_socket (sc_conn sc)"
  let ?c = "conn_channel (Channel_init (loop_this v) ?s)"
  have p: "w_conn v = sc_conn sc" "threadId v = tid" "chans v ?a = Some ?c" "channel_map (loop_poller v) ?s = None"
    using v(1) by (simp_all add: placed_def)
  let ?v1 = "queueInLoop tid0 ConnEstablished v"
  have q: "?v1 = v\<lparr>pendingFunctors := [ConnEstablished], wakeup_writes := Suc (wakeup_writes v)\<rparr>"
    using p(2) v(3) tid0 by (simp add: queueInLoop_def loop_wakeup_def isInLoopThread_def)
  have run1: "runInLoop call tid0 ConnEstablished v = Inr ?v1" using p(2) tid0 by (simp add: runInLoop_def isInLoopThread_def)
  have own1: "own_wakeup ?v1" using v(2) by (simp add: q own_wakeup_def)
  have c1: "chans ?v1 (c_channel (w_conn ?v1)) = Some ?c" "bound ?c" "\<not> ch_eventHandling ?c"
    using p(1,3) by (simp_all add: q conn_channel_new)
      (simp add: bound_def conn_channel_def setReadCallback_def setWriteCallback_def setErrorCallback_def setCloseCallback_def)
  have none: "interest_of ?v1 (c_socket (w_conn ?v1)) = None" using p(1,4) by (simp add: q registered_def)
  from functor_round [OF c1 own1 none, of ConnEstablished "http_env (Suc n) h tid env" tid rd] obtain u where
    u: "loop_round (http_env (Suc n) h tid env) tid rd ?v1 = connectEstablished (http_env (Suc n) h tid env) tid u"
    "touched (?v1\<lparr>pendingFunctors := []\<rparr>) u" "chans u ?a = Some ?c" "own_wakeup u"
    using p(1) by (auto simp: q)
  have "touched v (?v1\<lparr>pendingFunctors := []\<rparr>)" using v(3) by (simp add: touched_def loop_rest_def q)
  then have t: "touched v u" using u(2) by (rule touched_trans)
  have "placed sc tid u" by (rule placed_touched [OF v(1) t]) (simp add: u(3) p(3))
  from http_establish [OF this w] obtain v2 where
    v2: "connectEstablished (http_env (Suc n) h tid env) tid u = Inr v2" "http_ready tid [] v2"
    "w_sys v2 = w_sys u" "outputBuffer (w_conn v2) = Buffer_init kInitSize" "inputBuffer (w_conn v2) = Buffer_init kInitSize"
    "later 0 u v2" and listens: "\<exists>c. chans v2 (c_channel (w_conn v2)) = Some c \<and> listening c" .
  have conn: "w_conn u = sc_conn sc" using touchedD(5) [OF t] p(1) by simp
  have b: "beside ?a u v2" using v2(6) conn by (simp add: later_def)
  note tD = touchedD [OF t]
  have fd: "ch_fd ?c = c_socket (w_conn u)" by (simp add: conn conn_channel_new)
  have on: "onward 0 u v2" using v2(6) u(3) conn fd by (intro onward_later) simp_all
  obtain c2 where c2: "chans v2 ?a = Some c2" "same_channel ?c c2" using besideD(5) [OF b u(3)] by blast
  have none2: "pendingFunctors v2 = []" using besideD(7) [OF b] tD(3) v(3) by simp
  moreover have "own_wakeup v2"
    using u(4) besideD(2,6) [OF b] v2(6) conn by (auto simp: own_wakeup_def later_def)
  moreover have "listening c2" using listens c2(1) v2(6) conn by (auto simp: later_def)
  ultimately have "in_loop v2" using c2 c1(2,3) bound_same [OF c2(2)] same_channelD(1,2) [OF c2(2)] v2(6) conn fd
    by (simp add: in_loop_def later_def)
  then have "serving tid [] v2" using v2(2) none2 by (simp add: serving_def)
  moreover have "onward 0 v v2" using onward_trans [OF onward_touched [OF t] on] by simp
  moreover have "w_sys v2 = w_sys v" using v2(3) tD(6) by simp
  ultimately show ?thesis using run1 u(1) v2 by (intro that [of ?v1 v2]) (simp_all add: q)
qed

text \<open>The end of the stream: the handler of the input closes the connection.\<close>

definition taken_down :: "'u world \<Rightarrow> 'u world \<Rightarrow> bool" where
  "taken_down u u' \<longleftrightarrow> state_of u' = kDisConnected \<and> conn_ok u' \<and> threadId u' = threadId u \<and> c_channel (w_conn u') = c_channel (w_conn u) \<and>
     c_socket (w_conn u') = c_socket (w_conn u) \<and>
     (\<forall>d. chans u (c_channel (w_conn u)) = Some d \<longrightarrow> chans u' = (chans u)(c_channel (w_conn u) \<mapsto> after_events (\<lambda>e. kNoneEvent) d)) \<and>
     (\<forall>fd. fd \<noteq> c_socket (w_conn u) \<longrightarrow> interest_of u' fd = interest_of u fd)"

lemma eof_handlers:
  assumes "conn_ok u" "buf_ok (inputBuffer (w_conn u))" "sys_readv env (w_sys u) = Inr []"
    "connectionCallback (w_conn u) = Some HttpOnConnection" "c_closeCallback (w_conn u) = Some ServerRemoveConnection"
    and d: "chans u (c_channel (w_conn u)) = Some d" "ch_fd d = c_socket (w_conn u)"
  shows "runs_handlers (http_env (Suc n) h tid env) tid True False (c_channel (w_conn u)) taken_down u"
proof -
  obtain u1 where u1: "conn_handleRead (http_env (Suc n) h tid env) tid u = Inr u1" "state_of u1 = kDisConnected" "conn_ok u1"
    "threadId u1 = threadId u" "c_channel (w_conn u1) = c_channel (w_conn u)"
    "chans u1 = (chans u)(c_channel (w_conn u) \<mapsto> after_events (\<lambda>e. kNoneEvent) d)"
    "\<forall>fd. fd \<noteq> ch_fd d \<longrightarrow> interest_of u1 fd = interest_of u fd"
    "\<forall>fd. fd \<noteq> ch_fd d \<longrightarrow> channel_map (loop_poller u1) fd = channel_map (loop_poller u) fd" "loop_rest u1 = loop_rest u"
    "c_socket (w_conn u1) = c_socket (w_conn u)"
    by (rule http_eof [OF assms(1-6), of n h tid])
  have "chan_kept (c_channel (w_conn u)) u u1" using u1(5,6,9) d(1) by (simp add: chan_kept_def)
  moreover have "taken_down u u1" using u1 d by (simp add: taken_down_def)
  ultimately show ?thesis using u1(1) by (simp add: runs_handlers_def)
qed

text \<open>Closed, between two rounds: the kernel has no interest in the socket.\<close>

definition closed_in_loop :: "int \<Rightarrow> 'u world \<Rightarrow> bool" where
  "closed_in_loop tid w \<longleftrightarrow> conn_ok w \<and> state_of w = kDisConnected \<and> threadId w = tid \<and> own_wakeup w \<and> pendingFunctors w = [] \<and>
     (\<exists>c. chans w (c_channel (w_conn w)) = Some c \<and> ch_events c = kNoneEvent \<and> ch_index c = kDeleted \<and> \<not> ch_eventHandling c \<and> bound c \<and>
        ch_fd c = c_socket (w_conn w))"

lemma eof_in_loop:
  assumes w: "serving tid p w" and rd: "r_in rd" "\<not> r_out rd" and eof: "sys_readv env (w_sys w) = Inr []"
    and cb: "connectionCallback (w_conn w) = Some HttpOnConnection" "c_closeCallback (w_conn w) = Some ServerRemoveConnection"
  obtains w' where "loop_round (http_env (Suc n) h tid env) tid rd w = Inr w'" "closed_in_loop tid w'"
    "c_channel (w_conn w') = c_channel (w_conn w)" "c_socket (w_conn w') = c_socket (w_conn w)"
    "around (c_channel (w_conn w)) (c_socket (w_conn w)) w w'"
proof -
  let ?env = "http_env (Suc n) h tid env" and ?a = "c_channel (w_conn w)" and ?s = "c_socket (w_conn w)"
  have loop: "in_loop w" "pendingFunctors w = []" using w by (simp_all add: serving_def)
  obtain c where c: "chans w ?a = Some c" "bound c" "listening c" "ch_fd c = ?s" using loop(1) by (auto simp: in_loop_def)
  have ok: "conn_ok w" "buf_ok (inputBuffer (w_conn w))" "chans_ok w" "threadId w = tid"
    using w by (simp_all add: serving_def http_ready_def streaming_def conn_ok_def)
  have run: "runs_handlers ?env tid (r_in rd) (r_out rd \<and> writing w) ?a taken_down u" if t: "touched w u" for u
  proof -
    obtain d where d: "chans u ?a = Some d" "quiet d = quiet c" using touched_channel [OF t c(1)] .
    have "runs_handlers ?env tid True False (c_channel (w_conn u)) taken_down u"
      by (rule eof_handlers [of _ _ d])
        (use touched_conn_ok [OF t] ok eof cb touchedD(5,6) [OF t] d(1) quietD(1) [OF d(2)] c(4) in simp_all)
    then show ?thesis using rd touchedD(5) [OF t] by simp
  qed
  obtain u u2 w' c' where
    w': "loop_round ?env tid rd w = Inr w'" "touched w u" "taken_down u u2" "touched u2 w'" "pendingFunctors w' = []" "chans w' ?a = Some c'"
    "\<not> ch_eventHandling c'" "own_wakeup w'"
    by (rule idle_round [OF loop(1) ok(3) loop(2) run])
  obtain d where d: "chans u ?a = Some d" "quiet d = quiet c" using touched_channel [OF w'(2) c(1)] .
  have u: "w_conn u = w_conn w" "threadId u = threadId w" "w_conn w' = w_conn u2" "threadId w' = threadId u2"
    using touchedD(4,5) [OF w'(2)] touchedD(4,5) [OF w'(4)] by simp_all
  have u2: "state_of u2 = kDisConnected" "conn_ok u2" "threadId u2 = threadId u" "c_channel (w_conn u2) = ?a" "c_socket (w_conn u2) = ?s"
    "chans u2 = (chans u)(?a \<mapsto> after_events (\<lambda>e. kNoneEvent) d)" "\<forall>fd. fd \<noteq> ?s \<longrightarrow> interest_of u2 fd = interest_of u fd"
    using w'(3) d(1) unfolding taken_down_def u(1) by blast+
  have "chans u2 ?a = Some (after_events (\<lambda>e. kNoneEvent) d)" using u2(6) by simp
  from touched_channel [OF w'(4) this] w'(6) have q: "quiet c' = quiet (after_events (\<lambda>e. kNoneEvent) d)" by auto
  have "ch_index d = kAdded" using quietD(10) [OF d(2)] c(3) by (simp add: listening_def)
  then have "ch_events c' = kNoneEvent" "ch_index c' = kDeleted" "ch_fd c' = ?s"
    using quietD(1,2,3) [OF q] quietD(1) [OF d(2)] c(4) by simp_all
  moreover have "bound c'" using bound_quiet [OF q] bound_same [OF after_events_same] bound_quiet [OF d(2)] c(2) by metis
  ultimately have "closed_in_loop tid w'"
    using u2(1-5) u w'(5-8) touched_conn_ok [OF w'(4) u2(2)] ok(4) by (simp add: closed_in_loop_def)
  moreover have "around ?a ?s u u2" using u2(6,7) by (simp add: around_def)
  then have "around ?a ?s w w'" using around_trans around_touched [OF w'(2)] around_touched [OF w'(4)] by metis
  ultimately show ?thesis using w'(1) u2(4,5) u(3) by (intro that [of w']) simp_all
qed

text \<open>Another thread tells the loop to destroy it, and it is freed.\<close>

lemma destroyed_in_loop:
  assumes "closed_in_loop tid w" "tid0 \<noteq> tid"
  obtains w1 w2 where "loop_round env tid rd (queueInLoop tid0 ConnDestroyed w) = Inr w1" "TcpConnection_dtor tid w1 = Inr w2"
    "chans w2 (c_channel (w_conn w)) = None" "around (c_channel (w_conn w)) (c_socket (w_conn w)) w w2"
    "interest_of w2 (c_socket (w_conn w)) = None" "last (w_sys w2) = SysClose (c_socket (w_conn w))"
proof -
  let ?a = "c_channel (w_conn w)" and ?s = "c_socket (w_conn w)" and ?q = "queueInLoop tid0 ConnDestroyed w"
  have w: "conn_ok w" "state_of w = kDisConnected" "threadId w = tid" and loop: "own_wakeup w" "pendingFunctors w = []"
    using assms(1) by (simp_all add: closed_in_loop_def)
  obtain c where c: "chans w ?a = Some c" "ch_events c = kNoneEvent" "ch_index c = kDeleted" "\<not> ch_eventHandling c" "bound c" "ch_fd c = ?s"
    using assms(1) by (auto simp: closed_in_loop_def)
  have q: "?q = w\<lparr>pendingFunctors := [ConnDestroyed], wakeup_writes := Suc (wakeup_writes w)\<rparr>"
    using w(3) loop(2) assms(2) by (simp add: queueInLoop_def loop_wakeup_def isInLoopThread_def)
  have pok: "poller_ok (chans w) (loop_poller w)" using w(1) by (simp add: conn_ok_def chans_ok_def)
  have "channel_map (loop_poller w) ?s = Some ?a" using poller_okD(3) [OF pok c(1)] c(3,6) by (simp add: index_defs)
  then have none: "interest_of w ?s = None" using c(1,3) by (simp add: registered_def index_defs)
  have own: "own_wakeup ?q" using loop(1) by (simp add: q own_wakeup_def)
  have cq: "chans ?q (c_channel (w_conn ?q)) = Some c" "interest_of ?q (c_socket (w_conn ?q)) = None" "pendingFunctors ?q = [ConnDestroyed]"
    using c(1) none by (simp_all add: q)
  obtain v where v: "loop_round env tid rd ?q = run_closure env tid ConnDestroyed v" "touched (?q\<lparr>pendingFunctors := []\<rparr>) v"
    "chans v (c_channel (w_conn ?q)) = Some c" "own_wakeup v"
    by (rule functor_round [OF cq(1) c(5,4) own cq(2,3)])
  have "touched w (?q\<lparr>pendingFunctors := []\<rparr>)" using loop(2) by (simp add: touched_def loop_rest_def q)
  then have t: "touched w v" using v(2) by (rule touched_trans)
  note tD = touchedD [OF t]
  have vc: "chans v (c_channel (w_conn v)) = Some c" using v(3) tD(5) by (simp add: q)
  have "conn_ok v" "state_of v = kDisConnected" using touched_conn_ok [OF t w(1)] w(2) tD(5) by simp_all
  from http_destroy [OF this vc c(2,4), of env tid] obtain w1 w2 where
    w2: "connectDestroyed env tid v = Inr w1" "TcpConnection_dtor tid w1 = Inr w2"
    "chans w2 = (chans v)(c_channel (w_conn v) := None)" "interest_of w2 = (interest_of v)(ch_fd c := None)"
    "w_sys w2 = w_sys v @ [SysClose (c_socket (w_conn v))]" .
  have "around ?a ?s v w2" using w2(3,4) c(6) tD(5) by (simp add: around_def)
  then have "around ?a ?s w w2" using around_trans around_touched [OF t] by metis
  then show ?thesis using v(1) w2 tD(5) c(6) by (intro that [of w1 w2]) simp_all
qed

end
