(* ===== verification/SendLoop.thy ===== *)
theory SendLoop
  imports ConnLoop
begin

text \<open>
  Sending from other threads (\<open>TcpConnection::send\<close> with \<open>EventLoop::runInLoop\<close>): the call queues a functor,
  which the loop of the connection runs at the end of its next round. A string is copied into the functor; of a
  raw buffer only the pointer is.
\<close>

section \<open>A round of a connection that sends\<close>

definition sending :: "int \<Rightarrow> 'u world \<Rightarrow> bool" where
  "sending tid w \<longleftrightarrow> streaming w \<and> state_of w = kConnected \<and> threadId w = tid \<and> writeCompleteCallback (w_conn w) = None \<and> in_loop w"

lemma in_loop_kept:
  assumes "in_loop w" "kept w w'"
  shows "in_loop w'"
proof -
  obtain c where c: "chans w (c_channel (w_conn w)) = Some c" "bound c" "listening c" "\<not> ch_eventHandling c" "ch_fd c = c_socket (w_conn w)"
    using assms(1) by (auto simp: in_loop_def)
  have b: "beside (c_channel (w_conn w)) w w'" using assms(2) by (simp add: kept_def)
  obtain c' where c': "chans w' (c_channel (w_conn w)) = Some c'" "same_channel c c'" "listening c'"
    using besideD(5) [OF b c(1)] c(3) by blast
  have "own_wakeup w'" using assms(1) besideD(2,6) [OF b] keptD(5) [OF assms(2)] by (auto simp: in_loop_def own_wakeup_def)
  then show ?thesis using c' c bound_same [OF c'(2)] same_channelD(1,2) [OF c'(2)] keptD(4,5) [OF assms(2)] by (simp add: in_loop_def)
qed

lemma sending_kept: "sending tid w \<Longrightarrow> kept w w' \<Longrightarrow> streaming w' \<Longrightarrow> sending tid w'"
  using in_loop_kept [of w w'] keptD(1,2,11) [of w w'] by (simp add: sending_def)

text \<open>What the handler of the output does before the functors run.\<close>

definition pumped :: "'u env \<Rightarrow> bool \<Rightarrow> 'u world \<Rightarrow> 'u world \<Rightarrow> bool" where
  "pumped env out w w' \<longleftrightarrow> stream env w' = stream env w \<and> room w' = room w \<and>
     waiting_bytes w' \<le> waiting_bytes w \<and> (out \<and> progress env \<longrightarrow> waiting_bytes w' \<le> waiting_bytes w - 1)"

lemma writable_pumped:
  assumes "streaming w" "writeCompleteCallback (w_conn w) = None" "writes_ok env" "out \<longrightarrow> writing w"
  obtains w' where "(if out then conn_handleWrite env tid w else Inr w) = Inr w'" "streaming w'" "kept w w'"
    "stream env w' = stream env w" "room w' = room w" "out \<and> progress env \<longrightarrow> waiting_bytes w' < waiting_bytes w"
proof (cases out)
  case True
  then have wr: "writing w" using assms(4) by simp
  then have ne: "content (outputBuffer (w_conn w)) \<noteq> []" using assms(1) by (simp add: streaming_def)
  show ?thesis
  proof (cases rule: handleWrite_cases [OF assms(1) wr assms(3), of tid])
    case (1 w1)
    then have "call_write_complete env w1 = Inr w1" using assms(2) keptD(11) [of w w1] by (simp add: call_write_complete_def)
    with 1 True fewer_wait [OF 1(4,7) _ ne] show ?thesis by (intro that [of w1]) simp_all
  next
    case (2 w1)
    with True fewer_wait [OF 2(4,7) _ ne] show ?thesis by (intro that [of w1]) simp_all
  qed
qed (use assms that in simp)

text \<open>A round without input calls \<open>handleWrite\<close> if the kernel reports the socket writable and bytes wait, and then runs
  the functors.\<close>

lemma sending_round:
  assumes w: "sending tid w" and rd: "\<not> r_in rd" and env: "writes_ok env"
  obtains v where "loop_round env tid rd w = run_functors (run_closure env tid) (pendingFunctors w) v" "sending tid v"
    "pendingFunctors v = []" "pumped env (r_out rd) w v"
proof -
  let ?a = "c_channel (w_conn w)" and ?out = "r_out rd \<and> writing w"
  have st: "streaming w" "writeCompleteCallback (w_conn w) = None" "own_wakeup w" "chans_ok w"
    using w by (simp_all add: sending_def in_loop_def streaming_def conn_ok_def)
  have wr: "writing w \<longleftrightarrow> waiting_bytes w \<noteq> 0" using st(1) by (simp add: streaming_def)
  obtain c where c: "chans w ?a = Some c" "bound c" "listening c" "\<not> ch_eventHandling c" "ch_fd c = c_socket (w_conn w)"
    using w by (auto simp: sending_def in_loop_def)
  define Q where "Q u u2 \<longleftrightarrow> streaming u2 \<and> kept u u2 \<and> pumped env (r_out rd) u u2" for u u2 :: "'a world"
  have run: "runs_handlers env tid False ?out ?a Q u" if t: "touched w u" for u
  proof -
    have tw: "writing u = writing w" and tD: "w_conn u = w_conn w" using touched_stream(1) [OF t] touchedD(5) [OF t] by simp_all
    have "streaming u" "writeCompleteCallback (w_conn u) = None" "?out \<longrightarrow> writing u" using touched_stream(4) [OF t] tD tw st by simp_all
    from writable_pumped [OF this(1,2) env this(3), of tid] obtain u2 where
      u2: "(if ?out then conn_handleWrite env tid u else Inr u) = Inr u2" "streaming u2" "kept u u2"
      "stream env u2 = stream env u" "room u2 = room u" "?out \<and> progress env \<longrightarrow> waiting_bytes u2 < waiting_bytes u" .
    have "waiting_bytes u2 \<le> waiting_bytes u" using waiting_grows [of env u2 u "[]"] u2(3,4) by (auto simp: kept_def)
    then have "Q u u2" using u2 wr tD by (auto simp: Q_def pumped_def)
    moreover have "chan_kept ?a u u2" using chan_kept_beside [of u u2] u2(3) keptD(5) [OF u2(3)] tD by (simp add: kept_def)
    ultimately show ?thesis using u2(1) by (simp add: runs_handlers_def)
  qed
  have evs: "conn_events (r_in rd) (r_out rd) w = (if False \<or> ?out then [(ready_mask False ?out, ?a)] else [])"
    using listening_events [OF st(4) c(1,3,5), of False "r_out rd"] rd by simp
  obtain u u2 v c' where
    v: "loop_round env tid rd w = doPendingFunctors (run_closure env tid) (v\<lparr>currentActiveChannel := None, loop_eventHandling := False\<rparr>)"
    "touched w u" "Q u u2" "touched u2 v" "chans v ?a = Some c'" "\<not> ch_eventHandling c'" "own_wakeup v" "pendingFunctors v = pendingFunctors w"
    "False \<or> ?out \<or> chans v ?a = chans w ?a"
    by (rule round_run [OF c(1,2,4) st(3) evs run])
  have u2: "streaming u2" "kept u u2" "pumped env (r_out rd) u u2" using v(3) by (simp_all add: Q_def)
  have conn: "w_conn u = w_conn w" "threadId u = threadId w" "w_conn v = w_conn u2" "threadId v = threadId u2"
    using touchedD(4,5) [OF v(2)] touchedD(4,5) [OF v(4)] by simp_all
  have "beside ?a u u2" "c_channel (w_conn u2) = ?a" "c_socket (w_conn u2) = c_socket (w_conn w)"
    using u2(2) keptD(4,5) [OF u2(2)] conn(1) by (simp_all add: kept_def)
  from in_loop_after [OF _ v(2,4) this _ v(7)] have "in_loop v" using w v(5,6) by (simp add: sending_def)
  moreover have "streaming v" using touched_stream(4) [OF v(4)] u2(1) by simp
  ultimately have send: "sending tid v" using w conn keptD(1,2,11) [OF u2(2)] by (simp add: sending_def)
  have pump: "pumped env (r_out rd) w v"
    using u2(3) conn touched_stream(2) [OF v(2)] touched_stream(2) [OF v(4)] by (simp add: pumped_def)
  let ?v = "v\<lparr>currentActiveChannel := None, loop_eventHandling := False, pendingFunctors := []\<rparr>"
  have "sending tid ?v" using send
    by (simp add: sending_def streaming_def in_loop_def own_wakeup_def writing_def conn_ok_def chans_ok_def)
  moreover have "pumped env (r_out rd) w ?v" using pump by (simp add: pumped_def stream_def)
  ultimately show ?thesis using v(1,8) by (intro that [of ?v]) (simp_all add: doPendingFunctors_def)
qed

section \<open>Strings from other threads\<close>

datatype send_event = SendFrom int string | SendRound io_round

fun send_step :: "'u env \<Rightarrow> int \<Rightarrow> send_event \<Rightarrow> 'u world \<Rightarrow> 'u world result" where
  "send_step env tid (SendFrom t s) w = send_string env t s w"
| "send_step env tid (SendRound rd) w = loop_round env tid rd w"

fun send_run :: "'u env \<Rightarrow> int \<Rightarrow> send_event list \<Rightarrow> 'u world \<Rightarrow> 'u world result" where
  "send_run env tid [] w = Inr w"
| "send_run env tid (e # es) w = rbind (send_step env tid e w) (send_run env tid es)"

fun foreign :: "int \<Rightarrow> send_event \<Rightarrow> bool" where
  "foreign tid (SendFrom t s) = (t \<noteq> tid)"
| "foreign tid (SendRound rd) = (\<not> r_in rd)"

text \<open>The specification: the bytes of the connection so far, and the bytes queued behind them.\<close>

fun send_spec :: "send_event \<Rightarrow> string \<times> string \<Rightarrow> string \<times> string" where
  "send_spec (SendFrom t s) (out, q) = (out, q @ s)"
| "send_spec (SendRound rd) (out, q) = (out @ q, [])"

fun functor_text :: "'u closure \<Rightarrow> string" where
  "functor_text (ConnSendString s) = s"
| "functor_text _ = []"

definition queued :: "'u world \<Rightarrow> string" where
  "queued w = concat (map functor_text (pendingFunctors w))"

definition only_strings :: "'u world \<Rightarrow> bool" where
  "only_strings w \<longleftrightarrow> list_all (\<lambda>f. case f of ConnSendString s \<Rightarrow> True | _ \<Rightarrow> False) (pendingFunctors w)"

lemma send_kept:
  assumes "streaming w" "state_of w = kConnected" "writeCompleteCallback (w_conn w) = None" "mem_read region off (length s) = Inr s"
    "off < 2 ^ 63" "room w + length s \<le> vec_max_size" "writes_ok env"
  obtains w' where "sendInLoop env tid region off (length s) w = Inr w'" "streaming w'" "stream env w' = stream env w @ s"
    "room w' \<le> room w + length s" "kept w w'"
proof (cases "writing w")
  case True
  from send_waiting [OF assms(1,2) True assms(4,5,6)] that show ?thesis by metis
next
  case False
  show ?thesis
  proof (cases rule: send_idle [OF assms(1,2) False assms(4,5,6,7), of tid])
    case (1 w1)
    then have "call_write_complete env w1 = Inr w1" using assms(3) by (simp add: call_write_complete_def)
    with 1 that show ?thesis by simp
  next
    case (2 w')
    with that show ?thesis by simp
  qed
qed

text \<open>\<open>grown s w w'\<close>: \<open>s\<close> was sent.\<close>

definition grown :: "'u env \<Rightarrow> string \<Rightarrow> 'u world \<Rightarrow> 'u world \<Rightarrow> bool" where
  "grown env s w w' \<longleftrightarrow> stream env w' = stream env w @ s \<and> room w' \<le> room w + length s \<and> waiting_bytes w' \<le> waiting_bytes w + length s"

lemma grown_trans: "grown env s u v \<Longrightarrow> grown env t v w \<Longrightarrow> grown env (s @ t) u w"
  by (simp add: grown_def)

lemma send_functor:
  assumes "sending tid w" "writes_ok env" "mem_read region off (length s) = Inr s" "off < 2 ^ 63" "room w + length s \<le> vec_max_size"
  obtains w' where "sendInLoop env tid region off (length s) w = Inr w'" "sending tid w'" "grown env s w w'"
    "pendingFunctors w' = pendingFunctors w"
proof -
  have st: "streaming w" "state_of w = kConnected" "writeCompleteCallback (w_conn w) = None" using assms(1) by (simp_all add: sending_def)
  obtain w' where w': "sendInLoop env tid region off (length s) w = Inr w'" "streaming w'" "stream env w' = stream env w @ s"
    "room w' \<le> room w + length s" "kept w w'"
    by (rule send_kept [OF st assms(3,4,5,2)])
  have "\<exists>cs. w_sys w' = w_sys w @ cs" using w'(5) by (auto simp: kept_def)
  then have "waiting_bytes w' \<le> waiting_bytes w + length s" by (rule waiting_grows [OF w'(3)])
  moreover have "pendingFunctors w' = pendingFunctors w" using besideD(7) w'(5) unfolding kept_def by blast
  ultimately show ?thesis using sending_kept [OF assms(1) w'(5,2)] w'(1,3,4) by (intro that [of w']) (simp_all add: grown_def)
qed

lemma string_functors:
  assumes "sending tid w" "writes_ok env" "pendingFunctors w = []"
    "list_all (\<lambda>f. case f of ConnSendString s \<Rightarrow> True | _ \<Rightarrow> False) fs" "room w + length (concat (map functor_text fs)) \<le> vec_max_size"
  shows "\<exists>w'. run_functors (run_closure env tid) fs w = Inr w' \<and> sending tid w' \<and> pendingFunctors w' = [] \<and>
    grown env (concat (map functor_text fs)) w w'"
  using assms
proof (induction fs arbitrary: w)
  case (Cons f fs)
  then obtain s where f: "f = ConnSendString s" by (cases f) simp_all
  then have "room w + length s \<le> vec_max_size" using Cons.prems(5) by simp
  from send_functor [OF Cons.prems(1,2) mem_read_suffix [of 0 s, simplified] _ this] obtain w1 where
    w1: "sendInLoop env tid (c_str s) 0 (length s) w = Inr w1" "sending tid w1" "grown env s w w1"
    "pendingFunctors w1 = pendingFunctors w" by auto
  have "run_closure env tid f w = Inr w1" using w1(1) f Cons.prems(1) by (simp add: sendInLoopAsString_def sending_def)
  moreover have "room w1 + length (concat (map functor_text fs)) \<le> vec_max_size" using w1(3) Cons.prems(5) f by (simp add: grown_def)
  with Cons.IH [OF w1(2) Cons.prems(2)] w1(4) Cons.prems(3,4) obtain w' where
    "run_functors (run_closure env tid) fs w1 = Inr w'" "sending tid w'" "pendingFunctors w' = []"
    "grown env (concat (map functor_text fs)) w1 w'" by auto
  ultimately show ?case using grown_trans [OF w1(3)] f by simp
qed (simp add: grown_def)

lemma send_round_effect:
  assumes w: "sending tid w" "only_strings w" and rd: "\<not> r_in rd" and env: "writes_ok env"
    and room: "room w + length (queued w) \<le> vec_max_size"
  obtains w' where "loop_round env tid rd w = Inr w'" "sending tid w'" "pendingFunctors w' = []"
    "stream env w' = stream env w @ queued w" "room w' \<le> room w + length (queued w)"
    "waiting_bytes w' \<le> waiting_bytes w + length (queued w)"
    "r_out rd \<Longrightarrow> progress env \<Longrightarrow> waiting_bytes w' \<le> waiting_bytes w - 1 + length (queued w)"
proof -
  obtain v where v: "loop_round env tid rd w = run_functors (run_closure env tid) (pendingFunctors w) v" "sending tid v"
    "pendingFunctors v = []" "pumped env (r_out rd) w v"
    by (rule sending_round [OF w(1) rd env])
  have "room v + length (concat (map functor_text (pendingFunctors w))) \<le> vec_max_size" using v(4) room by (simp add: pumped_def queued_def)
  from string_functors [OF v(2) env v(3) w(2) [unfolded only_strings_def] this] obtain w' where
    w': "run_functors (run_closure env tid) (pendingFunctors w) v = Inr w'" "sending tid w'" "pendingFunctors w' = []"
    "grown env (queued w) v w'"
    unfolding queued_def by blast
  show ?thesis by (rule that [of w']) (use v(1,4) w' in \<open>auto simp: pumped_def grown_def\<close>)
qed

lemma queued_from:
  assumes "sending tid w" "t \<noteq> tid"
  shows "runInLoop call t f w = Inr (queueInLoop t f w)" "sending tid (queueInLoop t f w)" "w_conn (queueInLoop t f w) = w_conn w"
    "stream env (queueInLoop t f w) = stream env w" "pendingFunctors (queueInLoop t f w) = pendingFunctors w @ [f]"
  using assms
  by (simp_all add: sending_def runInLoop_def isInLoopThread_def queueInLoop_def loop_wakeup_def stream_def streaming_def in_loop_def
      own_wakeup_def writing_def conn_ok_def chans_ok_def)

lemma send_from:
  assumes "sending tid w" "t \<noteq> tid"
  shows "send_string env t s w = Inr (queueInLoop t (ConnSendString s) w)"
    "queued (queueInLoop t (ConnSendString s) w) = queued w @ s" "only_strings w \<Longrightarrow> only_strings (queueInLoop t (ConnSendString s) w)"
  using queued_from [OF assms] assms by (simp_all add: sending_def send_string_def queued_def only_strings_def isInLoopThread_def)

text \<open>Writable rounds until nothing is queued and nothing waits.\<close>

definition to_go :: "'u world \<Rightarrow> nat" where
  "to_go w = waiting_bytes w + (if queued w = [] then 0 else Suc (length (queued w)))"

lemma rounds_empty:
  assumes "sending tid w" "only_strings w" "writes_ok env" "progress env" "room w + length (queued w) \<le> vec_max_size"
    "to_go w \<le> length rds" "\<forall>rd \<in> set rds. r_out rd \<and> \<not> r_in rd"
  shows "\<exists>w'. send_run env tid (map SendRound rds) w = Inr w' \<and> stream env w' = stream env w @ queued w \<and>
    waiting_bytes w' = 0 \<and> queued w' = []"
  using assms
proof (induction rds arbitrary: w)
  case Nil
  then show ?case by (auto simp: to_go_def split: if_splits)
next
  case (Cons rd rds)
  have rd: "r_out rd" "\<not> r_in rd" using Cons.prems(7) by simp_all
  obtain w1 where w1: "loop_round env tid rd w = Inr w1" "sending tid w1" "pendingFunctors w1 = []"
    "stream env w1 = stream env w @ queued w" "room w1 \<le> room w + length (queued w)"
    "waiting_bytes w1 \<le> waiting_bytes w + length (queued w)"
    "r_out rd \<Longrightarrow> progress env \<Longrightarrow> waiting_bytes w1 \<le> waiting_bytes w - 1 + length (queued w)"
    by (rule send_round_effect [OF Cons.prems(1,2) rd(2) Cons.prems(3,5)]) blast
  have none: "queued w1 = []" "only_strings w1" using w1(3) by (simp_all add: queued_def only_strings_def)
  have "to_go w1 \<le> length rds" using w1(7) [OF rd(1) Cons.prems(4)] Cons.prems(6) none(1) by (auto simp: to_go_def split: if_splits)
  with Cons.IH [OF w1(2) none(2) Cons.prems(3,4)] w1(5) none(1) Cons.prems(5,7) obtain w' where
    "send_run env tid (map SendRound rds) w1 = Inr w'" "stream env w' = stream env w1 @ queued w1" "waiting_bytes w' = 0" "queued w' = []" by auto
  then show ?case using w1(1,4) none(1) by simp
qed

fun event_text :: "send_event \<Rightarrow> string" where
  "event_text (SendFrom t s) = s"
| "event_text (SendRound rd) = []"

abbreviation texts :: "send_event list \<Rightarrow> string" where
  "texts es \<equiv> concat (map event_text es)"

lemma spec_texts: "fold send_spec es (out, q) = (out', q') \<Longrightarrow> out' @ q' = out @ q @ texts es"
proof (induction es arbitrary: out q)
  case (Cons e es)
  then show ?case by (cases e) auto
qed simp

lemma send_run_spec:
  assumes "sending tid w" "only_strings w" "writes_ok env" "list_all (foreign tid) es"
    "room w + length (queued w) + length (texts es) \<le> vec_max_size"
  shows "\<exists>w'. send_run env tid es w = Inr w' \<and> sending tid w' \<and> only_strings w' \<and>
    (stream env w', queued w') = fold send_spec es (stream env w, queued w) \<and> room w' + length (queued w') \<le> vec_max_size"
  using assms
proof (induction es arbitrary: w)
  case (Cons e es)
  show ?case
  proof (cases e)
    case e: (SendFrom t s)
    let ?w = "queueInLoop t (ConnSendString s) w"
    have t: "t \<noteq> tid" using Cons.prems(4) e by simp
    note q = queued_from [OF Cons.prems(1) t, where f = "ConnSendString s"] and qs = send_from [OF Cons.prems(1) t, where s = s]
    have "room ?w + length (queued ?w) + length (texts es) \<le> vec_max_size" using Cons.prems(5) e q(3) qs(2) by simp
    with Cons.IH [OF q(2) qs(3) [OF Cons.prems(2)] Cons.prems(3)] Cons.prems(4) show ?thesis using e q(4) qs(1,2) by simp
  next
    case e: (SendRound rd)
    then have rd: "\<not> r_in rd" "room w + length (queued w) \<le> vec_max_size" using Cons.prems(4,5) by simp_all
    obtain w1 where w1: "loop_round env tid rd w = Inr w1" "sending tid w1" "pendingFunctors w1 = []"
      "stream env w1 = stream env w @ queued w" "room w1 \<le> room w + length (queued w)"
      by (rule send_round_effect [OF Cons.prems(1,2) rd(1) Cons.prems(3) rd(2)]) blast
    have none: "queued w1 = []" "only_strings w1" using w1(3) by (simp_all add: queued_def only_strings_def)
    have "room w1 + length (queued w1) + length (texts es) \<le> vec_max_size" using Cons.prems(5) e w1(5) none(1) by simp
    with Cons.IH [OF w1(2) none(2) Cons.prems(3)] Cons.prems(4) show ?thesis using e w1(1,4) none(1) by simp
  qed
qed simp

text \<open>C7: Strings that other threads send are copied, queued and delivered, while no write fails: every \<open>write\<close> takes at most the
  bytes it is given and never returns -1 (\<open>writes_ok\<close>; when one returns -1 the functor's send reads out of bounds, see
  \<open>write_error_garbage\<close>), the connection has no write-complete callback, the rounds bring no input, only strings are in the queue,
  and the output buffer stays below the vector's limit. Then any run of such sends and of rounds of the connection's loop succeeds and
  implements the specification \<open>send_spec\<close> (a send appends to the queue, a round moves the queue behind the bytes of the
  connection, in order); and on a socket that takes something of each write, any rounds in which it is writable, one more than there are
  bytes to go, bring everything to the kernel.\<close>

theorem sends_across_threads:
  assumes "sending tid w" "only_strings w" "writes_ok env" "list_all (foreign tid) es"
    "room w + length (queued w) + length (texts es) \<le> vec_max_size"
  shows "\<exists>w'. send_run env tid es w = Inr w' \<and> (stream env w', queued w') = fold send_spec es (stream env w, queued w) \<and>
    (\<forall>rds. progress env \<and> waiting_bytes w' + length (queued w') < length rds \<and> (\<forall>rd \<in> set rds. r_out rd \<and> \<not> r_in rd) \<longrightarrow>
      (\<exists>w2. send_run env tid (map SendRound rds) w' = Inr w2 \<and> delivered env (w_sys w2) = stream env w @ queued w @ texts es))"
proof -
  from send_run_spec [OF assms] obtain w' where
    w': "send_run env tid es w = Inr w'" "sending tid w'" "only_strings w'" "(stream env w', queued w') = fold send_spec es (stream env w, queued w)"
    "room w' + length (queued w') \<le> vec_max_size" by blast
  have all: "stream env w' @ queued w' = stream env w @ queued w @ texts es" by (rule spec_texts [OF w'(4) [symmetric]])
  have "\<exists>w2. send_run env tid (map SendRound rds) w' = Inr w2 \<and> delivered env (w_sys w2) = stream env w @ queued w @ texts es"
    if "progress env" "waiting_bytes w' + length (queued w') < length rds" "\<forall>rd \<in> set rds. r_out rd \<and> \<not> r_in rd" for rds
  proof -
    have "to_go w' \<le> length rds" using that(2) by (simp add: to_go_def)
    from rounds_empty [OF w'(2,3) assms(3) that(1) w'(5) this that(3)] obtain w2 where
      "send_run env tid (map SendRound rds) w' = Inr w2" "stream env w2 = stream env w' @ queued w'" "waiting_bytes w2 = 0" by blast
    then show ?thesis using all by (simp add: stream_def)
  qed
  then show ?thesis using w'(1,4) by blast
qed

section \<open>Raw buffers from other threads\<close>

text \<open>C32: \<open>send(const void*, size_t)\<close> from another thread binds the pointer alone: when the loop runs the functor it sends what the
  memory then holds, whatever it held at the call, and if the caller has freed the memory meanwhile the loop reads freed memory.\<close>

theorem raw_send_dangles:
  assumes "sending tid w" "pendingFunctors w = []" "t \<noteq> tid" "\<not> r_in rd" "writes_ok env" "\<And>h. region_then env h region = now"
    "off < 2 ^ 63" "room w + len \<le> vec_max_size"
  shows "\<exists>w1. send_raw env t region off len w = Inr w1 \<and>
    (case now of None \<Rightarrow> loop_round env tid rd w1 = Inl UseAfterFree
     | Some r \<Rightarrow> off + len \<le> length r \<longrightarrow>
         (\<exists>w2. loop_round env tid rd w1 = Inr w2 \<and> stream env w2 = stream env w @ take len (drop off r)))"
proof -
  let ?f = "ConnSendRaw region off len" and ?call = "run_closure env tid"
  note q = queued_from [OF assms(1,3), where f = ?f]
  have run: "send_raw env t region off len w = Inr (queueInLoop t ?f w)"
    using assms(1,3) q(1) by (simp add: send_raw_def sending_def isInLoopThread_def)
  obtain v where v: "loop_round env tid rd (queueInLoop t ?f w) = run_functors ?call (pendingFunctors (queueInLoop t ?f w)) v" "sending tid v"
    "pendingFunctors v = []" "pumped env (r_out rd) (queueInLoop t ?f w) v"
    by (rule sending_round [OF q(2) assms(4,5)])
  have round: "loop_round env tid rd (queueInLoop t ?f w) = rbind (?call ?f v) Inr"
    using v(1) q(5) assms(2) by (cases "?call ?f v") simp_all
  show ?thesis
  proof (cases now)
    case None
    then show ?thesis using run round assms(6) by (intro exI [of _ "queueInLoop t ?f w"]) simp
  next
    case (Some r)
    have "\<exists>w2. loop_round env tid rd (queueInLoop t ?f w) = Inr w2 \<and> stream env w2 = stream env w @ take len (drop off r)"
      if fits: "off + len \<le> length r"
    proof -
      let ?s = "take len (drop off r)"
      have len: "length ?s = len" using fits by simp
      then have mem: "mem_read r off (length ?s) = Inr ?s" using fits by (simp add: mem_read_def)
      have room: "room v + length ?s \<le> vec_max_size" using v(4) q(3) assms(8) len by (simp add: pumped_def)
      obtain w2 where w2: "sendInLoop env tid r off (length ?s) v = Inr w2" "sending tid w2" "grown env ?s v w2"
        "pendingFunctors w2 = pendingFunctors v"
        by (rule send_functor [OF v(2) assms(5) mem assms(7) room])
      have "loop_round env tid rd (queueInLoop t ?f w) = Inr w2" using round assms(6) Some w2(1) len by simp
      then show ?thesis using w2(3) v(4) q(4) by (simp add: grown_def pumped_def)
    qed
    then show ?thesis using run Some by (intro exI [of _ "queueInLoop t ?f w"]) simp
  qed
qed

section \<open>A connection in its loop for the witnesses\<close>

definition ex_sending :: "nat world" where
  "ex_sending = (let w = new_Channel 100 5 (ex_world kReadEvent 0 []) in
     w\<lparr>chans := (chans w)(100 \<mapsto> setReadCallback WakeupRead (Channel_init 1 5))\<rparr>)"

lemma ex_sending_ok: "sending 7 ex_sending" "pendingFunctors ex_sending = []" "stream env ex_sending = []" "room ex_sending = 8"
proof -
  let ?w = "ex_world kReadEvent 0 []"
  have chans: "chans ?w = [200 \<mapsto> ex_channel kReadEvent 0]" "loop_this ?w = 1" "c_channel (w_conn ?w) = 200" "wakeupChannel ?w = 100"
    "pendingFunctors ?w = []" "writeCompleteCallback (w_conn ?w) = None"
    by (simp_all add: ex_world_of_def TcpConnection_init_def)
  have ch: "bound (ex_channel kReadEvent 0)" "listening (ex_channel kReadEvent 0)" "\<not> ch_eventHandling (ex_channel kReadEvent 0)"
    "ch_fd (ex_channel kReadEvent 0) = 9"
    by (simp_all add: ex_channel_def conn_channel_def setReadCallback_def setWriteCallback_def setErrorCallback_def setCloseCallback_def
        Channel_init_def bound_def listening_def event_bits)
  have st: "streaming ?w" by (rule ex_streaming) (simp_all add: event_bits)
  then have "chans_ok (new_Channel 100 5 ?w)" using new_effect [of ?w 100 5] chans(1) by (simp add: streaming_def conn_ok_def)
  then have "chans_ok ex_sending"
    using chans_ok_touch [of "new_Channel 100 5 ?w" 100 "Channel_init 1 5" "setReadCallback WakeupRead (Channel_init 1 5)"] chans(2)
    by (simp add: ex_sending_def new_Channel_def setReadCallback_def)
  then show "sending 7 ex_sending" using st chans ch
    by (simp add: sending_def ex_sending_def Let_def new_Channel_def streaming_def conn_ok_def in_loop_def own_wakeup_def writing_def
        setReadCallback_def)
  show "pendingFunctors ex_sending = []" "stream env ex_sending = []" "room ex_sending = 8"
    using chans(5) ex_buf_ok(2) [of "[]"] by (simp_all add: ex_sending_def new_Channel_def stream_def ex_buf_def)
qed

lemma ex_env_progress: "progress ex_env"
  by (simp add: progress_def ex_env_def)

text \<open>Threads 3 and 4 send, the loop of thread 7 takes the first two texts and then the third.\<close>

lemma sends_across_threads_witness:
  "\<exists>w' w2. send_run ex_env 7 [SendFrom 3 ''hello'', SendFrom 4 ''you'', SendRound (Round False False WakeupFirst 1), SendFrom 3 ''!'']
       ex_sending = Inr w' \<and> stream ex_env w' = ''helloyou'' \<and> queued w' = ''!'' \<and>
     send_run ex_env 7 (map SendRound (replicate 10 (Round False True NoWakeup 2))) w' = Inr w2 \<and> delivered ex_env (w_sys w2) = ''helloyou!''"
proof -
  let ?es = "[SendFrom 3 ''hello'', SendFrom 4 ''you'', SendRound (Round False False WakeupFirst 1), SendFrom 3 ''!'']"
  let ?rds = "replicate 10 (Round False True NoWakeup 2)"
  have none: "queued ex_sending = []" "only_strings ex_sending" using ex_sending_ok(2) by (simp_all add: queued_def only_strings_def)
  have "list_all (foreign 7) ?es" "room ex_sending + length (queued ex_sending) + length (texts ?es) \<le> vec_max_size"
    using none(1) ex_sending_ok(4) by (simp_all add: vec_max_size_def)
  from sends_across_threads [OF ex_sending_ok(1) none(2) ex_env_ok(2) this] obtain w' where
    w': "send_run ex_env 7 ?es ex_sending = Inr w'" "(stream ex_env w', queued w') = (''helloyou'', ''!'')" and
    out: "\<forall>rds. progress ex_env \<and> waiting_bytes w' + length (queued w') < length rds \<and> (\<forall>rd \<in> set rds. r_out rd \<and> \<not> r_in rd) \<longrightarrow>
      (\<exists>w2. send_run ex_env 7 (map SendRound rds) w' = Inr w2 \<and> delivered ex_env (w_sys w2) = ''helloyou!'')"
    using none(1) ex_sending_ok(3) by auto
  have "length (stream ex_env w') = 8" "length (queued w') = 1" using w'(2) by simp_all
  then have "waiting_bytes w' + length (queued w') < length ?rds" by (simp add: stream_def)
  moreover have "\<forall>rd \<in> set ?rds. r_out rd \<and> \<not> r_in rd" by simp
  ultimately obtain w2 where "send_run ex_env 7 (map SendRound ?rds) w' = Inr w2" "delivered ex_env (w_sys w2) = ''helloyou!''"
    using mp [OF spec [OF out, of ?rds]] ex_env_progress by blast
  then show ?thesis using w' by blast
qed

text \<open>The memory is freed, or written over.\<close>

lemma raw_send_dangles_witness:
  "\<exists>w1 w2 w3. send_raw (ex_env\<lparr>region_then := \<lambda>h r. None\<rparr>) 3 ''secret'' 0 6 ex_sending = Inr w1 \<and>
     loop_round (ex_env\<lparr>region_then := \<lambda>h r. None\<rparr>) 7 (Round False False WakeupFirst 1) w1 = Inl UseAfterFree \<and>
     send_raw (ex_env\<lparr>region_then := \<lambda>h r. Some ''gossip''\<rparr>) 3 ''secret'' 0 6 ex_sending = Inr w2 \<and>
     loop_round (ex_env\<lparr>region_then := \<lambda>h r. Some ''gossip''\<rparr>) 7 (Round False False WakeupFirst 1) w2 = Inr w3 \<and>
     stream (ex_env\<lparr>region_then := \<lambda>h r. Some ''gossip''\<rparr>) w3 = ''gossip''"
proof -
  let ?env = "\<lambda>now. ex_env\<lparr>region_then := \<lambda>h r. now\<rparr>"
  have w: "writes_ok (?env now)" "region_then (?env now) h r = now" for now h r by (simp_all add: writes_ok_def ex_env_def)
  have room: "room ex_sending + 6 \<le> vec_max_size" using ex_sending_ok(4) by (simp add: vec_max_size_def)
  have rd: "\<not> r_in (Round False False WakeupFirst 1)" by simp
  note dangles = raw_send_dangles [OF ex_sending_ok(1,2) _ rd w(1) w(2) _ room, where t = 3 and off = 0 and region = "''secret''"]
  from dangles [of None] dangles [of "Some ''gossip''"] ex_sending_ok(3) show ?thesis by simp
qed

end
