(* ===== verification/Monitor.thy ===== *)
theory Monitor
  imports Prelude "HOL-Library.Signed_Division"
begin

text \<open>
  \<open>muduo/base/Mutex.h\<close>, \<open>Condition.h\<close>, \<open>Condition.cc\<close>: a mutex that knows its holder, and condition variables.
  On top of them, what every class with a mutex and condition variables does: a thread enters,
  tests in a loop whether it has to wait (and then releases the mutex until it is woken), changes
  the shared data, notifies and leaves. \<open>body\<close> is one such class: what an operation does while the
  mutex is held. Since all shared data is accessed under the mutex, a pass of the loop is one step;
  writes without the mutex are the relation \<open>env\<close>. Waiting threads may wake up spuriously.
  The locales \<open>monitor_inv\<close>, \<open>wakeups\<close> and \<open>broadcasts\<close> give the classes their invariants;
  a class interprets them on its \<open>body\<close>.
\<close>

section \<open>Mutex\<close>

text \<open>\<open>m_owner\<close> is the state of the \<open>pthread_mutex_t\<close>, \<open>m_holder\<close> is \<open>holder_\<close>. Threads are not 0.\<close>

record mutex =
  m_owner :: "int option"
  m_holder :: int

definition MutexLock_init :: mutex where
  "MutexLock_init = \<lparr>m_owner = None, m_holder = 0\<rparr>"

definition assignHolder :: "int \<Rightarrow> mutex \<Rightarrow> mutex" where
  "assignHolder tid m = m\<lparr>m_holder := tid\<rparr>"

definition unassignHolder :: "mutex \<Rightarrow> mutex" where
  "unassignHolder m = m\<lparr>m_holder := 0\<rparr>"

text \<open>\<open>UnassignGuard\<close> keeps \<open>holder_\<close> empty while a thread waits.\<close>

definition UnassignGuard_init :: "mutex \<Rightarrow> mutex" where
  "UnassignGuard_init m = unassignHolder m"

definition UnassignGuard_dtor :: "int \<Rightarrow> mutex \<Rightarrow> mutex" where
  "UnassignGuard_dtor tid m = assignHolder tid m"

text \<open>\<open>None\<close>: the caller blocks.\<close>

definition mutex_lock :: "int \<Rightarrow> mutex \<Rightarrow> mutex option" where
  "mutex_lock tid m = (if m_owner m = None then Some (assignHolder tid (m\<lparr>m_owner := Some tid\<rparr>)) else None)"

definition mutex_unlock :: "mutex \<Rightarrow> mutex" where
  "mutex_unlock m = (unassignHolder m)\<lparr>m_owner := None\<rparr>"

definition isLockedByThisThread :: "int \<Rightarrow> mutex \<Rightarrow> bool" where
  "isLockedByThisThread tid m \<longleftrightarrow> m_holder m = tid"

definition assertLocked :: "int \<Rightarrow> mutex \<Rightarrow> unit result" where
  "assertLocked tid m =
     rbind (assert_ok (m_holder m \<noteq> 0)) (\<lambda>_. assert_ok (isLockedByThisThread tid m))"

definition MutexLock_dtor :: "mutex \<Rightarrow> unit result" where
  "MutexLock_dtor m = assert_ok (m_holder m = 0)"

section \<open>Conditions\<close>

text \<open>\<open>Condition::wait\<close> up to the release of the mutex, and its return: the thread gets the mutex back, then the
  guard's destructor runs. That is what \<open>mutex_lock\<close> does (\<open>cond_return_lock\<close>).\<close>

definition cond_wait :: "int \<Rightarrow> mutex \<Rightarrow> mutex result" where
  "cond_wait tid m =
     rbind (assert_ok (isLockedByThisThread tid m)) (\<lambda>_. Inr ((UnassignGuard_init m)\<lparr>m_owner := None\<rparr>))"

definition cond_return :: "int \<Rightarrow> mutex \<Rightarrow> mutex option" where
  "cond_return tid m = (if m_owner m = None then Some (UnassignGuard_dtor tid (m\<lparr>m_owner := Some tid\<rparr>)) else None)"

lemma cond_return_lock: "cond_return tid m = mutex_lock tid m"
  by (simp add: cond_return_def mutex_lock_def UnassignGuard_dtor_def)

text \<open>
  The deadline of \<open>waitForSeconds\<close>, from the monotonic clock and the nanoseconds to wait. Division
  truncates; \<open>tv_sec\<close> and \<open>tv_nsec\<close> have 64 bits. \<open>timespec_valid\<close> is what
  \<open>pthread_cond_timedwait\<close> asks of its deadline.
\<close>

definition cond_deadline :: "int \<times> int \<Rightarrow> int \<Rightarrow> int \<times> int" where
  "cond_deadline now nanoseconds =
     (fst now + (snd now + nanoseconds) sdiv 1000000000, (snd now + nanoseconds) smod 1000000000)"

definition timespec_valid :: "int \<times> int \<Rightarrow> bool" where
  "timespec_valid ts \<longleftrightarrow> 0 \<le> snd ts \<and> snd ts < 1000000000"

text \<open>\<open>waitForSeconds\<close> up to the release of the mutex, with the deadline it waits for.\<close>

definition cond_waitForSeconds :: "int \<Rightarrow> int \<times> int \<Rightarrow> int \<Rightarrow> mutex \<Rightarrow> ((int \<times> int) \<times> mutex) result" where
  "cond_waitForSeconds tid now nanoseconds m =
     (let abstime = cond_deadline now nanoseconds in
      rbind (assert_ok (isLockedByThisThread tid m)) (\<lambda>_. Inr (abstime, (UnassignGuard_init m)\<lparr>m_owner := None\<rparr>)))"

text \<open>For a wait of at least 0 seconds the deadline is valid and exactly that far from the present.\<close>

lemma cond_deadline_exact:
  assumes "timespec_valid now" "0 \<le> nanoseconds" "cond_deadline now nanoseconds = ts"
  shows "timespec_valid ts" "fst ts * 1000000000 + snd ts = fst now * 1000000000 + snd now + nanoseconds"
proof -
  have nn: "0 \<le> snd now + nanoseconds" using assms(1,2) by (simp add: timespec_valid_def)
  then have "(snd now + nanoseconds) sdiv 1000000000 = (snd now + nanoseconds) div 1000000000"
    by (simp add: signed_divide_int_def sgn_if)
  moreover have "(snd now + nanoseconds) smod 1000000000 = (snd now + nanoseconds) mod 1000000000"
    using nn by (cases "snd now + nanoseconds = 0") (simp_all add: signed_modulo_int_def)
  ultimately have ts: "ts = (fst now + (snd now + nanoseconds) div 1000000000, (snd now + nanoseconds) mod 1000000000)"
    using assms(3) by (simp add: cond_deadline_def)
  then show "timespec_valid ts" by (simp add: timespec_valid_def)
  show "fst ts * 1000000000 + snd ts = fst now * 1000000000 + snd now + nanoseconds"
    using div_mult_mod_eq [of "snd now + nanoseconds" 1000000000] ts by (simp add: algebra_simps)
qed

datatype 'op notify = NotifyNone | NotifyOne "'op \<Rightarrow> bool" | NotifyAll "'op \<Rightarrow> bool"

section \<open>Threads of a monitor\<close>

datatype 'op pc = Idle | Entering 'op | is_Inside: Inside 'op | Waiting 'op | Woken 'op

datatype ('op, 's) verdict = Block | Proceed 's "'op notify" | Fault fault

record ('op, 's) monitor =
  mon_mutex :: mutex
  mon_pc :: "int \<Rightarrow> 'op pc"
  mon_shared :: 's

definition mon_init :: "'s \<Rightarrow> ('op, 's) monitor" where
  "mon_init s = \<lparr>mon_mutex = MutexLock_init, mon_pc = (\<lambda>_. Idle), mon_shared = s\<rparr>"

fun sleeps :: "('op \<Rightarrow> bool) \<Rightarrow> 'op pc \<Rightarrow> bool" where
  "sleeps P (Waiting op) = P op"
| "sleeps P p = False"

fun runs :: "('op \<Rightarrow> bool) \<Rightarrow> 'op pc \<Rightarrow> bool" where
  "runs P (Entering op) = P op"
| "runs P (Inside op) = P op"
| "runs P (Woken op) = P op"
| "runs P p = False"

definition sleepers :: "('op \<Rightarrow> bool) \<Rightarrow> (int \<Rightarrow> 'op pc) \<Rightarrow> int set" where
  "sleepers P pc = {t. sleeps P (pc t)}"

definition runnable :: "('op \<Rightarrow> bool) \<Rightarrow> (int \<Rightarrow> 'op pc) \<Rightarrow> int set" where
  "runnable P pc = {t. runs P (pc t)}"

text \<open>The threads a notification wakes: one that waits, if any, or all.\<close>

fun notified :: "'op notify \<Rightarrow> (int \<Rightarrow> 'op pc) \<Rightarrow> int set \<Rightarrow> bool" where
  "notified NotifyNone pc W \<longleftrightarrow> W = {}"
| "notified (NotifyOne P) pc W \<longleftrightarrow> W = {} \<and> sleepers P pc = {} \<or> (\<exists>t \<in> sleepers P pc. W = {t})"
| "notified (NotifyAll P) pc W \<longleftrightarrow> W = sleepers P pc"

definition wake :: "int set \<Rightarrow> (int \<Rightarrow> 'op pc) \<Rightarrow> int \<Rightarrow> 'op pc" where
  "wake W pc t = (case pc t of Waiting op \<Rightarrow> if t \<in> W then Woken op else Waiting op | p \<Rightarrow> p)"

inductive mon_step :: "('op \<Rightarrow> 's \<Rightarrow> ('op, 's) verdict) \<Rightarrow> ('s \<Rightarrow> 's \<Rightarrow> bool) \<Rightarrow> ('op, 's) monitor \<Rightarrow> ('op, 's) monitor \<Rightarrow> bool"
  for body env where
  call: "t \<noteq> 0 \<Longrightarrow> mon_pc s t = Idle \<Longrightarrow> mon_step body env s (s\<lparr>mon_pc := (mon_pc s)(t := Entering op)\<rparr>)"
| enter: "mon_pc s t = Entering op \<or> mon_pc s t = Woken op \<Longrightarrow> mutex_lock t (mon_mutex s) = Some m \<Longrightarrow>
    mon_step body env s (s\<lparr>mon_mutex := m, mon_pc := (mon_pc s)(t := Inside op)\<rparr>)"
| block: "mon_pc s t = Inside op \<Longrightarrow> body op (mon_shared s) = Block \<Longrightarrow> cond_wait t (mon_mutex s) = Inr m \<Longrightarrow>
    mon_step body env s (s\<lparr>mon_mutex := m, mon_pc := (mon_pc s)(t := Waiting op)\<rparr>)"
| proceed: "mon_pc s t = Inside op \<Longrightarrow> body op (mon_shared s) = Proceed sh n \<Longrightarrow> notified n (mon_pc s) W \<Longrightarrow>
    mon_step body env s (s\<lparr>mon_mutex := mutex_unlock (mon_mutex s), mon_pc := (wake W (mon_pc s))(t := Idle), mon_shared := sh\<rparr>)"
| spurious: "mon_pc s t = Waiting op \<Longrightarrow> mon_step body env s (s\<lparr>mon_pc := (mon_pc s)(t := Woken op)\<rparr>)"
| unlocked: "env (mon_shared s) sh \<Longrightarrow> mon_step body env s (s\<lparr>mon_shared := sh\<rparr>)"

inductive mon_reach :: "('op \<Rightarrow> 's \<Rightarrow> ('op, 's) verdict) \<Rightarrow> ('s \<Rightarrow> 's \<Rightarrow> bool) \<Rightarrow> 's \<Rightarrow> ('op, 's) monitor \<Rightarrow> bool"
  for body env s0 where
  start: "mon_reach body env s0 (mon_init s0)"
| step: "mon_reach body env s0 s \<Longrightarrow> mon_step body env s s' \<Longrightarrow> mon_reach body env s0 s'"

inductive_cases mon_stepE: "mon_step body env s s'"

section \<open>Mutual exclusion\<close>

definition mon_ok :: "('op, 's) monitor \<Rightarrow> bool" where
  "mon_ok s \<longleftrightarrow> (\<forall>t. is_Inside (mon_pc s t) = (m_owner (mon_mutex s) = Some t)) \<and>
     m_holder (mon_mutex s) = (case m_owner (mon_mutex s) of None \<Rightarrow> 0 | Some t \<Rightarrow> t) \<and>
     finite {t. mon_pc s t \<noteq> Idle} \<and> mon_pc s 0 = Idle"

lemmas mutex_defs = mutex_lock_def mutex_unlock_def cond_wait_def assignHolder_def unassignHolder_def UnassignGuard_init_def
  isLockedByThisThread_def MutexLock_init_def

lemma mon_okD:
  assumes "mon_ok s"
  shows "is_Inside (mon_pc s t) = (m_owner (mon_mutex s) = Some t)"
    and "m_holder (mon_mutex s) = (case m_owner (mon_mutex s) of None \<Rightarrow> 0 | Some t \<Rightarrow> t)"
    and "finite {t. mon_pc s t \<noteq> Idle}" and "mon_pc s 0 = Idle"
  using assms unfolding mon_ok_def by blast+

lemma wake_simps [simp]:
  "is_Inside (wake W pc t) = is_Inside (pc t)" "(wake W pc t = Idle) = (pc t = Idle)"
  by (auto simp: wake_def split: pc.splits)

lemma finite_upd: "finite {t. pc t \<noteq> Idle} \<Longrightarrow> finite {t. (pc(a := p)) t \<noteq> Idle}"
  by (rule finite_subset [of _ "insert a {t. pc t \<noteq> Idle}"]) auto

lemma mon_ok_init: "mon_ok (mon_init s)"
  by (simp add: mon_ok_def mon_init_def mutex_defs)

text \<open>A step that leaves the mutex alone and moves a thread between positions outside.\<close>

lemma mon_ok_move:
  assumes "mon_ok s" "\<not> is_Inside (mon_pc s t)" "\<not> is_Inside p" "t \<noteq> 0"
  shows "mon_ok (s\<lparr>mon_pc := (mon_pc s)(t := p)\<rparr>)"
  using assms(2-4) mon_okD [OF assms(1)] finite_upd [OF mon_okD(3) [OF assms(1)], of t p]
  unfolding mon_ok_def by simp

lemma mon_ok_step: "mon_step body env s s' \<Longrightarrow> mon_ok s \<Longrightarrow> mon_ok s'"
proof (induction rule: mon_step.induct)
  case (call t s op)
  then show ?case by (intro mon_ok_move) auto
next
  case (enter s t op m)
  note ok = mon_okD [OF enter.prems]
  have free: "m_owner (mon_mutex s) = None" "m = \<lparr>m_owner = Some t, m_holder = t, \<dots> = mutex.more (mon_mutex s)\<rparr>"
    using enter.hyps(2) by (auto simp: mutex_defs split: if_splits)
  have "t \<noteq> 0" using enter.hyps(1) ok(4) by auto
  then show ?case using ok(1,4) free finite_upd [OF ok(3)] by (simp add: mon_ok_def)
next
  case (block s t op m)
  note ok = mon_okD [OF block.prems]
  have own: "m_owner (mon_mutex s) = Some t" using ok(1) [of t] block.hyps(1) by simp
  have "m_owner m = None" "m_holder m = 0" using block.hyps(3) by (auto simp: mutex_defs rbind_eq_Inr)
  moreover have "t \<noteq> 0" using block.hyps(1) ok(4) by auto
  ultimately show ?case using ok(1,4) own finite_upd [OF ok(3)] by (simp add: mon_ok_def)
next
  case (proceed s t op sh n W)
  note ok = mon_okD [OF proceed.prems]
  have own: "m_owner (mon_mutex s) = Some t" using ok(1) [of t] proceed.hyps(1) by simp
  have "finite {u. ((wake W (mon_pc s))(t := Idle)) u \<noteq> Idle}" by (rule finite_upd) (simp add: ok(3))
  then show ?case using ok(1,4) own by (simp add: mon_ok_def mutex_defs)
next
  case (spurious s t op)
  have "t \<noteq> 0" using spurious.hyps mon_okD(4) [OF spurious.prems] by auto
  then show ?case using spurious by (intro mon_ok_move) auto
next
  case (unlocked s sh)
  then show ?case by (simp add: mon_ok_def)
qed

lemma mon_ok_reach: "mon_reach body env s0 s \<Longrightarrow> mon_ok s"
  by (induction rule: mon_reach.induct) (auto intro: mon_ok_init mon_ok_step)

lemma mon_exclusion:
  assumes "mon_ok s" "mon_pc s t = Inside op"
  shows "mon_pc s u = Inside op' \<Longrightarrow> u = t" "assertLocked t (mon_mutex s) = Inr ()"
    "\<exists>m. cond_wait t (mon_mutex s) = Inr m"
proof -
  note ok = mon_okD [OF assms(1)]
  have own: "m_owner (mon_mutex s) = Some t" using ok(1) [of t] assms(2) by simp
  have "t \<noteq> 0" using assms(2) ok(4) by auto
  then show "assertLocked t (mon_mutex s) = Inr ()" "\<exists>m. cond_wait t (mon_mutex s) = Inr m"
    using own ok(2) by (simp_all add: assertLocked_def mutex_defs)
  show "mon_pc s u = Inside op' \<Longrightarrow> u = t" using ok(1) [of u] own by simp
qed


text \<open>A whole pass of a thread while the mutex is free.\<close>

lemma pass_inside:
  assumes "mon_reach body env s0 s" "mon_mutex s = MutexLock_init" "t \<noteq> 0" "mon_pc s t = Idle"
  shows "mon_reach body env s0 (s\<lparr>mon_mutex := \<lparr>m_owner = Some t, m_holder = t\<rparr>, mon_pc := (mon_pc s)(t := Inside op)\<rparr>)"
proof -
  let ?s1 = "s\<lparr>mon_pc := (mon_pc s)(t := Entering op)\<rparr>"
  have 1: "mon_reach body env s0 ?s1" using assms by (intro mon_reach.step [OF assms(1)] mon_step.call)
  have "mutex_lock t (mon_mutex ?s1) = Some \<lparr>m_owner = Some t, m_holder = t\<rparr>" using assms(2) by (simp add: mutex_defs)
  from mon_reach.step [OF 1 mon_step.enter [OF _ this, of op]] show ?thesis by simp
qed

lemma pass_block:
  assumes "mon_reach body env s0 s" "mon_mutex s = MutexLock_init" "t \<noteq> 0" "mon_pc s t = Idle"
    and "body op (mon_shared s) = Block"
  shows "mon_reach body env s0 (s\<lparr>mon_pc := (mon_pc s)(t := Waiting op)\<rparr>)"
proof -
  have "cond_wait t \<lparr>m_owner = Some t, m_holder = t\<rparr> = Inr MutexLock_init" by (simp add: mutex_defs)
  from mon_reach.step [OF pass_inside [OF assms(1-4)] mon_step.block [of _ t op body MutexLock_init env]] this assms(2,5)
  show ?thesis by (cases s) simp
qed

lemma pass_proceed:
  assumes "mon_reach body env s0 s" "mon_mutex s = MutexLock_init" "t \<noteq> 0" "mon_pc s t = Idle"
    and "body op (mon_shared s) = Proceed sh n" "notified n ((mon_pc s)(t := Inside op)) W"
  shows "mon_reach body env s0 (s\<lparr>mon_pc := wake W (mon_pc s), mon_shared := sh\<rparr>)"
proof -
  have "mutex_unlock \<lparr>m_owner = Some t, m_holder = t\<rparr> = MutexLock_init" by (simp add: mutex_defs)
  moreover have "(wake W ((mon_pc s)(t := Inside op)))(t := Idle) = wake W (mon_pc s)"
    using assms(4) by (auto simp: wake_def)
  ultimately show ?thesis
    using mon_reach.step [OF pass_inside [OF assms(1-4)] mon_step.proceed [of _ t op body sh n W env]] assms(2,5,6)
    by (cases s) simp
qed

section \<open>Invariants of the shared data\<close>

text \<open>The contract of a class with an invariant: every pass that changes the data, and every write
  without the mutex, keeps it. In a \<open>monitor_safe\<close> class no pass fails either.\<close>

locale monitor_inv =
  fixes body :: "'op \<Rightarrow> 's \<Rightarrow> ('op, 's) verdict"
    and env :: "'s \<Rightarrow> 's \<Rightarrow> bool"
    and inv :: "'s \<Rightarrow> bool"
  assumes body_inv: "inv s \<Longrightarrow> body op s = Proceed s' n \<Longrightarrow> inv s'"
    and env_inv: "inv s \<Longrightarrow> env s s' \<Longrightarrow> inv s'"

locale monitor_safe = monitor_inv +
  assumes body_safe: "inv s \<Longrightarrow> body op s \<noteq> Fault e"

context monitor_inv begin

lemma reach_inv: "mon_reach body env s0 s \<Longrightarrow> inv s0 \<Longrightarrow> inv (mon_shared s)"
proof (induction rule: mon_reach.induct)
  case start
  then show ?case by (simp add: mon_init_def)
next
  case (step s s')
  from step.hyps(2) step.IH [OF step.prems] show ?case
    by (cases rule: mon_step.cases) (auto intro: body_inv env_inv)
qed

end

context monitor_safe begin

text \<open>Whoever holds the mutex can go on: no assertion fails, and nobody else is inside.\<close>

lemma inside_safe:
  assumes "mon_reach body env s0 s" "inv s0" "mon_pc s t = Inside op"
  shows "body op (mon_shared s) \<noteq> Fault e \<and> assertLocked t (mon_mutex s) = Inr () \<and>
    (\<forall>u op'. mon_pc s u = Inside op' \<longrightarrow> u = t)"
  using mon_exclusion [OF mon_ok_reach [OF assms(1)] assms(3)] body_safe [OF reach_inv [OF assms(1,2)]] by auto

end

section \<open>No wakeup is lost\<close>

lemma sleepers_upd: "sleepers P (pc(t := p)) = (if sleeps P p then insert t (sleepers P pc) else sleepers P pc - {t})"
  by (auto simp: sleepers_def)

lemma runnable_upd: "runnable P (pc(t := p)) = (if runs P p then insert t (runnable P pc) else runnable P pc - {t})"
  by (auto simp: runnable_def)

lemma sleeps_wake: "sleeps P (wake W pc t) = (sleeps P (pc t) \<and> t \<notin> W)"
  by (cases "pc t") (simp_all add: wake_def)

lemma runs_wake: "runs P (wake W pc t) = (runs P (pc t) \<or> sleeps P (pc t) \<and> t \<in> W)"
  by (cases "pc t") (simp_all add: wake_def)

lemma sleepers_wake: "sleepers P (wake W pc) = sleepers P pc - W"
  by (auto simp: sleepers_def sleeps_wake)

lemma runnable_wake: "runnable P (wake W pc) = runnable P pc \<union> (sleepers P pc \<inter> W)"
  by (auto simp: runnable_def sleepers_def runs_wake)

lemma runs_not_sleeps: "runs P p \<Longrightarrow> \<not> sleeps P p" and runs_Idle: "runs P p \<Longrightarrow> p \<noteq> Idle" and sleeps_Idle: "sleeps P p \<Longrightarrow> p \<noteq> Idle"
  by (cases p; simp)+

lemma runnable_sleepers: "runnable P pc \<inter> sleepers P pc = {}"
  by (auto simp: runnable_def sleepers_def dest: runs_not_sleeps)

lemma finite_runnable: "mon_ok s \<Longrightarrow> finite (runnable P (mon_pc s))"
  by (rule finite_subset [OF _ mon_okD(3)]) (auto simp: runnable_def dest: runs_Idle)

lemma finite_sleepers: "mon_ok s \<Longrightarrow> finite (sleepers P (mon_pc s))"
  by (rule finite_subset [OF _ mon_okD(3)]) (auto simp: sleepers_def dest: sleeps_Idle)

lemma in_runnable: "t \<in> runnable P pc \<longleftrightarrow> runs P (pc t)" and in_sleepers: "t \<in> sleepers P pc \<longleftrightarrow> sleeps P (pc t)"
  by (simp_all add: runnable_def sleepers_def)

text \<open>The contract of operations \<open>P\<close> that consume one of the \<open>ready\<close> items each and wait only when there
  is none: who adds an item notifies one of them (or all).\<close>

locale wakeups =
  fixes body :: "'op \<Rightarrow> 's \<Rightarrow> ('op, 's) verdict"
    and env :: "'s \<Rightarrow> 's \<Rightarrow> bool"
    and P :: "'op \<Rightarrow> bool"
    and ready :: "'s \<Rightarrow> nat"
  assumes waits: "P op \<Longrightarrow> body op s = Block \<Longrightarrow> ready s = 0"
    and takes: "P op \<Longrightarrow> body op s = Proceed s' n \<Longrightarrow> ready s' \<le> ready s - 1"
    and gives: "\<not> P op \<Longrightarrow> body op s = Proceed s' n \<Longrightarrow>
      ready s' \<le> ready s \<or> ready s' \<le> Suc (ready s) \<and> n = NotifyOne P \<or> n = NotifyAll P"
    and outside: "env s s' \<Longrightarrow> ready s' \<le> ready s"

context wakeups begin

definition accounted :: "('op, 's) monitor \<Rightarrow> bool" where
  "accounted s \<longleftrightarrow> sleepers P (mon_pc s) \<noteq> {} \<longrightarrow> ready (mon_shared s) \<le> card (runnable P (mon_pc s))"

lemma accounted_move:
  assumes "accounted s" "mon_ok s" "sleepers P pc' \<subseteq> sleepers P (mon_pc s)" "runnable P (mon_pc s) \<subseteq> runnable P pc'"
    and "finite (runnable P pc')" "ready sh \<le> ready (mon_shared s)"
  shows "accounted (s\<lparr>mon_mutex := m, mon_pc := pc', mon_shared := sh\<rparr>)"
  using assms card_mono [OF assms(5,4)] by (auto simp: accounted_def)

lemma accounted_proceed:
  assumes acc: "accounted s" and ok: "mon_ok s" and t: "mon_pc s t = Inside op"
    and run: "body op (mon_shared s) = Proceed sh n" and W: "notified n (mon_pc s) W"
  shows "accounted (s\<lparr>mon_mutex := m, mon_pc := (wake W (mon_pc s))(t := Idle), mon_shared := sh\<rparr>)"
proof -
  let ?pc = "mon_pc s" and ?pc' = "(wake W (mon_pc s))(t := Idle)"
  have fin: "finite (runnable P ?pc)" by (rule finite_runnable [OF ok])
  have sl: "sleepers P ?pc' = sleepers P ?pc - W" using t by (auto simp: sleepers_upd sleepers_wake in_sleepers)
  have ru: "runnable P ?pc' = (runnable P ?pc \<union> (sleepers P ?pc \<inter> W)) - {t}"
    by (simp add: runnable_upd runnable_wake)
  have fins: "finite (sleepers P ?pc)" by (rule finite_sleepers [OF ok])
  show ?thesis
  proof (cases "P op")
    case True
    have "card (runnable P ?pc) - 1 \<le> card (runnable P ?pc - {t})"
      using fin by (simp add: card_Diff_singleton_if)
    also have "\<dots> \<le> card (runnable P ?pc')" unfolding ru using fin fins by (intro card_mono) auto
    finally show ?thesis using takes [OF True run] acc sl by (auto simp: accounted_def)
  next
    case False
    have "t \<notin> runnable P ?pc" "t \<notin> sleepers P ?pc" using t False by (simp_all add: in_runnable in_sleepers)
    then have ru': "runnable P ?pc' = runnable P ?pc \<union> (sleepers P ?pc \<inter> W)" unfolding ru by auto
    have mono: "card (runnable P ?pc) \<le> card (runnable P ?pc')"
      unfolding ru' using fin fins by (intro card_mono) auto
    from gives [OF False run] consider "ready sh \<le> ready (mon_shared s)"
      | "ready sh \<le> Suc (ready (mon_shared s))" "n = NotifyOne P" | "n = NotifyAll P" by blast
    then show ?thesis
    proof cases
      case 1
      then show ?thesis using mono acc sl by (auto simp: accounted_def)
    next
      case 2
      show ?thesis
      proof (cases "sleepers P ?pc = {}")
        case True
        then show ?thesis using sl by (simp add: accounted_def)
      next
        case False
        then obtain w where w: "w \<in> sleepers P ?pc" "W = {w}" using W 2(2) by auto
        then have "runnable P ?pc' = insert w (runnable P ?pc)" "w \<notin> runnable P ?pc"
          using ru' runnable_sleepers [of P ?pc] by auto
        then have "card (runnable P ?pc') = Suc (card (runnable P ?pc))" using fin by simp
        then show ?thesis using 2(1) acc False by (auto simp: accounted_def)
      qed
    next
      case 3
      then show ?thesis using W sl by (simp add: accounted_def)
    qed
  qed
qed

lemma accounted_step: "mon_step body env s s' \<Longrightarrow> mon_ok s \<Longrightarrow> accounted s \<Longrightarrow> accounted s'"
proof (induction rule: mon_step.induct)
  case (call t s op)
  have "accounted (s\<lparr>mon_mutex := mon_mutex s, mon_pc := (mon_pc s)(t := Entering op), mon_shared := mon_shared s\<rparr>)"
    using call finite_runnable [OF call.prems(1)]
    by (intro accounted_move) (auto simp: sleepers_upd runnable_upd in_runnable in_sleepers)
  then show ?case by simp
next
  case (enter s t op m)
  have "accounted (s\<lparr>mon_mutex := m, mon_pc := (mon_pc s)(t := Inside op), mon_shared := mon_shared s\<rparr>)"
    using enter finite_runnable [OF enter.prems(1)]
    by (intro accounted_move) (auto simp: sleepers_upd runnable_upd in_runnable in_sleepers)
  then show ?case by simp
next
  case (block s t op m)
  show ?case
  proof (cases "P op")
    case True
    then show ?thesis using waits [OF True block.hyps(2)] by (simp add: accounted_def)
  next
    case False
    have "accounted (s\<lparr>mon_mutex := m, mon_pc := (mon_pc s)(t := Waiting op), mon_shared := mon_shared s\<rparr>)"
      using block False finite_runnable [OF block.prems(1)]
      by (intro accounted_move) (auto simp: sleepers_upd runnable_upd in_runnable in_sleepers)
    then show ?thesis by simp
  qed
next
  case (proceed s t op sh n W)
  then show ?case by (intro accounted_proceed)
next
  case (spurious s t op)
  have "accounted (s\<lparr>mon_mutex := mon_mutex s, mon_pc := (mon_pc s)(t := Woken op), mon_shared := mon_shared s\<rparr>)"
    using spurious finite_runnable [OF spurious.prems(1)]
    by (intro accounted_move) (auto simp: sleepers_upd runnable_upd in_runnable in_sleepers)
  then show ?case by simp
next
  case (unlocked s sh)
  have "accounted (s\<lparr>mon_mutex := mon_mutex s, mon_pc := mon_pc s, mon_shared := sh\<rparr>)"
    using unlocked finite_runnable [OF unlocked.prems(1)] outside by (intro accounted_move) auto
  then show ?case by simp
qed

text \<open>While a thread waits, there is a runnable one for every ready item.\<close>

lemma no_lost_item:
  "mon_reach body env s0 s \<Longrightarrow> sleepers P (mon_pc s) \<noteq> {} \<Longrightarrow> ready (mon_shared s) \<le> card (runnable P (mon_pc s))"
proof -
  assume "mon_reach body env s0 s"
  then have "accounted s"
  proof (induction rule: mon_reach.induct)
    case start
    then show ?case by (simp add: accounted_def mon_init_def sleepers_def)
  next
    case (step s s')
    from accounted_step [OF step.hyps(2) mon_ok_reach [OF step.hyps(1)] step.IH] show ?case .
  qed
  then show "sleepers P (mon_pc s) \<noteq> {} \<Longrightarrow> ready (mon_shared s) \<le> card (runnable P (mon_pc s))"
    by (simp add: accounted_def)
qed

end

text \<open>The contract of operations \<open>P\<close> that wait while a condition holds: who ends it notifies all of them.\<close>

locale broadcasts =
  fixes body :: "'op \<Rightarrow> 's \<Rightarrow> ('op, 's) verdict"
    and env :: "'s \<Rightarrow> 's \<Rightarrow> bool"
    and P :: "'op \<Rightarrow> bool"
    and closed :: "'s \<Rightarrow> bool"
  assumes waits_closed: "P op \<Longrightarrow> body op s = Block \<Longrightarrow> closed s"
    and opens: "closed s \<Longrightarrow> body op s = Proceed s' n \<Longrightarrow> closed s' \<or> n = NotifyAll P"
    and outside_closed: "env s s' \<Longrightarrow> closed s \<Longrightarrow> closed s'"

context broadcasts begin

lemma none_left:
  "mon_reach body env s0 s \<Longrightarrow> sleepers P (mon_pc s) \<noteq> {} \<Longrightarrow> closed (mon_shared s)"
proof (induction rule: mon_reach.induct)
  case start
  then show ?case by (simp add: mon_init_def sleepers_def)
next
  case (step s s')
  from step.hyps(2) show ?case
  proof (cases rule: mon_step.cases)
    case (block t op m)
    show ?thesis
    proof (cases "P op")
      case True
      then show ?thesis using waits_closed [OF True block(3)] block(1) by simp
    next
      case False
      have "mon_pc s' = (mon_pc s)(t := Waiting op)" using block(1) by simp
      then have "sleepers P (mon_pc s) \<noteq> {}"
        using step.prems False by (auto simp: sleepers_upd simp del: fun_upd_apply)
      then show ?thesis using step.IH block(1) by simp
    qed
  next
    case (proceed t op sh n W)
    have sl: "sleepers P (mon_pc s') = sleepers P (mon_pc s) - W"
      using proceed by (auto simp: sleepers_upd sleepers_wake in_sleepers)
    then have "closed (mon_shared s)" using step by auto
    moreover have "mon_shared s' = sh" using proceed by simp
    moreover have "W \<noteq> sleepers P (mon_pc s)" using sl step.prems by blast
    ultimately show ?thesis using opens [OF _ proceed(3)] proceed(4) by auto
  next
    case (call t op)
    then have "mon_pc s' = (mon_pc s)(t := Entering op)" "mon_shared s' = mon_shared s" by simp_all
    then show ?thesis using step.IH step.prems by (auto simp: sleepers_upd simp del: fun_upd_apply)
  next
    case (enter t op m)
    then have "mon_pc s' = (mon_pc s)(t := Inside op)" "mon_shared s' = mon_shared s" by simp_all
    then show ?thesis using step.IH step.prems by (auto simp: sleepers_upd simp del: fun_upd_apply)
  next
    case (spurious t op)
    then have "mon_pc s' = (mon_pc s)(t := Woken op)" "mon_shared s' = mon_shared s" by simp_all
    then show ?thesis using step.IH step.prems by (auto simp: sleepers_upd simp del: fun_upd_apply)
  next
    case (unlocked sh)
    then show ?thesis using step.IH step.prems outside_closed by auto
  qed
qed

end

end
