(* ===== verification/BlockingQueues.thy ===== *)
theory BlockingQueues
  imports Monitor
begin

text \<open>
  \<open>muduo/base/BlockingQueue.h\<close> and \<open>BoundedBlockingQueue.h\<close> as monitors: what each operation does under
  the mutex, with the elements put and taken recorded in order. The bounded queue stores its
  elements in a \<open>boost::circular_buffer\<close>, which is an argument (\<open>ring\<close>); \<open>ring_ok\<close> says what its
  documentation promises, through the list of its elements (\<open>view\<close>).
\<close>

section \<open>The unbounded queue\<close>

datatype 'a bq_op = BqPut 'a | BqTake | BqDrain | BqSize

record 'a bq_data =
  bq_items :: "'a list"
  bq_puts :: "'a list"
  bq_takes :: "'a list"

definition BlockingQueue_init :: "'a bq_data" where
  "BlockingQueue_init = \<lparr>bq_items = [], bq_puts = [], bq_takes = []\<rparr>"

fun is_BqTake :: "'a bq_op \<Rightarrow> bool" where
  "is_BqTake BqTake = True"
| "is_BqTake _ = False"

definition bq_put :: "'a \<Rightarrow> 'a bq_data \<Rightarrow> ('a bq_op, 'a bq_data) verdict" where
  "bq_put x s = Proceed (s\<lparr>bq_items := bq_items s @ [x], bq_puts := bq_puts s @ [x]\<rparr>) (NotifyOne is_BqTake)"

definition bq_take :: "'a bq_data \<Rightarrow> ('a bq_op, 'a bq_data) verdict" where
  "bq_take s =
     (case bq_items s of
        [] \<Rightarrow> Block
      | x # xs \<Rightarrow> Proceed (s\<lparr>bq_items := xs, bq_takes := bq_takes s @ [x]\<rparr>) NotifyNone)"

definition bq_drain :: "'a bq_data \<Rightarrow> ('a bq_op, 'a bq_data) verdict" where
  "bq_drain s = Proceed (s\<lparr>bq_items := [], bq_takes := bq_takes s @ bq_items s\<rparr>) NotifyNone"

fun bq_body :: "'a bq_op \<Rightarrow> 'a bq_data \<Rightarrow> ('a bq_op, 'a bq_data) verdict" where
  "bq_body (BqPut x) s = bq_put x s"
| "bq_body BqTake s = bq_take s"
| "bq_body BqDrain s = bq_drain s"
| "bq_body BqSize s = Proceed s NotifyNone"

definition no_write :: "'s \<Rightarrow> 's \<Rightarrow> bool" where "no_write s s' = False"

definition bq_inv :: "'a bq_data \<Rightarrow> bool" where
  "bq_inv s \<longleftrightarrow> bq_puts s = bq_takes s @ bq_items s"

lemmas bq_defs = bq_put_def bq_take_def bq_drain_def no_write_def

lemma is_BqTake_iff: "is_BqTake op \<longleftrightarrow> op = BqTake"
  by (cases op) simp_all

interpretation bqi: monitor_safe bq_body no_write bq_inv
proof unfold_locales
  show "bq_inv s \<Longrightarrow> bq_body op s = Proceed s' n \<Longrightarrow> bq_inv s'" for s s' :: "'a bq_data" and op n
    by (cases op) (auto simp: bq_inv_def bq_defs split: list.splits)
  show "bq_inv s \<Longrightarrow> no_write s s' \<Longrightarrow> bq_inv s'" for s s' :: "'a bq_data" by (simp add: no_write_def)
  show "bq_inv s \<Longrightarrow> bq_body op s \<noteq> Fault e" for s :: "'a bq_data" and op e
    by (cases op) (auto simp: bq_defs split: list.splits)
qed

interpretation bqw: wakeups bq_body no_write is_BqTake "\<lambda>s. length (bq_items s)"
proof unfold_locales
  show "is_BqTake op \<Longrightarrow> bq_body op s = Block \<Longrightarrow> length (bq_items s) = 0" for op and s :: "'a bq_data"
    by (auto simp: is_BqTake_iff bq_defs split: list.splits)
  show "is_BqTake op \<Longrightarrow> bq_body op s = Proceed s' n \<Longrightarrow> length (bq_items s') \<le> length (bq_items s) - 1"
    for op and s s' :: "'a bq_data" and n
    by (auto simp: is_BqTake_iff bq_defs split: list.splits)
  show "\<not> is_BqTake op \<Longrightarrow> bq_body op s = Proceed s' n \<Longrightarrow> length (bq_items s') \<le> length (bq_items s) \<or>
      length (bq_items s') \<le> Suc (length (bq_items s)) \<and> n = NotifyOne is_BqTake \<or> n = NotifyAll is_BqTake"
    for op and s s' :: "'a bq_data" and n
    by (cases op) (auto simp: bq_defs)
  show "no_write s s' \<Longrightarrow> length (bq_items s') \<le> length (bq_items s)" for s s' :: "'a bq_data"
    by (simp add: no_write_def)
qed

text \<open>C23: However threads put, take and drain, the queue is first in, first out and loses nothing, no
  assertion fails for the thread that holds the mutex, and no wakeup is lost: while a thread waits
  in \<open>take\<close>, every element of the queue has a thread in \<open>take\<close> that is about to run.\<close>

theorem blocking_queue_correct:
  assumes "mon_reach bq_body no_write BlockingQueue_init s"
  shows "bq_puts (mon_shared s) = bq_takes (mon_shared s) @ bq_items (mon_shared s) \<and>
    (\<forall>t op. mon_pc s t = Inside op \<longrightarrow> assertLocked t (mon_mutex s) = Inr ()) \<and>
    (sleepers is_BqTake (mon_pc s) \<noteq> {} \<longrightarrow> length (bq_items (mon_shared s)) \<le> card (runnable is_BqTake (mon_pc s)))"
proof -
  have init: "bq_inv (BlockingQueue_init :: 'a bq_data)" by (simp add: bq_inv_def BlockingQueue_init_def)
  show ?thesis
    using bqi.reach_inv [OF assms init] bqi.inside_safe [OF assms init] bqw.no_lost_item [OF assms]
    by (auto simp: bq_inv_def)
qed

text \<open>Thread 1 waits in \<open>take\<close> and is woken when thread 2 puts an element.\<close>

definition bq_handover :: "(nat bq_op, nat bq_data) monitor" where
  "bq_handover = \<lparr>mon_mutex = MutexLock_init, mon_pc = (\<lambda>_. Idle)(1 := Woken BqTake),
     mon_shared = \<lparr>bq_items = [5], bq_puts = [5], bq_takes = []\<rparr>\<rparr>"

lemma bq_handover_reach: "mon_reach bq_body no_write BlockingQueue_init bq_handover"
proof -
  let ?s0 = "mon_init BlockingQueue_init :: (nat bq_op, nat bq_data) monitor"
  have "mon_reach bq_body no_write BlockingQueue_init (?s0\<lparr>mon_pc := (mon_pc ?s0)(1 := Waiting BqTake)\<rparr>)"
    by (rule pass_block [OF mon_reach.start]) (simp_all add: mon_init_def bq_defs BlockingQueue_init_def)
  from pass_proceed [OF this, of 2 "BqPut 5" "\<lparr>bq_items = [5], bq_puts = [5], bq_takes = []\<rparr>" "NotifyOne is_BqTake" "{1}"]
  have "mon_reach bq_body no_write BlockingQueue_init
      (?s0\<lparr>mon_pc := wake {1} ((\<lambda>_. Idle)(1 := Waiting BqTake)), mon_shared := \<lparr>bq_items = [5], bq_puts = [5], bq_takes = []\<rparr>\<rparr>)"
    by (simp add: mon_init_def bq_defs BlockingQueue_init_def in_sleepers)
  moreover have "wake {1} ((\<lambda>_. Idle)(1 := Waiting BqTake)) = (\<lambda>_. Idle :: nat bq_op pc)(1 := Woken BqTake)"
    by (auto simp: wake_def)
  ultimately show ?thesis by (simp add: bq_handover_def mon_init_def)
qed

lemma blocking_queue_correct_witness:
  "mon_reach bq_body no_write BlockingQueue_init bq_handover \<and>
   bq_puts (mon_shared bq_handover) = bq_takes (mon_shared bq_handover) @ bq_items (mon_shared bq_handover) \<and>
   bq_items (mon_shared bq_handover) = [5]"
  using bq_handover_reach blocking_queue_correct [OF bq_handover_reach] by (simp add: bq_handover_def)

section \<open>The bounded queue\<close>

record ('a, 'q) ring =
  ring_full :: "'q \<Rightarrow> bool"
  ring_empty :: "'q \<Rightarrow> bool"
  ring_push_back :: "'a \<Rightarrow> 'q \<Rightarrow> 'q"
  ring_front :: "'q \<Rightarrow> 'a"
  ring_pop_front :: "'q \<Rightarrow> 'q"

text \<open>A ring with room for \<open>cap\<close> elements.\<close>

definition ring_ok :: "('a, 'q) ring \<Rightarrow> ('q \<Rightarrow> 'a list) \<Rightarrow> nat \<Rightarrow> bool" where
  "ring_ok R view cap \<longleftrightarrow> (\<forall>q. ring_full R q = (cap \<le> length (view q))) \<and> (\<forall>q. ring_empty R q = (view q = [])) \<and>
     (\<forall>q x. length (view q) < cap \<longrightarrow> view (ring_push_back R x q) = view q @ [x]) \<and>
     (\<forall>q. view q \<noteq> [] \<longrightarrow> ring_front R q = hd (view q) \<and> view (ring_pop_front R q) = tl (view q))"

datatype 'a bbq_op = BbqPut 'a | BbqTake | BbqQuery

record ('a, 'q) bbq_data =
  bbq_ring :: 'q
  bbq_puts :: "'a list"
  bbq_takes :: "'a list"

definition BoundedBlockingQueue_init :: "'q \<Rightarrow> ('a, 'q) bbq_data" where
  "BoundedBlockingQueue_init q = \<lparr>bbq_ring = q, bbq_puts = [], bbq_takes = []\<rparr>"

fun is_BbqTake :: "'a bbq_op \<Rightarrow> bool" where
  "is_BbqTake BbqTake = True"
| "is_BbqTake _ = False"

fun is_BbqPut :: "'a bbq_op \<Rightarrow> bool" where
  "is_BbqPut (BbqPut x) = True"
| "is_BbqPut _ = False"

definition bbq_put :: "('a, 'q) ring \<Rightarrow> 'a \<Rightarrow> ('a, 'q) bbq_data \<Rightarrow> ('a bbq_op, ('a, 'q) bbq_data) verdict" where
  "bbq_put R x s =
     (if ring_full R (bbq_ring s) then Block
      else Proceed (s\<lparr>bbq_ring := ring_push_back R x (bbq_ring s), bbq_puts := bbq_puts s @ [x]\<rparr>) (NotifyOne is_BbqTake))"

definition bbq_take :: "('a, 'q) ring \<Rightarrow> ('a, 'q) bbq_data \<Rightarrow> ('a bbq_op, ('a, 'q) bbq_data) verdict" where
  "bbq_take R s =
     (if ring_empty R (bbq_ring s) then Block
      else Proceed (s\<lparr>bbq_ring := ring_pop_front R (bbq_ring s), bbq_takes := bbq_takes s @ [ring_front R (bbq_ring s)]\<rparr>)
             (NotifyOne is_BbqPut))"

fun bbq_body :: "('a, 'q) ring \<Rightarrow> 'a bbq_op \<Rightarrow> ('a, 'q) bbq_data \<Rightarrow> ('a bbq_op, ('a, 'q) bbq_data) verdict" where
  "bbq_body R (BbqPut x) s = bbq_put R x s"
| "bbq_body R BbqTake s = bbq_take R s"
| "bbq_body R BbqQuery s = Proceed s NotifyNone"

definition bbq_inv :: "('q \<Rightarrow> 'a list) \<Rightarrow> nat \<Rightarrow> ('a, 'q) bbq_data \<Rightarrow> bool" where
  "bbq_inv view cap s \<longleftrightarrow> bbq_puts s = bbq_takes s @ view (bbq_ring s) \<and> length (view (bbq_ring s)) \<le> cap"

lemmas bbq_defs = bbq_put_def bbq_take_def no_write_def

lemma ring_okD:
  assumes "ring_ok R view cap"
  shows "ring_full R q = (cap \<le> length (view q))" "ring_empty R q = (view q = [])"
    and "length (view q) < cap \<Longrightarrow> view (ring_push_back R x q) = view q @ [x]"
    and "view q \<noteq> [] \<Longrightarrow> ring_front R q = hd (view q)" "view q \<noteq> [] \<Longrightarrow> view (ring_pop_front R q) = tl (view q)"
  using assms unfolding ring_ok_def by blast+

lemma bbq_monitor_safe:
  assumes R: "ring_ok R view cap"
  shows "monitor_safe (bbq_body R) no_write (bbq_inv view cap)"
proof unfold_locales
  show "bbq_inv view cap s \<Longrightarrow> bbq_body R op s = Proceed s' n \<Longrightarrow> bbq_inv view cap s'" for s s' op n
    by (cases op) (auto simp: bbq_inv_def bbq_defs ring_okD [OF R] split: if_splits)
  show "bbq_inv view cap s \<Longrightarrow> no_write s s' \<Longrightarrow> bbq_inv view cap s'" for s s' by (simp add: no_write_def)
  show "bbq_inv view cap s \<Longrightarrow> bbq_body R op s \<noteq> Fault e" for s op e
    by (cases op) (auto simp: bbq_defs)
qed

lemma bbq_takers:
  assumes R: "ring_ok R view cap"
  shows "wakeups (bbq_body R) no_write is_BbqTake (\<lambda>s. length (view (bbq_ring s)))"
proof unfold_locales
  fix op s s' n
  show "is_BbqTake op \<Longrightarrow> bbq_body R op s = Block \<Longrightarrow> length (view (bbq_ring s)) = 0"
    by (cases op) (auto simp: bbq_defs ring_okD [OF R] split: if_splits)
  show "is_BbqTake op \<Longrightarrow> bbq_body R op s = Proceed s' n \<Longrightarrow> length (view (bbq_ring s')) \<le> length (view (bbq_ring s)) - 1"
    by (cases op) (auto simp: bbq_defs ring_okD [OF R] split: if_splits)
  show "\<not> is_BbqTake op \<Longrightarrow> bbq_body R op s = Proceed s' n \<Longrightarrow> length (view (bbq_ring s')) \<le> length (view (bbq_ring s)) \<or>
      length (view (bbq_ring s')) \<le> Suc (length (view (bbq_ring s))) \<and> n = NotifyOne is_BbqTake \<or> n = NotifyAll is_BbqTake"
    by (cases op) (auto simp: bbq_defs ring_okD [OF R] split: if_splits)
  show "no_write s s' \<Longrightarrow> length (view (bbq_ring s')) \<le> length (view (bbq_ring s))" by (simp add: no_write_def)
qed

lemma bbq_putters:
  assumes R: "ring_ok R view cap"
  shows "wakeups (bbq_body R) no_write is_BbqPut (\<lambda>s. cap - length (view (bbq_ring s)))"
proof unfold_locales
  fix op s s' n
  show "is_BbqPut op \<Longrightarrow> bbq_body R op s = Block \<Longrightarrow> cap - length (view (bbq_ring s)) = 0"
    by (cases op) (auto simp: bbq_defs ring_okD [OF R] split: if_splits)
  show "is_BbqPut op \<Longrightarrow> bbq_body R op s = Proceed s' n \<Longrightarrow>
      cap - length (view (bbq_ring s')) \<le> cap - length (view (bbq_ring s)) - 1"
    by (cases op) (auto simp: bbq_defs ring_okD [OF R] split: if_splits)
  show "\<not> is_BbqPut op \<Longrightarrow> bbq_body R op s = Proceed s' n \<Longrightarrow>
      cap - length (view (bbq_ring s')) \<le> cap - length (view (bbq_ring s)) \<or>
      cap - length (view (bbq_ring s')) \<le> Suc (cap - length (view (bbq_ring s))) \<and> n = NotifyOne is_BbqPut \<or> n = NotifyAll is_BbqPut"
    by (cases op) (auto simp: bbq_defs ring_okD [OF R] split: if_splits)
  show "no_write s s' \<Longrightarrow> cap - length (view (bbq_ring s')) \<le> cap - length (view (bbq_ring s))" by (simp add: no_write_def)
qed

text \<open>C16: With a ring for \<open>cap\<close> elements the bounded queue is first in, first out, never holds more than
  \<open>cap\<close>, and loses no wakeup on either side: while a thread waits in \<open>take\<close>, every element has a
  thread in \<open>take\<close> that is about to run, and while one waits in \<open>put\<close>, so has every free place.\<close>

theorem bounded_queue_correct:
  assumes "ring_ok R view cap" "view q = []" "mon_reach (bbq_body R) no_write (BoundedBlockingQueue_init q) s"
  shows "bbq_puts (mon_shared s) = bbq_takes (mon_shared s) @ view (bbq_ring (mon_shared s)) \<and>
    length (view (bbq_ring (mon_shared s))) \<le> cap \<and>
    (sleepers is_BbqTake (mon_pc s) \<noteq> {} \<longrightarrow>
       length (view (bbq_ring (mon_shared s))) \<le> card (runnable is_BbqTake (mon_pc s))) \<and>
    (sleepers is_BbqPut (mon_pc s) \<noteq> {} \<longrightarrow>
       cap - length (view (bbq_ring (mon_shared s))) \<le> card (runnable is_BbqPut (mon_pc s)))"
proof -
  have "bbq_inv view cap (BoundedBlockingQueue_init q)" using assms(2) by (simp add: bbq_inv_def BoundedBlockingQueue_init_def)
  from monitor_inv.reach_inv [OF monitor_safe.axioms(1) [OF bbq_monitor_safe [OF assms(1)]] assms(3) this] show ?thesis
    using wakeups.no_lost_item [OF bbq_takers [OF assms(1)] assms(3)]
      wakeups.no_lost_item [OF bbq_putters [OF assms(1)] assms(3)] by (auto simp: bbq_inv_def)
qed

text \<open>A ring of one place, as a list; thread 2 waits in \<open>put\<close> behind the element of thread 1.\<close>

definition list_ring :: "(nat, nat list) ring" where
  "list_ring = \<lparr>ring_full = (\<lambda>q. 1 \<le> length q), ring_empty = (\<lambda>q. q = []), ring_push_back = (\<lambda>x q. q @ [x]),
     ring_front = hd, ring_pop_front = tl\<rparr>"

lemma list_ring_ok: "ring_ok list_ring (\<lambda>q. q) 1"
  by (simp add: ring_ok_def list_ring_def)

lemma bounded_queue_correct_witness:
  "\<exists>s. mon_reach (bbq_body list_ring) no_write (BoundedBlockingQueue_init []) s \<and> sleepers is_BbqPut (mon_pc s) = {2} \<and>
     bbq_puts (mon_shared s) = bbq_takes (mon_shared s) @ bbq_ring (mon_shared s) \<and> bbq_ring (mon_shared s) = [7]"
proof -
  let ?s0 = "mon_init (BoundedBlockingQueue_init []) :: (nat bbq_op, (nat, nat list) bbq_data) monitor"
  let ?d = "\<lparr>bbq_ring = [7], bbq_puts = [7], bbq_takes = []\<rparr>"
  have idle: "wake {} (\<lambda>_. Idle) = (\<lambda>_. Idle :: nat bbq_op pc)" by (auto simp: wake_def)
  have "mon_reach (bbq_body list_ring) no_write (BoundedBlockingQueue_init []) (?s0\<lparr>mon_pc := wake {} (mon_pc ?s0), mon_shared := ?d\<rparr>)"
    by (rule pass_proceed [OF mon_reach.start, where t = 1 and op = "BbqPut 7" and n = "NotifyOne is_BbqTake"])
      (simp_all add: mon_init_def bbq_defs list_ring_def BoundedBlockingQueue_init_def sleepers_def)
  then have 1: "mon_reach (bbq_body list_ring) no_write (BoundedBlockingQueue_init []) (?s0\<lparr>mon_shared := ?d\<rparr>)"
    by (simp add: mon_init_def idle)
  let ?s = "?s0\<lparr>mon_shared := ?d, mon_pc := (\<lambda>_. Idle)(2 := Waiting (BbqPut 8))\<rparr>"
  have 2: "mon_reach (bbq_body list_ring) no_write (BoundedBlockingQueue_init []) ?s"
    using pass_block [OF 1, of 2 "BbqPut 8"] by (simp add: mon_init_def bbq_defs list_ring_def)
  have "sleepers is_BbqPut (mon_pc ?s) = {2}" by (auto simp: sleepers_def split: if_splits)
  then show ?thesis using bounded_queue_correct [OF list_ring_ok refl 2] 2 by (intro exI [of _ ?s]) simp
qed

end
