(* ===== verification/CountDownLatch.thy ===== *)
theory CountDownLatch
  imports BlockingQueues
begin

text \<open>
  \<open>muduo/base/CountDownLatch.cc\<close> as a monitor, and \<open>muduo/base/Thread.cc\<close>, which uses a latch to hand the
  id of the new thread to the one that starts it. The data of the latch is \<open>count_\<close>, together with
  the number of \<open>countDown\<close> calls and of returned \<open>wait\<close> calls.
\<close>

section \<open>The latch\<close>

datatype latch_op = LatchDown | LatchWait

record latch =
  la_count :: int
  la_downs :: nat
  la_passed :: nat

definition CountDownLatch_init :: "int \<Rightarrow> latch" where
  "CountDownLatch_init n = \<lparr>la_count = n, la_downs = 0, la_passed = 0\<rparr>"

definition getCount :: "latch \<Rightarrow> int" where
  "getCount s = la_count s"

fun is_LatchWait :: "latch_op \<Rightarrow> bool" where
  "is_LatchWait LatchWait = True"
| "is_LatchWait LatchDown = False"

definition latch_countDown :: "latch \<Rightarrow> (latch_op, latch) verdict" where
  "latch_countDown s =
     (if la_count s = - (2 ^ 31) then Fault SignedOverflow
      else Proceed (s\<lparr>la_count := la_count s - 1, la_downs := Suc (la_downs s)\<rparr>)
             (if la_count s - 1 = 0 then NotifyAll is_LatchWait else NotifyNone))"

definition latch_wait :: "latch \<Rightarrow> (latch_op, latch) verdict" where
  "latch_wait s = (if 0 < la_count s then Block else Proceed (s\<lparr>la_passed := Suc (la_passed s)\<rparr>) NotifyNone)"

fun latch_body :: "latch_op \<Rightarrow> latch \<Rightarrow> (latch_op, latch) verdict" where
  "latch_body LatchDown s = latch_countDown s"
| "latch_body LatchWait s = latch_wait s"

definition latch_inv :: "int \<Rightarrow> latch \<Rightarrow> bool" where
  "latch_inv n s \<longleftrightarrow> la_count s = n - int (la_downs s) \<and> (0 < la_passed s \<longrightarrow> la_count s \<le> 0)"

lemmas latch_defs = latch_countDown_def latch_wait_def no_write_def getCount_def

interpretation latch: monitor_inv latch_body no_write "latch_inv n" for n
proof unfold_locales
  show "latch_inv n s \<Longrightarrow> latch_body op s = Proceed s' m \<Longrightarrow> latch_inv n s'" for s s' op m
    by (cases op) (auto simp: latch_inv_def latch_defs split: if_splits)
  show "latch_inv n s \<Longrightarrow> no_write s s' \<Longrightarrow> latch_inv n s'" for s s' by (simp add: no_write_def)
qed

interpretation latchb: broadcasts latch_body no_write is_LatchWait "\<lambda>s. 0 < la_count s"
proof unfold_locales
  show "is_LatchWait op \<Longrightarrow> latch_body op s = Block \<Longrightarrow> 0 < la_count s" for op s
    by (cases op) (auto simp: latch_defs split: if_splits)
  show "0 < la_count s \<Longrightarrow> latch_body op s = Proceed s' n \<Longrightarrow> 0 < la_count s' \<or> n = NotifyAll is_LatchWait" for op s s' n
    by (cases op) (auto simp: latch_defs split: if_splits)
  show "no_write s s' \<Longrightarrow> 0 < la_count s \<Longrightarrow> 0 < la_count s'" for s s' by (simp add: no_write_def)
qed

text \<open>C24: A latch for \<open>n\<close> events counts them exactly; a \<open>wait\<close> has returned only if all \<open>n\<close> have
  happened, and no thread is still asleep in \<open>wait\<close> once they have.\<close>

theorem latch_correct:
  assumes "mon_reach latch_body no_write (CountDownLatch_init n) s"
  shows "getCount (mon_shared s) = n - int (la_downs (mon_shared s)) \<and>
    (0 < la_passed (mon_shared s) \<longrightarrow> n \<le> int (la_downs (mon_shared s))) \<and>
    (sleepers is_LatchWait (mon_pc s) \<noteq> {} \<longrightarrow> int (la_downs (mon_shared s)) < n)"
proof -
  have "latch_inv n (CountDownLatch_init n)" by (simp add: latch_inv_def CountDownLatch_init_def)
  from latch.reach_inv [OF assms this] show ?thesis
    using latchb.none_left [OF assms] by (auto simp: latch_inv_def latch_defs)
qed

text \<open>Thread 1 waits for one event, thread 2 makes it happen: thread 1 is awake.\<close>

lemma latch_correct_witness:
  "\<exists>s. mon_reach latch_body no_write (CountDownLatch_init 1) s \<and> mon_pc s 1 = Woken LatchWait \<and>
     getCount (mon_shared s) = 0 \<and> sleepers is_LatchWait (mon_pc s) = {}"
proof -
  let ?start = "mon_init (CountDownLatch_init 1) :: (latch_op, latch) monitor"
  let ?pc = "(\<lambda>_. Idle)(1 := Waiting LatchWait)"
  let ?s = "?start\<lparr>mon_pc := wake {1} ?pc, mon_shared := \<lparr>la_count = 0, la_downs = 1, la_passed = 0\<rparr>\<rparr>"
  have 1: "mon_reach latch_body no_write (CountDownLatch_init 1) (?start\<lparr>mon_pc := (mon_pc ?start)(1 := Waiting LatchWait)\<rparr>)"
    by (rule pass_block [OF mon_reach.start]) (simp_all add: mon_init_def latch_defs CountDownLatch_init_def)
  have "sleepers is_LatchWait (?pc(2 := Inside LatchDown)) = {1}" by (auto simp: sleepers_def)
  with pass_proceed [OF 1, of 2 LatchDown "\<lparr>la_count = 0, la_downs = 1, la_passed = 0\<rparr>" "NotifyAll is_LatchWait" "{1}"]
  have 2: "mon_reach latch_body no_write (CountDownLatch_init 1) ?s"
    by (simp add: mon_init_def latch_defs CountDownLatch_init_def)
  have "mon_pc ?s 1 = Woken LatchWait" by (simp add: wake_def)
  moreover have "getCount (mon_shared ?s) = 0" by (simp add: latch_defs)
  moreover from latch_correct [OF 2] have "sleepers is_LatchWait (mon_pc ?s) = {}" by simp
  ultimately show ?thesis using 2 by blast
qed

end
