(* ===== verification/Thread.thy ===== *)
theory Thread
  imports CountDownLatch Decimal Atomic EventLoop
begin

text \<open>
  \<open>muduo/base/CurrentThread.h\<close>, \<open>CurrentThread.cc\<close>, \<open>Thread.h\<close>, \<open>Thread.cc\<close> and \<open>muduo/net/EventLoopThread.h\<close>,
  \<open>EventLoopThread.cc\<close>: what a thread knows about itself, how one is started and joined, and the
  handshake that \<open>Thread::start\<close> and \<open>EventLoopThread::startLoop\<close> share: the new thread writes a
  variable and counts a latch down, the old one waits at the latch and reads the variable
  (\<open>publish_step\<close>, with the latch of \<open>CountDownLatch\<close>). What \<open>gettid\<close> returns and whether
  \<open>pthread_create\<close> succeeds are arguments.
\<close>

section \<open>CurrentThread\<close>

record current_thread =
  ct_cacheTid :: int
  ct_tidString :: "string option"
  ct_tidStringLength :: int
  ct_threadName :: string

definition CurrentThread_init :: current_thread where
  "CurrentThread_init = \<lparr>ct_cacheTid = 0, ct_tidString = None, ct_tidStringLength = 6, ct_threadName = ''unkown''\<rparr>"

definition cacheTid :: "int \<Rightarrow> current_thread \<Rightarrow> current_thread" where
  "cacheTid gettid c =
     (if ct_cacheTid c = 0
      then c\<lparr>ct_cacheTid := gettid, ct_tidString := Some (snprintf_trunc 32 (show_int_blank 5 gettid)),
             ct_tidStringLength := int (length (show_int_blank 5 gettid))\<rparr>
      else c)"

definition ct_tid :: "int \<Rightarrow> current_thread \<Rightarrow> int \<times> current_thread" where
  "ct_tid gettid c = (let c = if ct_cacheTid c = 0 then cacheTid gettid c else c in (ct_cacheTid c, c))"

text \<open>The array is not initialised before the first \<open>cacheTid\<close>.\<close>

definition tidString :: "current_thread \<Rightarrow> string result" where
  "tidString c = (case ct_tidString c of Some s \<Rightarrow> Inr s | None \<Rightarrow> Inl Uninitialised)"

definition isMainThread :: "int \<Rightarrow> int \<Rightarrow> current_thread \<Rightarrow> bool \<times> current_thread" where
  "isMainThread gettid getpid c = (let (t, c) = ct_tid gettid c in (t = getpid, c))"

definition setThreadName :: "string \<Rightarrow> current_thread \<Rightarrow> current_thread" where
  "setThreadName name c = c\<lparr>ct_threadName := name\<rparr>"

section \<open>Thread\<close>

record thread =
  th_started :: bool
  th_joined :: bool
  th_tid :: int
  th_name :: string

definition setDefaultName :: "32 atomic \<Rightarrow> thread \<Rightarrow> thread \<times> 32 atomic" where
  "setDefaultName numCreated th =
     (let (num, numCreated) = incrementAndGet numCreated in
      (if th_name th = [] then th\<lparr>th_name := snprintf_trunc 32 (''Thread'' @ show_int (sint num))\<rparr> else th, numCreated))"

definition Thread_init :: "string \<Rightarrow> 32 atomic \<Rightarrow> thread \<times> 32 atomic" where
  "Thread_init name numCreated =
     setDefaultName numCreated \<lparr>th_started = False, th_joined = False, th_tid = 0, th_name = name\<rparr>"

text \<open>\<open>start\<close> up to the wait; whether it goes on to wait for the new thread.\<close>

definition thread_start :: "bool \<Rightarrow> thread \<Rightarrow> (bool \<times> thread) result" where
  "thread_start created th =
     rbind (assert_ok (\<not> th_started th)) (\<lambda>_.
     let th = th\<lparr>th_started := True\<rparr> in
     if \<not> created then Inr (False, th\<lparr>th_started := False\<rparr>) else Inr (True, th))"

definition thread_started :: "int \<Rightarrow> unit result" where
  "thread_started tid = assert_ok (0 < tid)"

definition thread_join :: "thread \<Rightarrow> thread result" where
  "thread_join th = rbind (assert_ok (th_started th \<and> \<not> th_joined th)) (\<lambda>_. Inr (th\<lparr>th_joined := True\<rparr>))"

text \<open>How the function of a thread ends, and what \<open>runInThread\<close> makes of it: the name it leaves, and
  whether the exception leaves the thread and terminates the process.\<close>

datatype func_end = FReturns | FThrowsException | FThrowsStd | FThrowsOther

definition runInThread :: "string \<Rightarrow> func_end \<Rightarrow> current_thread \<Rightarrow> current_thread \<times> bool" where
  "runInThread name e c =
     (let c = setThreadName name c in
      case e of
        FReturns \<Rightarrow> (setThreadName ''finished'' c, False)
      | FThrowsException \<Rightarrow> (setThreadName ''crashed'' c, False)
      | FThrowsStd \<Rightarrow> (setThreadName ''crashed'' c, False)
      | FThrowsOther \<Rightarrow> (setThreadName ''crashed'' c, True))"

section \<open>The handshake\<close>

datatype writer = WriterStarts | WriterWrote | WriterDone

datatype 'v reader = ReaderWaits | ReaderRead 'v

record 'v publish =
  pb_value :: 'v
  pb_latch :: latch
  pb_writer :: writer
  pb_reader :: "'v reader"

definition publish_init :: "'v \<Rightarrow> 'v publish" where
  "publish_init v0 = \<lparr>pb_value = v0, pb_latch = CountDownLatch_init 1, pb_writer = WriterStarts, pb_reader = ReaderWaits\<rparr>"

inductive publish_step :: "'v \<Rightarrow> 'v publish \<Rightarrow> 'v publish \<Rightarrow> bool" for v where
  wrote: "pb_writer s = WriterStarts \<Longrightarrow> publish_step v s (s\<lparr>pb_value := v, pb_writer := WriterWrote\<rparr>)"
| counted: "pb_writer s = WriterWrote \<Longrightarrow> latch_countDown (pb_latch s) = Proceed l n \<Longrightarrow>
    publish_step v s (s\<lparr>pb_latch := l, pb_writer := WriterDone\<rparr>)"
| passed: "pb_reader s = ReaderWaits \<Longrightarrow> latch_wait (pb_latch s) = Proceed l n \<Longrightarrow>
    publish_step v s (s\<lparr>pb_latch := l, pb_reader := ReaderRead (pb_value s)\<rparr>)"

inductive published :: "'v \<Rightarrow> 'v \<Rightarrow> 'v publish \<Rightarrow> bool" for v0 v where
  start: "published v0 v (publish_init v0)"
| step: "published v0 v s \<Longrightarrow> publish_step v s s' \<Longrightarrow> published v0 v s'"

text \<open>\<open>Thread::start\<close> reads \<open>tid_\<close>, which is 0 at first; \<open>EventLoopThread::startLoop\<close> reads \<open>loop_\<close>, which is null.\<close>

definition start_handshake :: "int \<Rightarrow> int publish \<Rightarrow> bool" where
  "start_handshake tid s = published 0 tid s"

definition startLoop_handshake :: "addr \<Rightarrow> addr publish \<Rightarrow> bool" where
  "startLoop_handshake l s = published 0 l s"

inductive_cases publish_stepE: "publish_step v s s'"

definition publish_ok :: "'v \<Rightarrow> 'v publish \<Rightarrow> bool" where
  "publish_ok v s \<longleftrightarrow>
     (pb_writer s = WriterDone \<longrightarrow> la_count (pb_latch s) = 0) \<and> (pb_writer s \<noteq> WriterDone \<longrightarrow> la_count (pb_latch s) = 1) \<and>
     (pb_writer s \<noteq> WriterStarts \<longrightarrow> pb_value s = v) \<and> pb_reader s \<in> {ReaderWaits, ReaderRead v}"

lemma publish_ok_step: "publish_step v s s' \<Longrightarrow> publish_ok v s \<Longrightarrow> publish_ok v s'"
proof (induction rule: publish_step.induct)
  case (wrote s)
  then show ?case by (auto simp: publish_ok_def)
next
  case (counted s l n)
  then show ?case by (auto simp: publish_ok_def latch_countDown_def split: if_splits)
next
  case (passed s l n)
  have "pb_writer s = WriterDone"
    using passed by (auto simp: publish_ok_def latch_wait_def split: if_splits)
  then show ?case using passed by (auto simp: publish_ok_def latch_wait_def split: if_splits)
qed

lemma published_ok: "published v0 v s \<Longrightarrow> publish_ok v s"
proof (induction rule: published.induct)
  case start
  show ?case by (simp add: publish_ok_def publish_init_def CountDownLatch_init_def)
next
  case (step s s')
  show ?case by (rule publish_ok_step [OF step.hyps(2) step.IH])
qed

lemma publish_progress: "published v0 v s \<Longrightarrow> pb_reader s = ReaderWaits \<Longrightarrow> \<exists>s'. publish_step v s s'"
proof (cases "pb_writer s")
  case WriterStarts
  then show ?thesis by (intro exI) (rule publish_step.wrote)
next
  case WriterWrote
  assume "published v0 v s"
  from published_ok [OF this] WriterWrote
  have "latch_countDown (pb_latch s) = Proceed (pb_latch s\<lparr>la_count := 0, la_downs := Suc (la_downs (pb_latch s))\<rparr>) (NotifyAll is_LatchWait)"
    by (simp add: publish_ok_def latch_countDown_def)
  from publish_step.counted [OF WriterWrote this] show ?thesis by (rule exI)
next
  case WriterDone
  assume "published v0 v s" "pb_reader s = ReaderWaits"
  from published_ok [OF this(1)] WriterDone
  have "latch_wait (pb_latch s) = Proceed (pb_latch s\<lparr>la_passed := Suc (la_passed (pb_latch s))\<rparr>) NotifyNone"
    by (simp add: publish_ok_def latch_wait_def)
  from publish_step.passed [OF \<open>pb_reader s = ReaderWaits\<close> this] show ?thesis by (rule exI)
qed

text \<open>\<open>Thread::start\<close> returns only when the new thread has stored its id, so its last assertion never
  fails, and until then there is always a step one of the two threads can make.\<close>

theorem start_sees_tid:
  assumes "start_handshake tid s" "0 < tid"
  shows "(\<forall>x. pb_reader s = ReaderRead x \<longrightarrow> x = tid \<and> thread_started x = Inr ()) \<and>
    (pb_reader s = ReaderWaits \<longrightarrow> (\<exists>s'. publish_step tid s s'))"
  using published_ok [of 0 tid s] publish_progress [of 0 tid s] assms
  by (auto simp: start_handshake_def publish_ok_def thread_started_def)

lemma start_sees_tid_witness: "start_handshake 42 (publish_init 0) \<and> (\<exists>s'. publish_step (42 :: int) (publish_init 0) s')"
proof -
  have h: "start_handshake 42 (publish_init 0)" unfolding start_handshake_def by (rule published.start)
  moreover have "pb_reader (publish_init (0 :: int)) = ReaderWaits" by (simp add: publish_init_def)
  ultimately show ?thesis using start_sees_tid [OF h] by auto
qed

text \<open>The loop that \<open>startLoop\<close> returns is the one the new thread has made, never the null pointer
  \<open>loop_\<close> held before.\<close>

theorem startLoop_returns_loop:
  assumes "startLoop_handshake l s" "l \<noteq> 0" "pb_reader s = ReaderRead x"
  shows "x = l \<and> x \<noteq> 0"
  using published_ok [of 0 l s] assms by (auto simp: startLoop_handshake_def publish_ok_def)

lemma startLoop_returns_loop_witness:
  "\<exists>s. startLoop_handshake 64 s \<and> pb_reader s = ReaderRead (64 :: addr)"
proof -
  let ?a = "publish_init (0 :: addr)"
  let ?b = "?a\<lparr>pb_value := 64, pb_writer := WriterWrote\<rparr>"
  let ?c = "?b\<lparr>pb_latch := \<lparr>la_count = 0, la_downs = 1, la_passed = 0\<rparr>, pb_writer := WriterDone\<rparr>"
  let ?d = "?c\<lparr>pb_latch := \<lparr>la_count = 0, la_downs = 1, la_passed = 1\<rparr>, pb_reader := ReaderRead (pb_value ?c)\<rparr>"
  have 1: "published 0 64 ?b" by (rule published.step [OF published.start publish_step.wrote]) (simp add: publish_init_def)
  have 2: "published 0 64 ?c"
    by (rule published.step [OF 1 publish_step.counted [where n = "NotifyAll is_LatchWait"]])
      (simp_all add: publish_init_def CountDownLatch_init_def latch_countDown_def)
  have 3: "published 0 64 ?d"
    by (rule published.step [OF 2 publish_step.passed [where n = NotifyNone]])
      (simp_all add: publish_init_def CountDownLatch_init_def latch_wait_def)
  have h: "startLoop_handshake 64 ?d" using 3 by (simp add: startLoop_handshake_def)
  have "pb_reader ?d = ReaderRead (pb_value ?c)" by simp
  from startLoop_returns_loop [OF h _ this] h show ?thesis by (intro exI [of _ ?d]) simp
qed

section \<open>EventLoopThread\<close>

record loop_thread =
  et_loop :: addr
  et_thread :: thread
  et_latch :: latch

definition EventLoopThread_init :: "string \<Rightarrow> 32 atomic \<Rightarrow> loop_thread \<times> 32 atomic" where
  "EventLoopThread_init name numCreated =
     (let (th, numCreated) = Thread_init name numCreated in
      (\<lparr>et_loop = 0, et_thread = th, et_latch = CountDownLatch_init 1\<rparr>, numCreated))"

text \<open>The destructor, with the loop \<open>loop_\<close> points to. It waits at the latch (for ever, \<open>None\<close>, when the thread was
  not started), sets \<open>quit_\<close>, and then \<open>join\<close> waits for the other thread, which is in \<open>EventLoop::loop\<close>:
  \<open>n\<close> rounds of the loop from the state \<open>l\<close> that \<open>quit\<close> has marked, as \<open>epoll_wait\<close> lets them (\<open>waits\<close>).\<close>

definition EventLoopThread_dtor :: "nat \<Rightarrow> ('cb \<Rightarrow> ('cb, 'z) loop_scheme \<Rightarrow> ('cb, 'z) loop_scheme result) \<Rightarrow>
    (nat \<Rightarrow> (int + (event_mask \<times> addr) list) \<times> timestamp) \<Rightarrow> loop_thread \<Rightarrow> ('cb, 'z) loop_scheme \<Rightarrow>
    (loop_thread \<times> ('cb, 'z) loop_scheme) result option" where
  "EventLoopThread_dtor n call waits et l =
     (case latch_wait (et_latch et) of
        Block \<Rightarrow> None
      | Fault e \<Rightarrow> Some (Inl e)
      | Proceed latch _ \<Rightarrow>
          let l = EventLoop_quit l in
          (case thread_join (et_thread et) of
             Inl e \<Rightarrow> Some (Inl e)
           | Inr th \<Rightarrow> map_option (\<lambda>r. rbind r (\<lambda>l. Inr (et\<lparr>et_latch := latch, et_thread := th\<rparr>, l)))
               (loop_while n call waits l)))"

text \<open>A thread that was never started can only wait: nobody will count the latch down.\<close>

lemma unstarted_dtor_blocks: "EventLoopThread_dtor n call waits (fst (EventLoopThread_init name k)) l = None"
  by (simp add: EventLoopThread_dtor_def EventLoopThread_init_def latch_wait_def CountDownLatch_init_def split_beta Let_def)

text \<open>Neither does the destructor of a started one return, however many rounds the loop makes: the loop does
  not look at \<open>quit_\<close>, so it ends only by a fault.\<close>

lemma loop_while_endless: "loop_while n call waits l \<noteq> Some (Inr l')"
  by (induction n call waits l rule: loop_while.induct) (auto split: sum.splits)

theorem dtor_never_returns: "EventLoopThread_dtor n call waits et l \<noteq> Some (Inr r)"
  by (auto simp: loop_while_endless EventLoopThread_dtor_def Let_def rbind_eq_Inr split: verdict.splits sum.splits)

section \<open>Thread ids and names\<close>

text \<open>A thread asks the kernel for its id once: after the first call every call returns the same id,
  whatever \<open>gettid\<close> would say by then (in the child of a \<open>fork\<close>, for one), and the text of the id
  is that of the same number, with the length that is recorded for it.\<close>

theorem tid_is_cached:
  assumes "ct_tid g CurrentThread_init = (t, c)" "0 < g" "g < 2 ^ 31"
  shows "t = g \<and> ct_tid g' c = (g, c) \<and>
    (\<exists>s. tidString c = Inr s \<and> int (length s) = ct_tidStringLength c \<and> nat_of_digits (dropWhile (\<lambda>x. x = CHR '' '') s) = nat g)"
proof -
  have c: "t = g" "c = cacheTid g CurrentThread_init"
    using assms(1) by (auto simp: ct_tid_def CurrentThread_init_def cacheTid_def Let_def)
  have "nat g < 10 ^ Suc 9" using assms(3) by simp
  from length_show_nat [OF this] have len: "length (show_int_blank 5 g) < 32"
    using assms(2) by (simp add: show_int_blank_def show_int_def pad_left_def)
  have blank: "dropWhile (\<lambda>x. x = CHR '' '') (replicate k (CHR '' '') @ d) = dropWhile (\<lambda>x. x = CHR '' '') d" for k d
    by (induction k) simp_all
  have "hd (show_nat n) \<noteq> CHR '' ''" for n using show_nat_digits [of "hd (show_nat n)" n] by auto
  then have "dropWhile (\<lambda>x. x = CHR '' '') (show_nat n) = show_nat n" for n
    by (cases "show_nat n") (auto dest: arg_cong [of _ _ hd])
  then have "dropWhile (\<lambda>x. x = CHR '' '') (show_int_blank 5 g) = show_nat (nat g)"
    using assms(2) by (simp add: show_int_blank_def show_int_def pad_left_def blank)
  then show ?thesis using c assms(2) len
    by (simp add: cacheTid_def CurrentThread_init_def ct_tid_def tidString_def Let_def)
qed

lemma tid_is_cached_witness:
  "ct_tid 77 (snd (ct_tid 1234 CurrentThread_init)) = (1234, snd (ct_tid 1234 CurrentThread_init))"
proof -
  obtain t c where "ct_tid 1234 CurrentThread_init = (t, c)" by fastforce
  from tid_is_cached [OF this, of 77] this show ?thesis by simp
qed

end
