(* ===== verification/ThreadPool.thy ===== *)
theory ThreadPool
  imports Thread
begin

text \<open>
  \<open>muduo/base/ThreadPool.cc\<close> as a monitor. The shared data is \<open>queue_\<close>, \<open>maxQueueSize_\<close> and
  \<open>running_\<close>, together with the tasks queued and taken so far and the note \<open>pl_flushed\<close> that \<open>stop\<close>
  has notified everybody since it cleared \<open>running_\<close>. \<open>stop\<close> clears \<open>running_\<close> without the mutex,
  so that is a step of \<open>pool_env\<close>. A task is a value of a type of its own, an empty \<open>std::function\<close>
  is \<open>None\<close>.
\<close>

section \<open>The operations\<close>

datatype 'f pool_op = PoolRun "'f option" | PoolTake | PoolFlush | PoolSize

record 'f pool =
  pl_queue :: "'f option list"
  pl_max :: nat
  pl_running :: bool
  pl_puts :: "'f option list"
  pl_takes :: "'f option list"
  pl_flushed :: bool

text \<open>The constructor, with the bound \<open>m\<close> that \<open>setMaxQueueSize\<close> has set before \<open>start\<close>; and the pool once \<open>start\<close> has set \<open>running_\<close>.\<close>

definition ThreadPool_init :: "nat \<Rightarrow> 'f pool" where
  "ThreadPool_init m = \<lparr>pl_queue = [], pl_max = m, pl_running = False, pl_puts = [], pl_takes = [], pl_flushed = False\<rparr>"

definition pool_started :: "nat \<Rightarrow> 'f pool" where
  "pool_started m = (ThreadPool_init m)\<lparr>pl_running := True\<rparr>"

text \<open>The argument is an \<open>int\<close>, the member a \<open>size_t\<close>: a negative bound is a huge one.\<close>

definition setMaxQueueSize :: "int \<Rightarrow> 'f pool \<Rightarrow> 'f pool" where
  "setMaxQueueSize maxSize s = s\<lparr>pl_max := nat (maxSize mod 2 ^ 64)\<rparr>"

lemma setMaxQueueSize_init: "m < 2 ^ 64 \<Longrightarrow> setMaxQueueSize (int m) (ThreadPool_init 0) = ThreadPool_init m"
  by (simp add: setMaxQueueSize_def ThreadPool_init_def)

fun is_PoolTake :: "'f pool_op \<Rightarrow> bool" where
  "is_PoolTake PoolTake = True"
| "is_PoolTake _ = False"

fun is_PoolRun :: "'f pool_op \<Rightarrow> bool" where
  "is_PoolRun (PoolRun f) = True"
| "is_PoolRun _ = False"

definition isFull :: "'f pool \<Rightarrow> bool" where
  "isFull s \<longleftrightarrow> pl_max s \<le> length (pl_queue s) \<and> 0 < pl_max s"

definition pool_run :: "'f option \<Rightarrow> 'f pool \<Rightarrow> ('f pool_op, 'f pool) verdict" where
  "pool_run f s =
     (if isFull s \<and> pl_running s then Block
      else if \<not> pl_running s then Proceed s NotifyNone
      else if isFull s then Fault AssertFail
      else Proceed (s\<lparr>pl_queue := pl_queue s @ [f], pl_puts := pl_puts s @ [f]\<rparr>) (NotifyOne is_PoolTake))"

definition pool_take :: "'f pool \<Rightarrow> ('f pool_op, 'f pool) verdict" where
  "pool_take s =
     (if pl_queue s = [] \<and> pl_running s then Block
      else case pl_queue s of
        [] \<Rightarrow> Proceed s NotifyNone
      | f # fs \<Rightarrow> Proceed (s\<lparr>pl_queue := fs, pl_takes := pl_takes s @ [f]\<rparr>) NotifyNone)"

text \<open>The part of \<open>stop\<close> under the mutex: \<open>notifyAll\<close> on both conditions.\<close>

definition pool_flush :: "'f pool \<Rightarrow> ('f pool_op, 'f pool) verdict" where
  "pool_flush s = Proceed (s\<lparr>pl_flushed := \<not> pl_running s\<rparr>) (NotifyAll (\<lambda>_. True))"

fun pool_body :: "'f pool_op \<Rightarrow> 'f pool \<Rightarrow> ('f pool_op, 'f pool) verdict" where
  "pool_body (PoolRun f) s = pool_run f s"
| "pool_body PoolTake s = pool_take s"
| "pool_body PoolFlush s = pool_flush s"
| "pool_body PoolSize s = Proceed s NotifyNone"

definition pool_env :: "'f pool \<Rightarrow> 'f pool \<Rightarrow> bool" where
  "pool_env s s' \<longleftrightarrow> s' = s\<lparr>pl_running := False, pl_flushed := False\<rparr>"

text \<open>\<open>run\<close> before it takes the mutex: without threads the caller runs the task itself.\<close>

datatype 'f run_call = RunNow 'f | RunQueued "'f pool_op"

definition ThreadPool_run :: "nat \<Rightarrow> 'f option \<Rightarrow> 'f run_call result" where
  "ThreadPool_run threads f =
     (if threads = 0 then (case f of None \<Rightarrow> Inl BadFunctionCall | Some g \<Rightarrow> Inr (RunNow g))
      else Inr (RunQueued (PoolRun f)))"


text \<open>\<open>start\<close> and \<open>stop\<close> on the threads: one per index, named after it, started and later joined.\<close>

fun pool_spawn :: "string \<Rightarrow> nat list \<Rightarrow> 32 atomic \<Rightarrow> (thread list \<times> 32 atomic) result" where
  "pool_spawn name [] k = Inr ([], k)"
| "pool_spawn name (i # is) k =
     (let (th, k) = Thread_init (name @ snprintf_trunc 32 (show_int (int i + 1))) k in
      rbind (thread_start True th) (\<lambda>(waits, th).
      rbind (pool_spawn name is k) (\<lambda>(ths, k). Inr (th # ths, k))))"

definition ThreadPool_start :: "string \<Rightarrow> nat \<Rightarrow> thread list \<Rightarrow> 32 atomic \<Rightarrow> 'f pool \<Rightarrow> (thread list \<times> 32 atomic \<times> 'f pool) result" where
  "ThreadPool_start name numThreads threads k s =
     rbind (assert_ok (threads = [])) (\<lambda>_.
     let s = s\<lparr>pl_running := True\<rparr> in
     rbind (pool_spawn name [0..<numThreads] k) (\<lambda>(ths, k). Inr (ths, k, s)))"

fun pool_join :: "thread list \<Rightarrow> thread list result" where
  "pool_join [] = Inr []"
| "pool_join (th # ths) = rbind (thread_join th) (\<lambda>th. rbind (pool_join ths) (\<lambda>ths. Inr (th # ths)))"

lemmas pool_defs = pool_run_def pool_take_def pool_flush_def pool_env_def isFull_def

section \<open>What holds of it\<close>

lemma pool_spawn_join: "\<exists>ths k'. pool_spawn name is k = Inr (ths, k') \<and> length ths = length is \<and> (\<exists>ths'. pool_join ths = Inr ths')"
proof (induction "is" arbitrary: k)
  case (Cons i "is")
  obtain th k1 where th: "Thread_init (name @ snprintf_trunc 32 (show_int (int i + 1))) k = (th, k1)" by fastforce
  then have "\<not> th_started th" "\<not> th_joined th"
    by (auto simp: Thread_init_def setDefaultName_def Let_def split: if_splits)
  moreover obtain ths k2 ths' where "pool_spawn name is k1 = Inr (ths, k2)" "length ths = length is" "pool_join ths = Inr ths'"
    using Cons by blast
  ultimately show ?case using th by (simp add: thread_start_def thread_join_def Let_def)
qed simp

definition pool_inv :: "nat \<Rightarrow> 'f pool \<Rightarrow> bool" where
  "pool_inv m s \<longleftrightarrow> pl_puts s = pl_takes s @ pl_queue s \<and> pl_max s = m \<and> (0 < m \<longrightarrow> length (pl_queue s) \<le> m)"

interpretation pool: monitor_safe pool_body pool_env "pool_inv m" for m
proof unfold_locales
  show "pool_inv m s \<Longrightarrow> pool_body op s = Proceed s' n \<Longrightarrow> pool_inv m s'" for s s' :: "'f pool" and op n
    by (cases op) (auto simp: pool_inv_def pool_defs split: list.splits if_splits)
  show "pool_inv m s \<Longrightarrow> pool_env s s' \<Longrightarrow> pool_inv m s'" for s s' :: "'f pool"
    by (simp add: pool_inv_def pool_env_def)
  show "pool_inv m s \<Longrightarrow> pool_body op s \<noteq> Fault e" for s :: "'f pool" and op e
    by (cases op) (auto simp: pool_defs split: list.splits)
qed


interpretation stopped: broadcasts pool_body pool_env "\<lambda>_. True" "\<lambda>s. pl_running s \<or> \<not> pl_flushed s"
proof unfold_locales
  show "True \<Longrightarrow> pool_body op s = Block \<Longrightarrow> pl_running s \<or> \<not> pl_flushed s" for op and s :: "'f pool"
    by (cases op) (auto simp: pool_defs split: list.splits if_splits)
  show "pl_running s \<or> \<not> pl_flushed s \<Longrightarrow> pool_body op s = Proceed s' n \<Longrightarrow>
      (pl_running s' \<or> \<not> pl_flushed s') \<or> n = NotifyAll (\<lambda>_. True)" for op and s s' :: "'f pool" and n
    by (cases op) (auto simp: pool_defs split: list.splits if_splits)
  show "pool_env s s' \<Longrightarrow> pl_running s \<or> \<not> pl_flushed s \<Longrightarrow> pl_running s' \<or> \<not> pl_flushed s'" for s s' :: "'f pool"
    by (simp add: pool_env_def)
qed




text \<open>After \<open>stop\<close> has cleared \<open>running_\<close> and notified, no thread is asleep in the pool, neither a
  worker nor a producer, so \<open>stop\<close> can join the workers.\<close>

theorem pool_stop_wakes_all:
  assumes "mon_reach pool_body pool_env (pool_started m) s" "\<not> pl_running (mon_shared s)" "pl_flushed (mon_shared s)"
  shows "sleepers (\<lambda>_. True) (mon_pc s) = {}"
  using stopped.none_left [OF assms(1)] assms(2,3) by blast

section \<open>Producers\<close>

text \<open>Worker 1 waits for a task.\<close>

lemma worker_sleeps:
  "mon_reach pool_body pool_env (pool_started 1)
     ((mon_init (pool_started 1) :: (nat pool_op, nat pool) monitor)\<lparr>mon_pc := (\<lambda>_. Idle)(1 := Waiting PoolTake)\<rparr>)"
  using pass_block [OF mon_reach.start, where t = 1 and op = "PoolTake :: nat pool_op" and body = pool_body and env = pool_env
      and ?s0.0 = "pool_started 1"]
  by (simp add: mon_init_def pool_defs pool_started_def ThreadPool_init_def)

text \<open>\<open>running_\<close> is cleared and thread 2 does the rest of \<open>stop\<close>.\<close>

lemma pool_stop_wakes_all_witness:
  "\<exists>s. mon_reach pool_body pool_env (pool_started 1) s \<and> mon_pc s 1 = Woken (PoolTake :: nat pool_op) \<and>
     sleepers (\<lambda>_. True) (mon_pc s) = {}"
proof -
  let ?w = "(mon_init (pool_started 1) :: (nat pool_op, nat pool) monitor)\<lparr>mon_pc := (\<lambda>_. Idle)(1 := Waiting PoolTake)\<rparr>"
  let ?d = "(pool_started 1 :: nat pool)\<lparr>pl_running := False, pl_flushed := False\<rparr>"
  let ?fin = "?w\<lparr>mon_shared := ?d, mon_pc := wake {1} (mon_pc ?w), mon_shared := ?d\<lparr>pl_flushed := True\<rparr>\<rparr>"
  have "pool_env (mon_shared ?w) ?d" by (simp add: pool_env_def mon_init_def)
  from mon_reach.step [OF worker_sleeps mon_step.unlocked [where s = ?w and env = pool_env, OF this]]
  have 1: "mon_reach pool_body pool_env (pool_started 1) (?w\<lparr>mon_shared := ?d\<rparr>)" .
  have "sleepers (\<lambda>_. True) ((mon_pc ?w)(2 := Inside PoolFlush)) = {1}" by (auto simp: sleepers_def)
  with pass_proceed [OF 1, of 2 PoolFlush "?d\<lparr>pl_flushed := True\<rparr>" "NotifyAll (\<lambda>_. True)" "{1}"]
  have 2: "mon_reach pool_body pool_env (pool_started 1) ?fin"
    by (simp add: mon_init_def pool_defs)
  have "mon_pc ?fin 1 = Woken PoolTake" by (simp add: wake_def)
  moreover have "sleepers (\<lambda>_. True) (mon_pc ?fin) = {}"
    by (rule pool_stop_wakes_all [OF 2]) simp_all
  ultimately show ?thesis using 2 by blast
qed

text \<open>A pool for one task: thread 2 queues task 7 and waits with task 8, worker 1 takes 7 and waits for more.\<close>

abbreviation stuck_state :: "(nat pool_op, nat pool) monitor" where
  "stuck_state \<equiv> (mon_init (pool_started 1))\<lparr>
     mon_pc := (\<lambda>_. Idle)(2 := Waiting (PoolRun (Some 8)), 1 := Waiting PoolTake),
     mon_shared := (pool_started 1)\<lparr>pl_puts := [Some 7], pl_takes := [Some 7]\<rparr>\<rparr>"

lemma stuck_state_reach: "mon_reach pool_body pool_env (pool_started 1) stuck_state"
proof -
  let ?i = "mon_init (pool_started 1) :: (nat pool_op, nat pool) monitor"
  let ?d1 = "(pool_started 1)\<lparr>pl_queue := [Some 7 :: nat option], pl_puts := [Some 7]\<rparr>"
  let ?d2 = "(pool_started 1)\<lparr>pl_puts := [Some (7 :: nat)], pl_takes := [Some 7]\<rparr>"
  have none: "wake {} pc = pc" for pc :: "int \<Rightarrow> nat pool_op pc"
    by (rule ext) (simp add: wake_def split: pc.split)
  have "mon_reach pool_body pool_env (pool_started 1) (?i\<lparr>mon_pc := wake {} (mon_pc ?i), mon_shared := ?d1\<rparr>)"
    by (rule pass_proceed [OF mon_reach.start, where t = 2 and op = "PoolRun (Some 7)" and n = "NotifyOne is_PoolTake"])
      (simp_all add: mon_init_def pool_defs pool_started_def ThreadPool_init_def sleepers_def)
  then have 1: "mon_reach pool_body pool_env (pool_started 1) (?i\<lparr>mon_shared := ?d1\<rparr>)"
    by (simp add: none mon_init_def)
  have 2: "mon_reach pool_body pool_env (pool_started 1) (?i\<lparr>mon_shared := ?d1, mon_pc := (\<lambda>_. Idle)(2 := Waiting (PoolRun (Some 8)))\<rparr>)"
    using pass_block [OF 1, of 2 "PoolRun (Some 8)"] by (simp add: mon_init_def pool_defs pool_started_def ThreadPool_init_def)
  have 3: "mon_reach pool_body pool_env (pool_started 1) (?i\<lparr>mon_pc := (\<lambda>_. Idle)(2 := Waiting (PoolRun (Some 8))), mon_shared := ?d2\<rparr>)"
    using pass_proceed [OF 2, of 1 PoolTake ?d2 NotifyNone "{}"]
    by (simp add: mon_init_def pool_defs pool_started_def ThreadPool_init_def none)
  show ?thesis
    using pass_block [OF 3, of 1 PoolTake] by (simp add: mon_init_def pool_defs pool_started_def ThreadPool_init_def)
qed

text \<open>C33: \<open>take\<close> never notifies \<open>notFull_\<close>: the pool reaches a state in which a producer is asleep in
  \<open>run\<close> although the queue is empty and the pool is running, every worker is asleep too, and no
  thread is about to run that could wake either of them.\<close>

theorem pool_producer_stuck:
  "\<exists>s. mon_reach pool_body pool_env (pool_started 1) (s :: (nat pool_op, nat pool) monitor) \<and>
     sleepers is_PoolRun (mon_pc s) = {2} \<and> sleepers is_PoolTake (mon_pc s) = {1} \<and>
     runnable (\<lambda>_. True) (mon_pc s) = {} \<and>
     \<not> isFull (mon_shared s) \<and> pl_queue (mon_shared s) = [] \<and> pl_running (mon_shared s)"
proof (intro exI conjI)
  show "mon_reach pool_body pool_env (pool_started 1) stuck_state" by (rule stuck_state_reach)
  show "sleepers is_PoolRun (mon_pc stuck_state) = {2}" "sleepers is_PoolTake (mon_pc stuck_state) = {1}"
    by (auto simp: sleepers_def)
  show "runnable (\<lambda>_. True) (mon_pc stuck_state) = {}" by (simp add: runnable_def)
  show "\<not> isFull (mon_shared stuck_state)" "pl_queue (mon_shared stuck_state) = []" "pl_running (mon_shared stuck_state)"
    by (simp_all add: isFull_def pool_started_def ThreadPool_init_def)
qed


end
