(* ===== verification/StackTrace.thy ===== *)
theory StackTrace
  imports Prelude
begin

text \<open>
  \<open>muduo/base/Exception.h\<close>, \<open>Exception.cc\<close>: an exception with its message and the text of the call stack.
  What \<open>backtrace_symbols\<close> returns (or that it returns null) and \<open>abi::__cxa_demangle\<close> (\<open>None\<close>: a
  status other than 0) are arguments.
\<close>

record exception =
  ex_message :: string
  ex_stack :: string

text \<open>The scan for the last opening parenthesis and the last plus sign of a symbol, from position \<open>i\<close>.\<close>

fun scan_symbol :: "nat \<Rightarrow> string \<Rightarrow> nat option \<Rightarrow> nat option \<Rightarrow> nat option \<times> nat option" where
  "scan_symbol i [] left_par pl = (left_par, pl)"
| "scan_symbol i (c # cs) left_par pl =
     (if c = CHR ''('' then scan_symbol (Suc i) cs (Some i) pl
      else if c = CHR ''+'' then scan_symbol (Suc i) cs left_par (Some i)
      else scan_symbol (Suc i) cs left_par pl)"

text \<open>One frame. The plus sign is overwritten by a 0 while the name in front of it is read.\<close>

definition frame_text :: "bool \<Rightarrow> (string \<Rightarrow> string option) \<Rightarrow> string \<Rightarrow> string" where
  "frame_text demangle cxa s =
     (let whole = s @ [CHR 0x0A] in
      if demangle then
        (case scan_symbol 0 s None None of
           (Some l, Some p) \<Rightarrow>
             (case cxa (takeWhile (\<lambda>c. c \<noteq> CHR 0x00) (drop (Suc l) (s[p := CHR 0x00]))) of
                Some d \<Rightarrow> take (Suc l) s @ d @ drop p s @ [CHR 0x0A]
              | None \<Rightarrow> whole)
         | _ \<Rightarrow> whole)
      else whole)"

text \<open>The first frame is \<open>fillStackTrace\<close> itself.\<close>

definition fillStackTrace :: "bool \<Rightarrow> (string \<Rightarrow> string option) \<Rightarrow> string list option \<Rightarrow> string" where
  "fillStackTrace demangle cxa frames =
     (case frames of None \<Rightarrow> [] | Some fs \<Rightarrow> concat (map (frame_text demangle cxa) (drop 1 fs)))"

definition Exception_init :: "(string \<Rightarrow> string option) \<Rightarrow> string list option \<Rightarrow> string \<Rightarrow> exception" where
  "Exception_init cxa frames what = \<lparr>ex_message = what, ex_stack = fillStackTrace True cxa frames\<rparr>"

lemma scan_symbol_skip:
  "CHR ''('' \<notin> set s \<Longrightarrow> CHR ''+'' \<notin> set s \<Longrightarrow> scan_symbol i (s @ t) l p = scan_symbol (i + length s) t l p"
  by (induction s arbitrary: i) auto

lemma scan_symbol_shape:
  assumes "CHR ''('' \<notin> set nm" "CHR ''+'' \<notin> set nm" "CHR ''('' \<notin> set rest" "CHR ''+'' \<notin> set rest"
  shows "scan_symbol i (pre @ CHR ''('' # nm @ CHR ''+'' # rest) l p =
    (Some (i + length pre), Some (i + length pre + length nm + 1))"
proof (induction pre arbitrary: i l p)
  case Nil
  then show ?case using assms scan_symbol_skip [of rest _ "[]"] by (simp add: scan_symbol_skip)
next
  case (Cons c pre)
  then show ?case by simp
qed

text \<open>For a frame of the form \<open>file(symbol+offset) [address]\<close> the trace has the line with the
  symbol replaced by its readable form, and the line as it is when there is none; every other
  character of the line is kept.\<close>

theorem stack_line:
  assumes "CHR ''('' \<notin> set nm" "CHR ''+'' \<notin> set nm" "CHR 0x00 \<notin> set nm" "CHR ''('' \<notin> set rest" "CHR ''+'' \<notin> set rest"
  shows "ex_stack (Exception_init cxa (Some [f0, pre @ ''('' @ nm @ ''+'' @ rest]) what) =
    pre @ ''('' @ (case cxa nm of Some d \<Rightarrow> d | None \<Rightarrow> nm) @ ''+'' @ rest @ [CHR 0x0A]"
proof -
  let ?s = "pre @ CHR ''('' # nm @ CHR ''+'' # rest"
  have marks: "scan_symbol 0 ?s None None = (Some (length pre), Some (length pre + length nm + 1))"
    using scan_symbol_shape [OF assms(1,2,4,5), of 0 pre] by simp
  have "?s[length pre + length nm + 1 := CHR 0x00] = pre @ CHR ''('' # nm @ CHR 0x00 # rest"
    by (simp add: list_update_append nth_append)
  moreover have "takeWhile (\<lambda>c. c \<noteq> CHR 0x00) (nm @ CHR 0x00 # rest) = nm"
    using assms(3) by (subst takeWhile_append2) auto
  ultimately have name: "takeWhile (\<lambda>c. c \<noteq> CHR 0x00) (drop (Suc (length pre)) (?s[length pre + length nm + 1 := CHR 0x00])) = nm"
    by simp
  show ?thesis
    using marks name by (simp add: Exception_init_def fillStackTrace_def frame_text_def Let_def split: option.split)
qed

lemma stack_line_witness:
  "ex_stack (Exception_init (\<lambda>s. if s = ''_Z1fv'' then Some ''f()'' else None) (Some [''self'', ''bin(_Z1fv+0x79) [0x40]'']) ''bad'') =
   ''bin(f()+0x79) [0x40]'' @ [CHR 0x0A]"
  using stack_line [of "''_Z1fv''" "''0x79) [0x40]''" "\<lambda>s. if s = ''_Z1fv'' then Some ''f()'' else None" "''self''" "''bin''" "''bad''"]
  by simp

end
