(* ===== verification/Spec2Isabelle.thy ===== *)
theory Spec2Isabelle
  imports TimerLoop BufferBound JsonTyped LoopQueue HttpLoop SendLoop ThreadPool StackTrace
begin

text \<open>
  A verification development of the muduo re-implementation, a C++ library for event-driven TCP
  servers on Linux: \<open>src/muduo/base\<close> (threads, synchronisation, containers, JSON), \<open>src/muduo/net\<close>
  (event loop, timers, connections, server) and \<open>src/muduo/net/http\<close> (an HTTP server).

  \<^bold>\<open>The program.\<close> A \<open>TcpServer\<close> owns an \<open>Acceptor\<close> in its base loop and a pool of loops, each in a thread of
  its own. The acceptor takes connections from the listening socket; the server gives each a name, an
  entry in its map and one of the loops, in turn. An \<open>EventLoop\<close> waits in its \<open>EpollPoller\<close>, lets every
  active \<open>Channel\<close> call its callbacks, and then runs the functors other threads have queued; a
  \<open>TimerQueue\<close> serves its timers through one timer descriptor. A \<open>TcpConnection\<close> moves bytes between its
  socket and two \<open>Buffer\<close>s; the HTTP server parses requests from the input buffer with an \<open>HttpContext\<close>
  and appends \<open>HttpResponse\<close>s; its callbacks run inside the connection's handlers, and what they do to the
  connection (send, shut down, exchange the write-complete callback) happens there and then.

  \<^bold>\<open>How it is modelled.\<close> A class is a record (its members, by their names or close to them), a member
  function a function from the state to the new state. What can go wrong in C++ is a value: a
  \<open>result\<close> is \<open>Inl\<close> of a fault (failed assertion, access out of bounds, use of a freed object, signed
  overflow, call of an empty \<open>std::function\<close>, ...) or \<open>Inr\<close> of the outcome (\<open>Prelude\<close>). Objects that are shared
  through pointers (timers, channels) live in maps from addresses. Sizes are natural numbers with
  the wrap-around written out, or words. System calls are answered by an argument and recorded in
  order. Concurrency is a step relation with all interleavings.

  \<^bold>\<open>Theories\<close>, with the sources they model:
  \<^item> \<open>Prelude\<close>, \<open>Decimal\<close>, \<open>StrMap\<close>: results, \<open>size_t\<close>, searches in ranges; \<open>printf\<close> of numbers and reading
    them back; \<open>std::map\<close> with string keys.
  \<^item> \<open>Atomic\<close> (\<open>base/Atomic.h\<close>), \<open>Timestamp\<close> (\<open>base/Timestamp\<close>), \<open>AnyValue\<close> (\<open>base/Any.h\<close>).
  \<^item> \<open>MinHeap\<close> (\<open>base/MinHeap.h\<close>): the heap on a vector with its own size and spare storage; sorting,
    \<open>remove\<close>, and what a push after \<open>shrink\<close> loses.
  \<^item> \<open>Timer\<close>, \<open>TimerQueue\<close> (\<open>net/Timer\<close>, \<open>net/TimerId.h\<close>, \<open>net/TimerQueue\<close>) and \<open>TimerCorrect\<close>: the abstract
    queue, a multiset of pending entries, and the proof that the code implements it as long as the heap's storage takes
    the timers the callbacks add (what happens otherwise is \<open>reallocation_loses_timers\<close>). \<open>TimerLoop\<close>: the queue in
    its loop, and \<open>cancel\<close> from another thread.
  \<^item> \<open>Buffer\<close> (\<open>net/Buffer\<close>): the vector and its two indices as a queue of bytes. \<open>BufferBound\<close>: its memory.
  \<^item> \<open>HttpRequest\<close>, \<open>HttpContext\<close>, \<open>HttpResponse\<close>, \<open>HttpServer\<close> (\<open>net/http\<close>, \<open>net/File.h\<close>): parsing in any number
    of pieces, rendering, and one answer per request; in \<open>HttpServer\<close> the calls on a connection are listed.
  \<^item> \<open>HttpService\<close> (\<open>net/http/HttpServer.cc\<close>): the same callbacks run on the connection itself; \<open>HttpSession\<close>: sessions,
    closing answers, files, pipelining; \<open>HttpSite\<close> (\<open>net/http/HttpServer\<close>): the server object, its connections' beginning
    and end; \<open>HttpLoop\<close>: a served connection in rounds of its loop.
  \<^item> \<open>JsonValue\<close> (\<open>base/JsonValue.h\<close>): parser, serialisation, \<open>get\<close>, \<open>insert\<close>, copying. \<open>JsonTyped\<close>: tag and union.
  \<^item> \<open>Channel\<close>, \<open>EpollPoller\<close>, \<open>EventLoop\<close> (the files of these names, \<open>net/Poller\<close>): channels and the
    interest list the calls to \<open>epoll_ctl\<close> build up.
  \<^item> \<open>LoopQueue\<close>: the functor queue of \<open>net/EventLoop.cc\<close> with several threads, from before \<open>loop\<close> is called.
  \<^item> \<open>TcpConnection\<close> (\<open>net/TcpConnection\<close>), \<open>ConnCorrect\<close> (the stream of bytes sent; failed writes, shutdown,
    files), \<open>ConnLife\<close> (from establishment to the destructor), \<open>ConnLoop\<close> (its handlers and functors in rounds of
    \<open>EventLoop::loop\<close>, beside the wakeup channel), \<open>SendLoop\<close> (sending from other threads).
  \<^item> \<open>InetAddr\<close> (\<open>net/InetAddr\<close>), \<open>Acceptor\<close> (\<open>net/Acceptor\<close>, \<open>net/Socket\<close>, \<open>net/SocketOps\<close>, on a process
    with a table of descriptors), \<open>TcpServer\<close> (\<open>net/TcpServer\<close>, \<open>net/EventLoopThreadPool\<close>), \<open>ServerConn\<close>: a connection
    of the server from its acceptance to its destructor.
  \<^item> \<open>Monitor\<close> (\<open>base/Mutex.h\<close>, \<open>base/Condition\<close>), \<open>BlockingQueues\<close> (\<open>base/BlockingQueue.h\<close>,
    \<open>base/BoundedBlockingQueue.h\<close>), \<open>CountDownLatch\<close>, \<open>Thread\<close> (\<open>base/Thread\<close>, \<open>base/CurrentThread\<close>,
    \<open>net/EventLoopThread\<close>), \<open>ThreadPool\<close>, \<open>StackTrace\<close> (\<open>base/Exception\<close>).

  \<^bold>\<open>Interfaces.\<close> \<open>Monitor\<close> states as locales what a class with a mutex and condition variables has to provide
  (\<open>monitor_inv\<close>, \<open>monitor_safe\<close>: an invariant that every locked pass keeps; \<open>wakeups\<close>: whoever adds an item
  notifies one consumer; \<open>broadcasts\<close>: whoever ends a condition notifies all who wait for it) and
  derives that no item is left to sleeping threads; queues, latch and pool interpret them.
  \<open>Acceptor\<close> states its contract with the new-connection callback (\<open>connection_handler\<close>), which \<open>TcpServer\<close>
  interprets with \<open>newConnection\<close>. \<open>HttpSession\<close> states what one event has to do for a session of requests to be
  answered (\<open>session\<close>), and interprets it with the calls of the connection's handlers (\<open>net\<close>); \<open>HttpLoop\<close> interprets
  it with whole rounds of the loop (\<open>rounds\<close>).

  \<^bold>\<open>What the lemmas show.\<close> Refinement: the timer queue, the buffer, the incremental parser and the sending
  side of a connection implement a multiset, a queue of bytes, a parser of strings and a stream; the HTTP
  server on top of them implements the sequence of the handler's answers (\<open>http_session\<close>, and below from end
  to end: \<open>http_service\<close> with the calls of the handlers, \<open>http_service_in_loop\<close> with the rounds of the loop and the
  functors that reach it); what other threads send goes through the functor queue into the stream in order
  (\<open>sends_across_threads\<close>). These hold under conditions that the code does not check, and for each there is a theorem
  that says what happens without it: no write returns -1 (\<open>write_error_garbage\<close>), no piece reaches into a second request
  (\<open>pipelined_request_waits\<close>), the handler's answers do not close the connection (\<open>http_close_after_answer\<close>) and are not
  files (\<open>http_file_use_after_free\<close>), the end of the stream is not reported together with room to write
  (\<open>fin_while_writing_aborts\<close>), the heap's storage takes the timers that callbacks add (\<open>reallocation_loses_timers\<close>).
  Invariants: heap order, well-formed buffers, agreement of channels and kernel, unique names of
  connections, accounted wakeups. Errors: each defect found is a theorem about the same model, with a
  concrete run where one is needed.

  \<^bold>\<open>Fuel.\<close> Loops that end are total functions. \<open>EventLoop_loop\<close> never ends and takes a number of rounds, and so does
  the destructor of an \<open>EventLoopThread\<close>, which waits for it (\<open>dtor_never_returns\<close>);
  the JSON parser takes fuel, \<open>json_roundtrip\<close> says how much is enough, and \<open>json_array_endless\<close> that none
  is on some texts; \<open>accept_loop\<close> needs one unit more than there are waiting connections (\<open>server_accepts\<close>).
  \<open>nested n\<close> gives the stack room for \<open>n\<close> callbacks inside one another: one is enough for persistent connections,
  two for a closing answer; no number is enough for a callback that sends again (\<open>resend_overflows\<close>).

  \<^bold>\<open>Not modelled.\<close> The logging macros, \<open>Types.h\<close> (casts no code calls), the tag classes and \<open>Callbacks.h\<close> have no
  state. Left out are the reference counts of shared pointers, floating point (an opaque type), \<open>insert\<close> with an
  integer key, which does not compile, and \<open>createTimerfd\<close> and \<open>readTimerfd\<close>, one system call each whose result
  is not used. Data races on members that are accessed without a lock are not modelled as such: such
  a write is one atomic step. The rounds of \<open>ConnLoop\<close> and \<open>SendLoop\<close> are those of a loop with one connection beside
  the wakeup channel, and other threads queue between two rounds; the queue under every interleaving is \<open>LoopQueue\<close>.
\<close>

section \<open>A connection's whole way\<close>

text \<open>C2: The server end to end, while no write to the socket fails, no request comes together with the one before it, and
  all is kept in memory: a connection that an HTTP server accepts goes into its map under a new name. In the loop it was given
  to, it is established; well-formed requests without a body (\<open>servable\<close>; no \<open>POST\<close>) arrive in any number of pieces, each
  inside one request (\<open>cut\<close>; a piece that reaches into a second request is the subject of \<open>pipelined_request_waits\<close>), in any
  interleaving with the events of the socket becoming writable; each write takes at most the bytes it is given and never returns -1
  (\<open>writes_ok\<close>; \<open>write_error_garbage\<close> is the other case); the handler's answers are well-formed, from memory and keep the
  connection open (\<open>persistent\<close>), and the two buffers stay below the vector's limit. Then the client ends the stream, and the
  server closes, destroys and frees the connection, the last system call being the \<open>close\<close> of its socket. Nothing fails, what was
  handed to the kernel and waits in the output buffer after the last request is exactly the sequence of the handler's answers to the
  finished requests, and at the end the loop's channels and the kernel's interest list are what they were before.\<close>

theorem http_service:
  assumes "serves_http w" "names_short ntop6" "names_ok w" "length peer = addr_size"
    and "TcpServer_newConnection ntop6 alloc ServerRemoveConnection fd peer w = Inr w'"
    and reqs: "cut [] rs xs" "\<And>r. r \<in> set rs \<Longrightarrow> servable r \<and> persistent h r"
    and net: "length (filter (\<lambda>e. e = Readable) evs) = length xs" "feeds env 0 (xs @ [[]])" "writes_ok env"
    and rooms: "length (store (Buffer_init kInitSize)) + length (concat xs) \<le> vec_max_size"
      "length (store (Buffer_init kInitSize)) + length (concat (map (answer h) rs)) \<le> vec_max_size"
  shows "\<exists>name sc. srv_conns w name = None \<and> srv_conns w' name = Some sc \<and>
    (\<forall>tid v. placed sc tid v \<and> w_sys v = [] \<longrightarrow> (\<exists>v1 v2 v3 v4 v5.
       connectEstablished (http_env (Suc n) h tid env) tid v = Inr v1 \<and>
       net_run (http_env (Suc n) h tid env) tid evs v1 = Inr v2 \<and>
       stream env v2 = concat (map (answer h) (finished [] rs xs)) \<and>
       conn_handleRead (http_env (Suc n) h tid env) tid v2 = Inr v3 \<and>
       connectDestroyed (http_env (Suc n) h tid env) tid v3 = Inr v4 \<and> TcpConnection_dtor tid v4 = Inr v5 \<and>
       chans v5 = (chans v)(c_channel (sc_conn sc) := None) \<and> interest_of v5 = interest_of v \<and>
       last (w_sys v5) = SysClose (c_socket (sc_conn sc))))"
proof -
  from connection_made [OF assms(2-5)] obtain name sc l a where
    sc: "srv_conns w name = None" "srv_conns w' name = Some sc" and made: "sc = make_conn ServerRemoveConnection l name fd a peer w" .
  let ?env = "\<lambda>tid. http_env (Suc n) h tid env"
  have "\<exists>v1 v2 v3 v4 v5. connectEstablished (?env tid) tid v = Inr v1 \<and> net_run (?env tid) tid evs v1 = Inr v2 \<and>
      stream env v2 = concat (map (answer h) (finished [] rs xs)) \<and> conn_handleRead (?env tid) tid v2 = Inr v3 \<and>
      connectDestroyed (?env tid) tid v3 = Inr v4 \<and> TcpConnection_dtor tid v4 = Inr v5 \<and>
      chans v5 = (chans v)(c_channel (sc_conn sc) := None) \<and> interest_of v5 = interest_of v \<and>
      last (w_sys v5) = SysClose (c_socket (sc_conn sc))"
    if v: "placed sc tid v" "w_sys v = []" for tid v
  proof -
    from http_establish [OF v(1) assms(1) made] obtain v1 where
      v1: "connectEstablished (?env tid) tid v = Inr v1" "http_ready tid [] v1" "w_sys v1 = w_sys v"
      "outputBuffer (w_conn v1) = Buffer_init kInitSize" "inputBuffer (w_conn v1) = Buffer_init kInitSize" "later 0 v v1" by blast
    have fed: "fed_by env xs v1" using net(2,3) v(2) v1(3) by (simp add: fed_by_def feeds_def nth_append)
    have room: "has_space (length (concat xs)) (length (concat (map (answer h) rs))) v1" using rooms v1(4,5) by (simp add: has_space_def)
    from net.session_run [OF v1(2) reqs net(1) fed room] obtain v2 where
      v2: "net_run (?env tid) tid evs v1 = Inr v2" "http_ready tid (unfinished [] rs xs) v2"
      "stream env v2 = stream env v1 @ concat (map (answer h) (finished [] rs xs))" "later (length xs) v1 v2"
      unfolding net_run_events [symmetric] by blast
    have near: "later (length xs) v v2" using later_trans [OF v1(6) v2(4)] by simp
    have conn: "w_conn v = sc_conn sc" using v(1) by (simp add: placed_def)
    have "stream env v1 = []" using v(2) v1(3,4) by (simp add: stream_def)
    then have sent: "stream env v2 = concat (map (answer h) (finished [] rs xs))" using v2(3) by simp
    have "reads (w_sys v2) = length xs" using near v(2) by (simp add: later_def)
    then have eof: "sys_readv env (w_sys v2) = Inr []" using net(2) by (simp add: feeds_def)
    obtain c where c: "chans v (c_channel (sc_conn sc)) = Some c" "ch_fd c = c_socket (sc_conn sc)" "\<not> ch_eventHandling c"
      "channel_map (loop_poller v) (ch_fd c) = None"
      using v(1) by (simp add: placed_def conn_channel_new)
    have a: "c_channel (w_conn v2) = c_channel (sc_conn sc)" and beside: "beside (c_channel (sc_conn sc)) v v2"
      using near conn by (simp_all add: later_def)
    obtain c' where c': "chans v2 (c_channel (w_conn v2)) = Some c'" "ch_fd c' = ch_fd c" "\<not> ch_eventHandling c'"
      using besideD(3) [OF beside c(1)] c(3) a by auto
    have cb: "connectionCallback (w_conn v2) = Some HttpOnConnection" "c_closeCallback (w_conn v2) = Some ServerRemoveConnection"
      using near conn assms(1) by (simp_all add: later_def serves_http_def made make_conn_def)
    have ok: "conn_ok v2" "threadId v2 = tid" "buf_ok (inputBuffer (w_conn v2))"
      using v2(2) by (simp_all add: http_ready_def streaming_def)
    from http_finish [OF ok eof cb c'(1,3)] obtain v3 v4 v5 where
      v5: "conn_handleRead (?env tid) tid v2 = Inr v3" "connectDestroyed (?env tid) tid v3 = Inr v4" "TcpConnection_dtor tid v4 = Inr v5"
      "chans v5 = (chans v2)(c_channel (w_conn v2) := None)" "interest_of v5 = (interest_of v2)(ch_fd c' := None)"
      "last (w_sys v5) = SysClose (c_socket (w_conn v2))" by blast
    have "chans v5 = (chans v)(c_channel (sc_conn sc) := None)"
      using v5(4) besideD(2) [OF beside] a by (auto simp: fun_eq_iff)
    moreover have "interest_of v5 = interest_of v"
      using v5(5) besideD(4) [OF beside c(1)] c(4) c'(2) by (auto simp: fun_eq_iff registered_def [of _ "loop_poller v"])
    moreover have "last (w_sys v5) = SysClose (c_socket (sc_conn sc))" using v5(6) near conn by (simp add: later_def)
    ultimately show ?thesis using v1(1) v2(1) sent v5(1-3) by blast
  qed
  with sc show ?thesis by blast
qed

text \<open>A server that has accepted a connection at descriptor 9 with its channel at 200, and a loop it is placed in.\<close>

definition ex_site :: "(http_value, nat) server" where
  "ex_site = hs_server (HttpServer_init (\<lambda>_. []) ''web'' (ex_peer 80) HttpOnConnection ex_acceptor)"

definition ex_place :: "http_value server_conn \<Rightarrow> http_value world" where
  "ex_place sc = ex_http\<lparr>w_conn := sc_conn sc, loop_poller := EpollPoller_init,
     chans := [200 \<mapsto> conn_channel (Channel_init (loop_this ex_http) 9)]\<rparr>"

lemma ex_site_state:
  "srv_conns ex_site = Map.empty" "srv_nextConnId ex_site = 1" "srv_pool ex_site = EventLoopThreadPool_init (loop_this ex_acceptor) ''web''"
  "srv_name ex_site = ''web''"
  by (simp_all add: ex_site_def HttpServer_init_def srv_setMessageCallback_def srv_setConnectionCallback_def TcpServer_init_def
      acc_world.defs server.defs)

lemma ex_site_connects:
  obtains w' where "TcpServer_newConnection (\<lambda>_. []) (\<lambda>_. 200) ServerRemoveConnection 9 (ex_peer 8) ex_site = Inr w'"
    "\<And>name sc. srv_conns w' name = Some sc \<Longrightarrow> c_channel (sc_conn sc) = 200 \<and> c_socket (sc_conn sc) = 9"
  by (rule that) (auto simp: TcpServer_newConnection_def ex_site_state getNextLoop_def EventLoopThreadPool_init_def Let_def
      make_conn_def TcpConnection_init_def split: if_splits)

lemma ex_placed: "c_channel (sc_conn sc) = 200 \<Longrightarrow> c_socket (sc_conn sc) = 9 \<Longrightarrow> placed sc 7 (ex_place sc)"
proof -
  have "poller_ok [200 \<mapsto> conn_channel (Channel_init (loop_this ex_http) 9)] EpollPoller_init"
    by (rule poller_ok_init) (auto simp: conn_channel_new split: if_splits)
  moreover have "ch_loop (conn_channel (Channel_init (loop_this ex_http) 9)) = loop_this ex_http"
    by (simp add: conn_channel_def setReadCallback_def setWriteCallback_def setErrorCallback_def setCloseCallback_def Channel_init_def)
  ultimately show "c_channel (sc_conn sc) = 200 \<Longrightarrow> c_socket (sc_conn sc) = 9 \<Longrightarrow> placed sc 7 (ex_place sc)"
    by (simp add: placed_def ex_place_def chans_ok_def conn_channel_new EpollPoller_init_def)
qed

abbreviation ex_pieces :: "string list" where
  "ex_pieces \<equiv> [''GET / HT'', ''TP/1.1'' @ kCRLF @ kCRLF]"

lemma ex_service:
  "serves_http ex_site" "names_short (\<lambda>_. [])" "names_ok ex_site"
  "cut [] [ex_get kHttp11] ex_pieces" "finished [] [ex_get kHttp11] ex_pieces = [ex_get kHttp11]"
  "r \<in> set [ex_get kHttp11] \<Longrightarrow> servable r \<and> persistent ex_handler r"
  "feeds (ex_feed ex_pieces) 0 (ex_pieces @ [[]])"
  "length (store (Buffer_init kInitSize)) + length (concat ex_pieces) \<le> vec_max_size"
  "length (store (Buffer_init kInitSize)) + length (concat (map (answer ex_handler) [ex_get kHttp11])) \<le> vec_max_size"
  "concat (map (answer ex_handler) [ex_get kHttp11]) =
    ''HTTP/1.1 200 OK'' @ kCRLF @ ''Content-Length: 2'' @ kCRLF @ ''Connection: Keep-Alive'' @ kCRLF @ kCRLF @ ''hi''"
proof -
  let ?ans = "''HTTP/1.1 200 OK'' @ kCRLF @ ''Content-Length: 2'' @ kCRLF @ ''Connection: Keep-Alive'' @ kCRLF @ kCRLF @ ''hi''"
  show "serves_http ex_site" unfolding ex_site_def by (rule serves_http_init)
  show "names_short (\<lambda>_. [])" "names_ok ex_site"
    by (simp_all add: names_short_def names_ok_def ex_site_state pool_ok_def EventLoopThreadPool_init_def)
  show "cut [] [ex_get kHttp11] ex_pieces" "finished [] [ex_get kHttp11] ex_pieces = [ex_get kHttp11]" by code_simp+
  show "r \<in> set [ex_get kHttp11] \<Longrightarrow> servable r \<and> persistent ex_handler r" using ex_get_ok by auto
  show "feeds (ex_feed ex_pieces) 0 (ex_pieces @ [[]])" by (auto simp: feeds_def ex_feed_def nth_append less_Suc_eq)
  have ans: "answer ex_handler (ex_get kHttp11) = ?ans" by code_simp
  then show out: "concat (map (answer ex_handler) [ex_get kHttp11]) = ?ans" by (simp only: list.map concat.simps append_Nil2)
  have "length ?ans < 1000" "length (concat ex_pieces) < 1000" by code_simp+
  moreover have "(4000 :: nat) \<le> vec_max_size" by (simp add: vec_max_size_def)
  ultimately show "length (store (Buffer_init kInitSize)) + length (concat ex_pieces) \<le> vec_max_size"
    "length (store (Buffer_init kInitSize)) + length (concat (map (answer ex_handler) [ex_get kHttp11])) \<le> vec_max_size"
    unfolding out using ex_http_simps(6) by linarith+
qed

lemma http_service_witness:
  "\<exists>w' name sc v1 v2 v3. TcpServer_newConnection (\<lambda>_. []) (\<lambda>_. 200) ServerRemoveConnection 9 (ex_peer 8) ex_site = Inr w' \<and>
    srv_conns w' name = Some sc \<and>
    connectEstablished (http_env (Suc 0) ex_handler 7 (ex_feed ex_pieces)) 7 (ex_place sc) = Inr v1 \<and>
    net_run (http_env (Suc 0) ex_handler 7 (ex_feed ex_pieces)) 7 [Readable, Readable, Writable] v1 = Inr v2 \<and>
    stream (ex_feed ex_pieces) v2 =
      ''HTTP/1.1 200 OK'' @ kCRLF @ ''Content-Length: 2'' @ kCRLF @ ''Connection: Keep-Alive'' @ kCRLF @ kCRLF @ ''hi'' \<and>
    conn_handleRead (http_env (Suc 0) ex_handler 7 (ex_feed ex_pieces)) 7 v2 = Inr v3"
proof -
  obtain w' where w': "TcpServer_newConnection (\<lambda>_. []) (\<lambda>_. 200) ServerRemoveConnection 9 (ex_peer 8) ex_site = Inr w'"
    "\<And>name sc. srv_conns w' name = Some sc \<Longrightarrow> c_channel (sc_conn sc) = 200 \<and> c_socket (sc_conn sc) = 9"
    using ex_site_connects by blast
  have num: "length (filter (\<lambda>e. e = Readable) [Readable, Readable, Writable]) = length ex_pieces" by simp
  from http_service [OF ex_service(1-3) length_ex_peer w'(1) ex_service(4,6) num ex_service(7) ex_feed_ok(2) ex_service(8,9), of 0,
      unfolded ex_service(5,10)]
  obtain name sc where sc: "srv_conns w' name = Some sc" and
    run: "\<And>tid v. placed sc tid v \<and> w_sys v = [] \<Longrightarrow> \<exists>v1 v2 v3.
       connectEstablished (http_env (Suc 0) ex_handler tid (ex_feed ex_pieces)) tid v = Inr v1 \<and>
       net_run (http_env (Suc 0) ex_handler tid (ex_feed ex_pieces)) tid [Readable, Readable, Writable] v1 = Inr v2 \<and>
       stream (ex_feed ex_pieces) v2 =
         ''HTTP/1.1 200 OK'' @ kCRLF @ ''Content-Length: 2'' @ kCRLF @ ''Connection: Keep-Alive'' @ kCRLF @ kCRLF @ ''hi'' \<and>
       conn_handleRead (http_env (Suc 0) ex_handler tid (ex_feed ex_pieces)) tid v2 = Inr v3" by blast
  have "placed sc 7 (ex_place sc) \<and> w_sys (ex_place sc) = []" using ex_placed w'(2) [OF sc] by (simp add: ex_place_def)
  from run [OF this] w'(1) sc show ?thesis by blast
qed

section \<open>In the loop\<close>

text \<open>C1: The server end to end, in its event loops, under the conditions of \<open>http_service\<close>: no write returns -1, each piece lies
  inside one well-formed request without a body (no \<open>POST\<close>), the handler's answers are well-formed, from memory and keep
  the connection open, the buffers stay below the vector's limit. A connection that an HTTP server accepts goes into its map under
  a new name, and a functor goes to the loop it was given to. There the functor establishes it; in the rounds of the loop that follow,
  each with any of the socket readable or writable and the loop woken or not, the requests arrive in pieces; then comes a round that reads
  the client's end of the stream and in which the socket is not reported as writable (when it is, and bytes still wait, the process
  aborts: \<open>fin_while_writing_aborts\<close>); a functor destroys the connection, and it is freed, the last system call being the \<open>close\<close>
  of its socket. Every round succeeds, what was handed to the kernel and waits in the output buffer is exactly the sequence of the
  handler's answers to the finished requests, and at the end the loop's other channels, but for their event flags, and the kernel's
  interest list are what they were before.\<close>

theorem http_service_in_loop:
  assumes "serves_http w" "names_short ntop6" "names_ok w" "length peer = addr_size"
    and "TcpServer_newConnection ntop6 alloc ServerRemoveConnection fd peer w = Inr w'"
    and reqs: "cut [] rs xs" "\<And>r. r \<in> set rs \<Longrightarrow> servable r \<and> persistent h r"
    and net: "length (filter r_in rds) = length xs" "feeds env 0 (xs @ [[]])" "writes_ok env"
    and last: "r_in rd1" "\<not> r_out rd1"
    and rooms: "length (store (Buffer_init kInitSize)) + length (concat xs) \<le> vec_max_size"
      "length (store (Buffer_init kInitSize)) + length (concat (map (answer h) rs)) \<le> vec_max_size"
  shows "\<exists>name sc. srv_conns w name = None \<and> srv_conns w' name = Some sc \<and>
    srv_conns (removeConnectionInLoop sc w') = srv_conns w \<and>
    srv_posted (removeConnectionInLoop sc w') =
      srv_posted w @ [RunIn (sc_loop sc) (ConnEstablishedIn name), QueueIn (sc_loop sc) (ConnDestroyedIn name)] \<and>
    (\<forall>tid tid0 v. placed sc tid v \<and> own_wakeup v \<and> pendingFunctors v = [] \<and> w_sys v = [] \<and> tid0 \<noteq> tid \<longrightarrow> (\<exists>v1 v2 v3 v4 v5 v6.
       runInLoop (run_closure (http_env (Suc n) h tid0 env) tid0) tid0 ConnEstablished v = Inr v1 \<and>
       loop_round (http_env (Suc n) h tid env) tid rd0 v1 = Inr v2 \<and>
       run_events (loop_round (http_env (Suc n) h tid env) tid) rds v2 = Inr v3 \<and>
       stream env v3 = concat (map (answer h) (finished [] rs xs)) \<and>
       loop_round (http_env (Suc n) h tid env) tid rd1 v3 = Inr v4 \<and> state_of v4 = kDisConnected \<and>
       loop_round (http_env (Suc n) h tid env) tid rd2 (queueInLoop tid0 ConnDestroyed v4) = Inr v5 \<and>
       TcpConnection_dtor tid v5 = Inr v6 \<and>
       chans v6 (c_channel (sc_conn sc)) = None \<and>
       (\<forall>b. b \<noteq> c_channel (sc_conn sc) \<longrightarrow> map_option quiet (chans v6 b) = map_option quiet (chans v b)) \<and>
       interest_of v6 = interest_of v \<and> last (w_sys v6) = SysClose (c_socket (sc_conn sc))))"
proof -
  from connection_made [OF assms(2-5)] obtain name sc l a where
    sc: "srv_conns w name = None" "srv_conns w' name = Some sc" "srv_conns (removeConnectionInLoop sc w') = srv_conns w"
      "srv_posted (removeConnectionInLoop sc w') =
        srv_posted w @ [RunIn (sc_loop sc) (ConnEstablishedIn name), QueueIn (sc_loop sc) (ConnDestroyedIn name)]"
    and made: "sc = make_conn ServerRemoveConnection l name fd a peer w" .
  let ?env = "\<lambda>tid. http_env (Suc n) h tid env" and ?a = "c_channel (sc_conn sc)" and ?s = "c_socket (sc_conn sc)"
  have "\<exists>v1 v2 v3 v4 v5 v6. runInLoop (run_closure (?env tid0) tid0) tid0 ConnEstablished v = Inr v1 \<and>
      loop_round (?env tid) tid rd0 v1 = Inr v2 \<and> run_events (loop_round (?env tid) tid) rds v2 = Inr v3 \<and>
      stream env v3 = concat (map (answer h) (finished [] rs xs)) \<and>
      loop_round (?env tid) tid rd1 v3 = Inr v4 \<and> state_of v4 = kDisConnected \<and>
      loop_round (?env tid) tid rd2 (queueInLoop tid0 ConnDestroyed v4) = Inr v5 \<and> TcpConnection_dtor tid v5 = Inr v6 \<and>
      chans v6 ?a = None \<and> (\<forall>b. b \<noteq> ?a \<longrightarrow> map_option quiet (chans v6 b) = map_option quiet (chans v b)) \<and>
      interest_of v6 = interest_of v \<and> last (w_sys v6) = SysClose ?s"
    if v: "placed sc tid v" "own_wakeup v" "pendingFunctors v = []" "w_sys v = []" "tid0 \<noteq> tid" for tid tid0 v
  proof -
    obtain v1 v2 where v2: "runInLoop (run_closure (?env tid0) tid0) tid0 ConnEstablished v = Inr v1" "wakeup_writes v1 = Suc (wakeup_writes v)"
      "loop_round (?env tid) tid rd0 v1 = Inr v2" "serving tid [] v2" "w_sys v2 = w_sys v"
      "outputBuffer (w_conn v2) = Buffer_init kInitSize" "inputBuffer (w_conn v2) = Buffer_init kInitSize" "onward 0 v v2"
      by (rule established_in_loop [OF v(1-3,5) assms(1) made])
    have fed: "fed_by env xs v2" using net(2,3) v(4) v2(5) by (simp add: fed_by_def feeds_def nth_append)
    have room: "has_space (length (concat xs)) (length (concat (map (answer h) rs))) v2"
      using rooms v2(6,7) by (simp add: has_space_def)
    from rounds.session_run [OF v2(4) reqs net(1) fed room] obtain v3 where
      v3: "run_events (loop_round (?env tid) tid) rds v2 = Inr v3" "serving tid (unfinished [] rs xs) v3"
      "stream env v3 = stream env v2 @ concat (map (answer h) (finished [] rs xs))" "onward (length xs) v2 v3" by blast
    have near: "onward (length xs) v v3" using onward_trans [OF v2(8) v3(4)] by simp
    have conn: "w_conn v = sc_conn sc" "channel_map (loop_poller v) ?s = None" using v(1) by (simp_all add: placed_def)
    have "stream env v2 = []" using v(4) v2(5,6) by (simp add: stream_def)
    then have sent: "stream env v3 = concat (map (answer h) (finished [] rs xs))" using v3(3) by simp
    have "reads (w_sys v3) = length xs" using near v(4) by (simp add: onward_def)
    then have eof: "sys_readv env (w_sys v3) = Inr []" using net(2) by (simp add: feeds_def)
    have as: "c_channel (w_conn v3) = ?a" "c_socket (w_conn v3) = ?s" and ar3: "around ?a ?s v v3"
      using near conn by (simp_all add: onward_def)
    have cb: "connectionCallback (w_conn v3) = Some HttpOnConnection" "c_closeCallback (w_conn v3) = Some ServerRemoveConnection"
      using near conn assms(1) by (simp_all add: onward_def serves_http_def made make_conn_def)
    obtain v4 where v4: "loop_round (?env tid) tid rd1 v3 = Inr v4" "closed_in_loop tid v4" "c_channel (w_conn v4) = c_channel (w_conn v3)"
      "c_socket (w_conn v4) = c_socket (w_conn v3)" "around (c_channel (w_conn v3)) (c_socket (w_conn v3)) v3 v4"
      by (rule eof_in_loop [OF v3(2) last eof cb])
    obtain v5 v6 where v6: "loop_round (?env tid) tid rd2 (queueInLoop tid0 ConnDestroyed v4) = Inr v5" "TcpConnection_dtor tid v5 = Inr v6"
      "chans v6 (c_channel (w_conn v4)) = None" "around (c_channel (w_conn v4)) (c_socket (w_conn v4)) v4 v6"
      "interest_of v6 (c_socket (w_conn v4)) = None" "last (w_sys v6) = SysClose (c_socket (w_conn v4))"
      by (rule destroyed_in_loop [OF v4(2) v(5)])
    have state: "state_of v4 = kDisConnected" using v4(2) by (simp add: closed_in_loop_def)
    have ar: "around ?a ?s v v6" using ar3 v4(3-5) v6(4) as around_trans by metis
    have "interest_of v6 ?s = interest_of v ?s" using v6(5) v4(4) as conn(2) by (simp add: registered_def [of _ "loop_poller v"])
    then have "interest_of v6 = interest_of v" using ar unfolding around_def by (metis ext)
    moreover have "last (w_sys v6) = SysClose ?s" using v6(6) v4(4) as(2) by simp
    ultimately show ?thesis using v2(1,3) v3(1) sent v4(1) state v6(1-3) v4(3) as ar unfolding around_def by metis
  qed
  with sc show ?thesis by blast
qed

text \<open>The same connection in a loop with its wakeup channel at 100; thread 8 establishes and destroys it. The first piece
  comes with a wakeup, the second together with a report that the socket is writable.\<close>

definition ex_loop_place :: "http_value server_conn \<Rightarrow> http_value world" where
  "ex_loop_place sc = (ex_place sc)\<lparr>chans := [200 \<mapsto> conn_channel (Channel_init (loop_this ex_http) 9),
     100 \<mapsto> setReadCallback WakeupRead (Channel_init (loop_this ex_http) 5)]\<rparr>"

definition ex_rounds :: "io_round list" where
  "ex_rounds = [Round True False WakeupFirst 1, Round False True NoWakeup 2, Round True True WakeupLast 3, Round False True NoWakeup 4]"

lemma ex_loop_placed:
  assumes "c_channel (sc_conn sc) = 200" "c_socket (sc_conn sc) = 9"
  shows "placed sc 7 (ex_loop_place sc)" "own_wakeup (ex_loop_place sc)" "pendingFunctors (ex_loop_place sc) = []" "w_sys (ex_loop_place sc) = []"
proof -
  let ?m = "[200 \<mapsto> conn_channel (Channel_init (loop_this ex_http) 9), 100 \<mapsto> setReadCallback WakeupRead (Channel_init (loop_this ex_http) 5)]
    :: http_value closure chan_mem"
  have new: "ch_index c = kNew \<and> ch_loop c = loop_this ex_http" if "?m b = Some c" for b c
    using that by (auto simp: conn_channel_def setReadCallback_def setWriteCallback_def setErrorCallback_def setCloseCallback_def
        Channel_init_def kNew_def split: if_splits)
  have "poller_ok ?m EpollPoller_init" by (rule poller_ok_init) (use new in blast)
  then show "placed sc 7 (ex_loop_place sc)" using assms new
    by (auto simp: placed_def ex_loop_place_def ex_place_def chans_ok_def EpollPoller_init_def)
  show "own_wakeup (ex_loop_place sc)" using assms
    by (simp add: own_wakeup_def ex_loop_place_def ex_place_def) (simp add: ex_http_def ex_world_of_def setReadCallback_def setContext_def with_conn_def)
  show "pendingFunctors (ex_loop_place sc) = []" "w_sys (ex_loop_place sc) = []"
    by (simp_all add: ex_loop_place_def ex_place_def) (simp add: ex_http_def ex_world_of_def setContext_def with_conn_def)
qed

lemma http_service_in_loop_witness:
  "\<exists>w' name sc v1 v2 v3 v4 v5 v6. TcpServer_newConnection (\<lambda>_. []) (\<lambda>_. 200) ServerRemoveConnection 9 (ex_peer 8) ex_site = Inr w' \<and>
    srv_conns w' name = Some sc \<and>
    runInLoop (run_closure (http_env (Suc 0) ex_handler 8 (ex_feed ex_pieces)) 8) 8 ConnEstablished (ex_loop_place sc) = Inr v1 \<and>
    loop_round (http_env (Suc 0) ex_handler 7 (ex_feed ex_pieces)) 7 (Round False False WakeupFirst 0) v1 = Inr v2 \<and>
    run_events (loop_round (http_env (Suc 0) ex_handler 7 (ex_feed ex_pieces)) 7) ex_rounds v2 = Inr v3 \<and>
    stream (ex_feed ex_pieces) v3 =
      ''HTTP/1.1 200 OK'' @ kCRLF @ ''Content-Length: 2'' @ kCRLF @ ''Connection: Keep-Alive'' @ kCRLF @ kCRLF @ ''hi'' \<and>
    loop_round (http_env (Suc 0) ex_handler 7 (ex_feed ex_pieces)) 7 (Round True False NoWakeup 5) v3 = Inr v4 \<and>
    loop_round (http_env (Suc 0) ex_handler 7 (ex_feed ex_pieces)) 7 (Round False False WakeupLast 6) (queueInLoop 8 ConnDestroyed v4) = Inr v5 \<and>
    TcpConnection_dtor 7 v5 = Inr v6 \<and> interest_of v6 = interest_of (ex_loop_place sc)"
proof -
  let ?env = "\<lambda>tid. http_env (Suc 0) ex_handler tid (ex_feed ex_pieces)"
  obtain w' where w': "TcpServer_newConnection (\<lambda>_. []) (\<lambda>_. 200) ServerRemoveConnection 9 (ex_peer 8) ex_site = Inr w'"
    "\<And>name sc. srv_conns w' name = Some sc \<Longrightarrow> c_channel (sc_conn sc) = 200 \<and> c_socket (sc_conn sc) = 9"
    using ex_site_connects by blast
  have num: "length (filter r_in ex_rounds) = length ex_pieces" "r_in (Round True False NoWakeup 5)" "\<not> r_out (Round True False NoWakeup 5)"
    by (simp_all add: ex_rounds_def)
  have ok: "\<And>r. r \<in> set [ex_get kHttp11] \<Longrightarrow> servable r \<and> persistent ex_handler r" by (rule ex_service(6))
  from http_service_in_loop [where ?rd0.0 = "Round False False WakeupFirst 0" and ?rd2.0 = "Round False False WakeupLast 6" and n = 0,
      OF ex_service(1-3) length_ex_peer w'(1) ex_service(4) ok num(1) ex_service(7) ex_feed_ok(2) num(2,3) ex_service(8,9), unfolded ex_service(5,10)]
  obtain name sc where sc: "srv_conns w' name = Some sc" and
    run: "\<forall>tid tid0 v. placed sc tid v \<and> own_wakeup v \<and> pendingFunctors v = [] \<and> w_sys v = [] \<and> tid0 \<noteq> tid \<longrightarrow> (\<exists>v1 v2 v3 v4 v5 v6.
       runInLoop (run_closure (?env tid0) tid0) tid0 ConnEstablished v = Inr v1 \<and>
       loop_round (?env tid) tid (Round False False WakeupFirst 0) v1 = Inr v2 \<and>
       run_events (loop_round (?env tid) tid) ex_rounds v2 = Inr v3 \<and>
       stream (ex_feed ex_pieces) v3 =
         ''HTTP/1.1 200 OK'' @ kCRLF @ ''Content-Length: 2'' @ kCRLF @ ''Connection: Keep-Alive'' @ kCRLF @ kCRLF @ ''hi'' \<and>
       loop_round (?env tid) tid (Round True False NoWakeup 5) v3 = Inr v4 \<and> state_of v4 = kDisConnected \<and>
       loop_round (?env tid) tid (Round False False WakeupLast 6) (queueInLoop tid0 ConnDestroyed v4) = Inr v5 \<and>
       TcpConnection_dtor tid v5 = Inr v6 \<and> chans v6 (c_channel (sc_conn sc)) = None \<and>
       (\<forall>b. b \<noteq> c_channel (sc_conn sc) \<longrightarrow> map_option quiet (chans v6 b) = map_option quiet (chans v b)) \<and>
       interest_of v6 = interest_of v \<and> last (w_sys v6) = SysClose (c_socket (sc_conn sc)))" by blast
  have "placed sc 7 (ex_loop_place sc) \<and> own_wakeup (ex_loop_place sc) \<and> pendingFunctors (ex_loop_place sc) = [] \<and>
      w_sys (ex_loop_place sc) = [] \<and> (8 :: int) \<noteq> 7" using ex_loop_placed w'(2) [OF sc] by simp
  from mp [OF spec [OF spec [OF spec [OF run]]] this] w'(1) sc show ?thesis by (elim exE conjE) (intro exI conjI; assumption)
qed

end
